(* ===== verification/Ipc_Prelude.thy ===== *)
theory Ipc_Prelude
  imports Main "HOL-Library.Word"
begin

text \<open>
  Shared vocabulary of the development: bytes and byte-addressed memory, little-endian
  integers (\<open>encoding/binary\<close>), the wrap-around of Go's fixed-width integers, and the
  error values of \<^verbatim>\<open>src/ipc.go\<close>. Go's \<open>uint64\<close> is a \<open>nat\<close> with the reduction modulo
  \<open>2^64\<close> written out, its \<open>int32\<close> an \<open>int\<close> reduced by \<open>i32\<close>; a byte is an \<open>8 word\<close> and
  a record type a \<open>32 word\<close>. A byte slice of shared memory is a function from its index,
  so that a store is visible to every holder of the slice.
\<close>

unbundle bit_operations_syntax

named_theorems ring_simps \<open>rewrite rules for the memory of a ring\<close>

type_synonym byte = "8 word"
type_synonym bytes = "8 word list"
type_synonym mem = "nat \<Rightarrow> 8 word"
type_synonym u32 = "32 word"
type_synonym u64 = nat

section \<open>Fixed-width integers\<close>

definition u64 :: "nat \<Rightarrow> nat" where
  "u64 n = n mod 2 ^ 64"

definition add64 :: "nat \<Rightarrow> nat \<Rightarrow> nat" where
  "add64 a b = (a + b) mod 2 ^ 64"

definition sub64 :: "nat \<Rightarrow> nat \<Rightarrow> nat" where
  "sub64 a b = (a + (2 ^ 64 - b mod 2 ^ 64)) mod 2 ^ 64"

definition i32 :: "int \<Rightarrow> int" where
  "i32 x = (x + 2 ^ 31) mod 2 ^ 32 - 2 ^ 31"

definition i64 :: "int \<Rightarrow> int" where
  "i64 x = (x + 2 ^ 63) mod 2 ^ 64 - 2 ^ 63"

lemma add64_small [simp]: "a + b < 2 ^ 64 \<Longrightarrow> add64 a b = a + b"
  by (simp add: add64_def)

lemma sub64_small [simp]: "b \<le> a \<Longrightarrow> a < 2 ^ 64 \<Longrightarrow> sub64 a b = a - b"
proof -
  assume *: "b \<le> a" "a < 2 ^ 64"
  then have "a + (2 ^ 64 - b mod 2 ^ 64) = (a - b) + 2 ^ 64" by simp
  moreover have "((a - b) + 2 ^ 64) mod 2 ^ 64 = (a - b) mod (2 ^ 64 :: nat)"
    by (rule mod_add_self2)
  ultimately show ?thesis using * unfolding sub64_def by (simp only:) simp
qed

lemma sub64_less: "sub64 a b < 2 ^ 64"
  by (simp add: sub64_def)

lemma i32_range: "- (2 ^ 31) \<le> i32 x" "i32 x < 2 ^ 31"
  unfolding i32_def
  using pos_mod_bound [of "2 ^ 32 :: int" "x + 2 ^ 31"]
    pos_mod_sign [of "2 ^ 32 :: int" "x + 2 ^ 31"] by simp_all

lemma i32_id: "- (2 ^ 31) \<le> x \<Longrightarrow> x < 2 ^ 31 \<Longrightarrow> i32 x = x"
  by (simp add: i32_def)

lemma i32_mod: "i32 (x mod 2 ^ 32) = i32 x"
  by (simp add: i32_def mod_add_left_eq)

lemma nat_and_mask: "(n::nat) AND (2 ^ k - 1) = n mod 2 ^ k"
  by (simp add: take_bit_eq_mask mask_eq_exp_minus_1 flip: take_bit_eq_mod)

lemma int_and_not_7: "(m::int) AND NOT 7 = m - m mod 8"
proof -
  have "mask 3 = (7::int)" by (simp add: mask_eq_exp_minus_1)
  moreover have "take_bit 3 m = m mod 8" by (simp add: take_bit_eq_mod)
  moreover have "m = take_bit 3 m OR (m AND NOT (mask 3))"
    by (rule bit_eqI) (auto simp: bit_simps)
  moreover have "take_bit 3 m + (m AND NOT (mask 3)) = take_bit 3 m OR (m AND NOT (mask 3))"
    by (rule disjunctive_add) (auto simp: bit_simps)
  ultimately show ?thesis by simp
qed

section \<open>Little-endian integers\<close>

fun le_bytes :: "nat \<Rightarrow> nat \<Rightarrow> bytes" where
  "le_bytes 0 n = []"
| "le_bytes (Suc k) n = word_of_nat (n mod 256) # le_bytes k (n div 256)"

fun le_val :: "bytes \<Rightarrow> nat" where
  "le_val [] = 0"
| "le_val (b # bs) = unat b + 256 * le_val bs"

lemma length_le_bytes [simp]: "length (le_bytes k n) = k"
  by (induction k arbitrary: n) auto

lemma unat_word8_of_nat [simp]: "unat (word_of_nat (n mod 256) :: byte) = n mod 256"
  by (simp add: unat_of_nat)

lemma le_val_le_bytes: "le_val (le_bytes k n) = n mod 256 ^ k"
proof (induction k arbitrary: n)
  case (Suc k)
  have "n mod 256 + 256 * (n div 256 mod 256 ^ k) = n mod (256 * 256 ^ k)"
    by (simp add: mod_mult2_eq)
  with Suc show ?case by simp
qed simp

lemma le_val_bound: "le_val bs < 256 ^ length bs"
proof (induction bs)
  case (Cons b bs)
  have "unat b < 256" using unsigned_less [of b, where ?'a = nat] by simp
  with Cons show ?case by (simp add: algebra_simps)
qed simp

lemma le_bytes_le_val: "length bs = k \<Longrightarrow> le_bytes k (le_val bs) = bs"
proof (induction bs arbitrary: k)
  case (Cons b bs)
  have b: "unat b < 256" using unsigned_less [of b, where ?'a = nat] by simp
  have "(unat b + 256 * le_val bs) mod 256 = unat b" using b by simp
  moreover have "(unat b + 256 * le_val bs) div 256 = le_val bs" using b by simp
  ultimately show ?case using Cons by (auto simp del: unat_word8_of_nat)
qed simp

lemma le_bytes_0: "le_bytes k 0 = replicate k 0"
  by (induction k) auto

lemma le_val_replicate_0 [simp]: "le_val (replicate k 0) = 0"
  by (induction k) auto

section \<open>Byte-addressed memory\<close>

definition load_bytes :: "mem \<Rightarrow> nat \<Rightarrow> nat \<Rightarrow> bytes" where
  "load_bytes m i n = map (\<lambda>k. m (i + k)) [0..<n]"

definition store_bytes :: "mem \<Rightarrow> nat \<Rightarrow> bytes \<Rightarrow> mem" where
  "store_bytes m i bs = (\<lambda>j. if i \<le> j \<and> j < i + length bs then bs ! (j - i) else m j)"

definition clear_bytes :: "mem \<Rightarrow> nat \<Rightarrow> nat \<Rightarrow> mem" where
  "clear_bytes m lo hi = (\<lambda>j. if lo \<le> j \<and> j < hi then 0 else m j)"

lemma length_load_bytes [simp]: "length (load_bytes m i n) = n"
  by (simp add: load_bytes_def)

lemma load_bytes_cong:
  "(\<And>j. i \<le> j \<Longrightarrow> j < i + n \<Longrightarrow> m j = m' j) \<Longrightarrow> load_bytes m i n = load_bytes m' i n"
  by (simp add: load_bytes_def)

lemma load_store_same [simp]: "n = length bs \<Longrightarrow> load_bytes (store_bytes m i bs) i n = bs"
  by (auto simp: load_bytes_def store_bytes_def intro: nth_equalityI)

lemma load_store_disjoint [ring_simps]:
  "i + n \<le> k \<or> k + length bs \<le> i \<Longrightarrow> load_bytes (store_bytes m k bs) i n = load_bytes m i n"
  by (rule load_bytes_cong) (auto simp: store_bytes_def)

lemma load_clear_disjoint [ring_simps]:
  "i + n \<le> lo \<or> hi \<le> i \<Longrightarrow> load_bytes (clear_bytes m lo hi) i n = load_bytes m i n"
  by (rule load_bytes_cong) (auto simp: clear_bytes_def)

lemma load_bytes_zero: "(\<And>j. i \<le> j \<Longrightarrow> j < i + n \<Longrightarrow> m j = 0) \<Longrightarrow> load_bytes m i n = replicate n 0"
  by (auto simp: load_bytes_def intro: nth_equalityI)

lemma store_bytes_outside: "j < i \<or> i + length bs \<le> j \<Longrightarrow> store_bytes m i bs j = m j"
  by (auto simp: store_bytes_def)

lemma clear_bytes_outside: "j < lo \<or> hi \<le> j \<Longrightarrow> clear_bytes m lo hi j = m j"
  by (auto simp: clear_bytes_def)

section \<open>Counting in a list\<close>

definition count_if :: "('a \<Rightarrow> bool) \<Rightarrow> 'a list \<Rightarrow> nat" where
  "count_if P xs = length (filter P xs)"

lemma count_if_update:
  "i < length xs \<Longrightarrow> count_if P (xs[i := x]) + of_bool (P (xs ! i)) = count_if P xs + of_bool (P x)"
proof (induction xs arbitrary: i)
  case (Cons y ys)
  then show ?case by (cases i) (auto simp: count_if_def)
qed simp

lemma count_if_zero: "count_if P xs = 0 \<longleftrightarrow> (\<forall>x \<in> set xs. \<not> P x)"
  by (auto simp: count_if_def filter_empty_conv)

lemma count_if_pos: "x \<in> set xs \<Longrightarrow> P x \<Longrightarrow> 0 < count_if P xs"
  by (metis count_if_zero gr0I)

lemma count_if_mono: "(\<And>x. P x \<Longrightarrow> Q x) \<Longrightarrow> count_if P xs \<le> count_if Q xs"
  by (induction xs) (auto simp: count_if_def)

lemma count_if_length: "count_if P xs \<le> length xs"
  by (simp add: count_if_def)

lemma set_update_cases: "i < length xs \<Longrightarrow> y \<in> set (xs[i := x]) \<Longrightarrow> y = x \<or> y \<in> set xs"
  using set_update_subset_insert [of xs i x] by auto

lemma mem_update_same: "i < length xs \<Longrightarrow> x \<in> set (xs[i := x])"
  by (simp add: set_update_memI)

lemma mem_update_other: "y \<in> set xs \<Longrightarrow> i < length xs \<Longrightarrow> xs ! i \<noteq> y \<Longrightarrow> y \<in> set (xs[i := x])"
  by (metis in_set_conv_nth length_list_update nth_list_update_neq)

lemma at_mem: "i < length xs \<Longrightarrow> xs ! i = y \<Longrightarrow> y \<in> set xs"
  by auto

section \<open>The process that is no process\<close>

definition noProc :: u64 where "noProc = 0"

section \<open>Errors\<close>

text \<open>
  The error values of \<^verbatim>\<open>src/ipc.go\<close>, then those of the other files of the package
  (\<open>errNotReady\<close>, \<open>errProcGone\<close>, \<open>errNotWatchable\<close>, \<open>CallError\<close>), then the ones of the
  standard library that the code tests for: \<open>fs.ErrNotExist\<close>, \<open>ECONNREFUSED\<close>, \<open>EWOULDBLOCK\<close>,
  \<open>context.Canceled\<close>, \<open>context.DeadlineExceeded\<close>, \<open>os.ErrDeadlineExceeded\<close>, \<open>io.EOF\<close> and
  \<open>net.ErrClosed\<close>. \<open>RuntimePanic\<close> is a run-time panic (an index out of range), \<open>ErrOther\<close> any
  other error of the operating system, and \<open>Wrap\<close> an error that \<open>fmt.Errorf\<close> wraps with \<open>%w\<close>.
\<close>

datatype ipc_error =
    ErrClosed | ErrFull | ErrEmpty | ErrMessageTooLarge | ErrReservedType | ErrInvalidName
  | ErrInvalidCapacity | ErrTooSmall | ErrBadLayout | ErrCorrupt | ErrUnaligned
  | ErrNotPollable | ErrPeerGone | ErrInUse | ErrNotConsumer | ErrTooManyClaims
  | ErrNotReady | ErrProcGone | ErrNotWatchable | CallError string
  | ErrNotExist | ErrRefused | ErrWouldBlock | ErrCanceled | ErrCtxDeadline | ErrDeadlineExceeded
  | ErrEOF | ErrNetClosed
  | RuntimePanic | ErrOther string
  | Wrap string ipc_error

text \<open>\<open>errors.Is\<close> follows the wrapped errors.\<close>

fun errors_is :: "ipc_error \<Rightarrow> ipc_error \<Rightarrow> bool" where
  "errors_is (Wrap s e) t \<longleftrightarrow> Wrap s e = t \<or> errors_is e t"
| "errors_is e t \<longleftrightarrow> e = t"

lemma errors_is_refl [simp]: "errors_is e e"
  by (cases e) simp_all

text \<open>The first error of two, as in \<open>if cerr := f(); err == nil { err = cerr }\<close>.\<close>

definition first_err :: "ipc_error option \<Rightarrow> ipc_error option \<Rightarrow> ipc_error option" where
  "first_err e f = (case e of None \<Rightarrow> f | Some _ \<Rightarrow> e)"

lemma first_err_simps [simp]: "first_err None f = f" "first_err (Some e) f = Some e"
  by (simp_all add: first_err_def)

type_synonym 'a result = "ipc_error + 'a"

end
