(* ===== verification/Ring.thy ===== *)
theory Ring
  imports Ipc_Prelude
begin

text \<open>
  The ring of \<^verbatim>\<open>src/ring.go\<close>: a multi-producer single-consumer buffer of variable-length
  records. The control block is the record \<open>ringHeader\<close>, the data region a byte memory, and
  every operation of the file is one definition over them, run without interference from
  other processes. Lengths are 32-bit and cursors 64-bit, with the wrap-around the code has.
\<close>

section \<open>Constants and layout\<close>

definition cacheLine :: nat where "cacheLine = 128"
definition ringMagic :: u64 where "ringMagic = 0x676F2D6970632D31"
definition ringVersion :: u32 where "ringVersion = 2"
definition RecordHeaderSize :: nat where "RecordHeaderSize = 8"
definition ClaimSlots :: nat where "ClaimSlots = 256"
definition slotSize :: nat where "slotSize = 64"
definition controlSize :: nat where "controlSize = 4 * cacheLine"
definition HeaderSize :: nat where "HeaderSize = controlSize + ClaimSlots * slotSize"
definition MinCapacity :: nat where "MinCapacity = 4096"
definition recordAlignment :: nat where "recordAlignment = 8"
definition TypePadding :: u32 where "TypePadding = 0xFFFFFFFF"
definition noIntent :: u64 where "noIntent = 2 ^ 64 - 1"

record claimSlot =
  slot_owner :: u64
  slot_at :: u64
  slot_size :: u64

text \<open>
  The control block by its fields: where each one lies among the padding of the mapped struct
  is not part of the model. Only the data region is a memory of bytes.
\<close>

record ringHeader =
  magic :: u64
  version :: u32
  flags :: u32
  capacity :: u64
  consumer :: u64
  tail :: u64
  head :: u64
  headCache :: u64
  recvWaiters :: int
  sendWaiters :: int
  slots :: "claimSlot list"

text \<open>A handle: the header and the data region it shares with every peer, and its own mask.\<close>

record Ring =
  hdr :: ringHeader
  data :: mem
  rmask :: nat

text \<open>
  The buffer a ring is made in: its length, the address of its first byte, and what its
  first \<open>HeaderSize\<close> bytes hold when they are read as a \<open>ringHeader\<close>.
\<close>

record segment =
  seg_len :: nat
  seg_addr :: nat
  seg_hdr :: ringHeader
  seg_data :: mem

definition RingSize :: "nat \<Rightarrow> nat" where
  "RingSize cap = HeaderSize + cap"

text \<open>\<open>bits.Len64\<close>: the number of bits that represent a value.\<close>

fun Len64 :: "nat \<Rightarrow> nat" where
  "Len64 n = (if n = 0 then 0 else Suc (Len64 (n div 2)))"

declare Len64.simps [simp del]

definition newRing :: "ringHeader \<Rightarrow> mem \<Rightarrow> nat \<Rightarrow> Ring" where
  "newRing h m cap = \<lparr>hdr = h, data = m, rmask = cap - 1\<rparr>"

definition initRing :: "segment \<Rightarrow> u64 \<Rightarrow> Ring result" where
  "initRing buf c =
     (if seg_len buf < HeaderSize + MinCapacity then Inl ErrTooSmall
      else if seg_addr buf mod 8 \<noteq> 0 then Inl ErrUnaligned
      else
        let cap = 2 ^ (Len64 (seg_len buf - HeaderSize) - 1);
            m = clear_bytes (seg_data buf) 0 (seg_len buf - HeaderSize);
            h = \<lparr>magic = ringMagic, version = ringVersion, flags = 0, capacity = cap,
                 consumer = c, tail = 0, head = 0, headCache = 0, recvWaiters = 0,
                 sendWaiters = 0,
                 slots = replicate ClaimSlots
                   \<lparr>slot_owner = 0, slot_at = noIntent, slot_size = 0\<rparr>\<rparr>
        in Inr (newRing h m cap))"

definition InitRing :: "segment \<Rightarrow> Ring result" where
  "InitRing buf = initRing buf noProc"

definition AttachRing :: "segment \<Rightarrow> Ring result" where
  "AttachRing buf =
     (if seg_len buf < HeaderSize + MinCapacity then Inl ErrTooSmall
      else if seg_addr buf mod 8 \<noteq> 0 then Inl ErrUnaligned
      else
        let h = seg_hdr buf in
        if magic h \<noteq> ringMagic \<or> version h \<noteq> ringVersion then Inl ErrBadLayout
        else
          let cap = capacity h in
          if cap < MinCapacity \<or> cap AND (cap - 1) \<noteq> 0 \<or> seg_len buf < HeaderSize + cap
          then Inl ErrBadLayout
          else Inr (newRing h (seg_data buf) cap))"

section \<open>Sizes and cursors\<close>

definition Capacity :: "Ring \<Rightarrow> nat" where
  "Capacity r = rmask r + 1"

definition MaxMessageSize :: "Ring \<Rightarrow> int" where
  "MaxMessageSize r =
     (let limit = int (Capacity r) div 2 - int RecordHeaderSize in
      if limit > (2 ^ 31 - 1) - int RecordHeaderSize then (2 ^ 31 - 1) - int RecordHeaderSize
      else limit)"

definition Buffered :: "Ring \<Rightarrow> int" where
  "Buffered r = i64 (int (sub64 (tail (hdr r)) (head (hdr r))))"

definition Empty :: "Ring \<Rightarrow> bool" where
  "Empty r \<longleftrightarrow> head (hdr r) = tail (hdr r)"

text \<open>The sum and the mask are 32-bit, the result is sign-extended to 64 bits.\<close>

definition align :: "int \<Rightarrow> u64" where
  "align n = nat ((i32 (n + int recordAlignment - 1) AND NOT (int recordAlignment - 1)) mod 2 ^ 64)"

definition loadLength :: "Ring \<Rightarrow> nat \<Rightarrow> int" where
  "loadLength r idx = i32 (int (le_val (load_bytes (data r) idx 4)))"

lemma loadLength_range: "- (2 ^ 31) \<le> loadLength r i" "loadLength r i < 2 ^ 31"
  unfolding loadLength_def by (rule i32_range)+

definition storeLength :: "Ring \<Rightarrow> nat \<Rightarrow> int \<Rightarrow> Ring" where
  "storeLength r idx v = r\<lparr>data := store_bytes (data r) idx (le_bytes 4 (nat (v mod 2 ^ 32)))\<rparr>"

definition casLength :: "Ring \<Rightarrow> nat \<Rightarrow> int \<Rightarrow> int \<Rightarrow> Ring \<times> bool" where
  "casLength r idx old v =
     (if loadLength r idx = old then (storeLength r idx v, True) else (r, False))"

definition loadType :: "Ring \<Rightarrow> nat \<Rightarrow> u32" where
  "loadType r idx = word_of_nat (le_val (load_bytes (data r) (idx + 4) 4))"

definition storeType :: "Ring \<Rightarrow> nat \<Rightarrow> u32 \<Rightarrow> Ring" where
  "storeType r idx v = r\<lparr>data := store_bytes (data r) (idx + 4) (le_bytes 4 (unat v))\<rparr>"

section \<open>Claims\<close>

text \<open>\<open>Bytes\<close> is the slice from \<open>index + RecordHeaderSize\<close> to \<open>index + total\<close>.\<close>

record Claim =
  claim_index :: nat
  claim_total :: int
  claim_slot :: int

definition upd_slot :: "Ring \<Rightarrow> nat \<Rightarrow> (claimSlot \<Rightarrow> claimSlot) \<Rightarrow> Ring" where
  "upd_slot r i f = r\<lparr>hdr := (hdr r)\<lparr>slots := (slots (hdr r))[i := f (slots (hdr r) ! i)]\<rparr>\<rparr>"

definition release :: "Ring \<Rightarrow> int \<Rightarrow> Ring" where
  "release r slot = (if slot \<ge> 0 then upd_slot r (nat slot) (slot_at_update (\<lambda>_. noIntent)) else r)"

definition Commit :: "Ring \<Rightarrow> Claim \<Rightarrow> Ring" where
  "Commit r c = release (storeLength r (claim_index c) (claim_total c)) (claim_slot c)"

definition Abort :: "Ring \<Rightarrow> Claim \<Rightarrow> Ring" where
  "Abort r c =
     release (storeLength (storeType r (claim_index c) TypePadding) (claim_index c) (claim_total c))
       (claim_slot c)"

text \<open>\<open>copy(c.Bytes, payload)\<close>.\<close>

definition fill :: "Ring \<Rightarrow> Claim \<Rightarrow> bytes \<Rightarrow> Ring" where
  "fill r c bs = r\<lparr>data := store_bytes (data r) (claim_index c + RecordHeaderSize)
     (take (nat (claim_total c) - RecordHeaderSize) bs)\<rparr>"

definition hasRoom :: "u64 \<Rightarrow> u64 \<Rightarrow> u64 \<Rightarrow> u64 \<Rightarrow> bool" where
  "hasRoom t h cap need \<longleftrightarrow> \<not> (h > t \<or> t - h > cap) \<and> cap - (t - h) \<ge> need"

text \<open>The part of the data region up to its end, and what a claim at \<open>t\<close> has to take.\<close>

definition claim_toEnd :: "Ring \<Rightarrow> u64 \<Rightarrow> u64" where
  "claim_toEnd r t = Capacity r - (t AND rmask r)"

definition claim_need :: "Ring \<Rightarrow> u64 \<Rightarrow> u64 \<Rightarrow> u64" where
  "claim_need r t aligned =
     (if claim_toEnd r t < aligned then add64 aligned (claim_toEnd r t) else aligned)"

definition set_intent :: "Ring \<Rightarrow> int \<Rightarrow> u64 \<Rightarrow> u64 \<Rightarrow> Ring" where
  "set_intent r slot t need =
     (if slot \<ge> 0 then upd_slot r (nat slot) (\<lambda>s. s\<lparr>slot_size := need, slot_at := t\<rparr>) else r)"

definition set_tail :: "Ring \<Rightarrow> u64 \<Rightarrow> Ring" where
  "set_tail r t = r\<lparr>hdr := (hdr r)\<lparr>tail := t\<rparr>\<rparr>"

definition set_headCache :: "Ring \<Rightarrow> u64 \<Rightarrow> Ring" where
  "set_headCache r h = r\<lparr>hdr := (hdr r)\<lparr>headCache := h\<rparr>\<rparr>"

definition set_head :: "Ring \<Rightarrow> u64 \<Rightarrow> Ring" where
  "set_head r h = r\<lparr>hdr := (hdr r)\<lparr>head := h\<rparr>\<rparr>"

text \<open>
  One round of the claim loop. \<open>Again\<close> is \<open>continue\<close>, \<open>NoRoom\<close> the return of \<open>ErrFull\<close>, and
  \<open>Won\<close> carries the cursor that the round advanced. Without interference the
  compare-and-swap on \<open>tail\<close> always succeeds.
\<close>

datatype claim_round = Again | NoRoom Ring | Won Ring u64

definition tryClaim_round :: "Ring \<Rightarrow> int \<Rightarrow> u64 \<Rightarrow> claim_round" where
  "tryClaim_round r slot aligned =
     (let t = tail (hdr r); cap = Capacity r; need = claim_need r t aligned;
          take_it = (\<lambda>r. Won (set_tail (set_intent r slot t need) (add64 t need)) t)
      in if hasRoom t (headCache (hdr r)) cap need then take_it r
         else
           let h = head (hdr r) in
           if h > t then Again
           else if \<not> hasRoom t h cap need then NoRoom (release r slot)
           else take_it (set_headCache r h))"

partial_function (option) tryClaim_loop :: "Ring \<Rightarrow> int \<Rightarrow> u64 \<Rightarrow> claim_round option" where
  "tryClaim_loop r slot aligned =
     (case tryClaim_round r slot aligned of
        Again \<Rightarrow> tryClaim_loop r slot aligned
      | res \<Rightarrow> Some res)"

declare tryClaim_loop.simps [code]

text \<open>
  The padding record that a claim across the wrap point leaves, and the index of the
  record itself. A store or a slice past the end of the region panics.
\<close>

definition place_claim :: "Ring \<Rightarrow> u64 \<Rightarrow> u64 \<Rightarrow> (Ring \<times> nat) result" where
  "place_claim r t aligned =
     (let index = t AND rmask r; toEnd = claim_toEnd r t in
      if claim_need r t aligned \<noteq> aligned then
        if index + 4 \<ge> Capacity r then Inl RuntimePanic
        else Inr (storeLength (storeType r index TypePadding) index (i32 (int toEnd)), 0)
      else Inr (r, index))"

definition open_record :: "Ring \<Rightarrow> nat \<Rightarrow> int \<Rightarrow> u32 \<Rightarrow> int \<Rightarrow> Ring \<times> Claim result" where
  "open_record r index slot typ recordLen =
     (if index + 4 \<ge> Capacity r then (r, Inl RuntimePanic)
      else
        let r' = storeLength (storeType r index typ) index (- recordLen) in
        if index + nat recordLen > Capacity r then (r', Inl RuntimePanic)
        else (r', Inr \<lparr>claim_index = index, claim_total = recordLen, claim_slot = slot\<rparr>))"

definition tryClaim :: "Ring \<Rightarrow> int \<Rightarrow> u32 \<Rightarrow> int \<Rightarrow> (Ring \<times> Claim result) option" where
  "tryClaim r slot typ len =
     (if typ = TypePadding then Some (r, Inl ErrReservedType)
      else if len < 0 \<or> len > MaxMessageSize r then Some (r, Inl ErrMessageTooLarge)
      else
        let recordLen = i32 (int RecordHeaderSize + len); aligned = align recordLen in
        case tryClaim_loop r slot aligned of
          Some (Won r' t) \<Rightarrow>
            (case place_claim r' t aligned of
               Inl e \<Rightarrow> Some (r', Inl e)
             | Inr (r'', index) \<Rightarrow> Some (open_record r'' index slot typ recordLen))
        | Some (NoRoom r') \<Rightarrow> Some (r', Inl ErrFull)
        | _ \<Rightarrow> None)"

definition TryClaim :: "Ring \<Rightarrow> u32 \<Rightarrow> int \<Rightarrow> (Ring \<times> Claim result) option" where
  "TryClaim r typ len = tryClaim r (-1) typ len"

definition tryWrite :: "Ring \<Rightarrow> int \<Rightarrow> u32 \<Rightarrow> bytes \<Rightarrow> (Ring \<times> unit result) option" where
  "tryWrite r slot typ payload =
     (case tryClaim r slot typ (int (length payload)) of
        None \<Rightarrow> None
      | Some (r', Inl e) \<Rightarrow> Some (r', Inl e)
      | Some (r', Inr c) \<Rightarrow> Some (Commit (fill r' c payload) c, Inr ()))"

definition TryWrite :: "Ring \<Rightarrow> u32 \<Rightarrow> bytes \<Rightarrow> (Ring \<times> unit result) option" where
  "TryWrite r typ payload = tryWrite r (-1) typ payload"

section \<open>Reading\<close>

text \<open>
  The loop of \<open>Read\<close>. The accumulator holds what was passed to the callback, so its length
  is \<open>count\<close>. The result is the ring, \<open>consumed\<close>, the records passed on, and the error.
\<close>

definition clear_record :: "Ring \<Rightarrow> nat \<Rightarrow> nat \<Rightarrow> Ring" where
  "clear_record r index stop =
     storeLength (r\<lparr>data := clear_bytes (data r) (index + 4) stop\<rparr>) index 0"

lemma align_unfold: "align n = nat ((i32 (n + 7) - i32 (n + 7) mod 8) mod 2 ^ 64)"
proof -
  have "n + int recordAlignment - 1 = n + 7" "int recordAlignment - 1 = 7"
    by (simp_all add: recordAlignment_def)
  then show ?thesis unfolding align_def by (simp only: int_and_not_7)
qed

lemma align_eq:
  assumes "0 \<le> n" "n + 7 < 2 ^ 31"
  shows "align n = (nat n + 7) div 8 * 8"
proof -
  have "i32 (n + 7) = n + 7" by (rule i32_id) (use assms in auto)
  moreover have "(n + 7) - (n + 7) mod 8 = (n + 7) div 8 * 8"
    by (simp add: minus_mod_eq_div_mult)
  moreover have "(n + 7) div 8 * 8 < 2 ^ 64" "0 \<le> (n + 7) div 8 * 8" using assms by auto
  ultimately have "align n = nat ((n + 7) div 8 * 8)" unfolding align_unfold by simp
  then show ?thesis using assms by (simp add: nat_mult_distrib nat_div_distrib nat_add_distrib)
qed

text \<open>Within eight of the largest 32-bit length the sum overflows and the size is enormous.\<close>

lemma align_overflow:
  assumes "2 ^ 31 \<le> n + 7" "n < 2 ^ 31"
  shows "align n = 2 ^ 64 - 2 ^ 31"
proof -
  have "i32 (n + 7) = n + 7 - 2 ^ 32"
  proof -
    have "(n + 7 + 2 ^ 31) mod 2 ^ 32 = (n + 7 - 2 ^ 31 + 1 * 2 ^ 32) mod 2 ^ 32" by simp
    also have "\<dots> = n + 7 - 2 ^ 31" by (subst mod_mult_self1) (use assms in simp)
    finally show ?thesis by (simp add: i32_def)
  qed
  moreover have "(n + 7 - 2 ^ 32) mod 8 = n + 7 - 2 ^ 31"
  proof -
    have "(n + 7 - 2 ^ 32) = (n + 7 - 2 ^ 31) + (- (2 ^ 28)) * 8" by simp
    then have "(n + 7 - 2 ^ 32) mod 8 = (n + 7 - 2 ^ 31) mod 8" by (simp only: mod_mult_self1)
    with assms show ?thesis by simp
  qed
  ultimately show ?thesis by (simp add: align_unfold)
qed

lemma align_pos: "8 \<le> n \<Longrightarrow> n < 2 ^ 31 \<Longrightarrow> 0 < align n"
  by (cases "n + 7 < 2 ^ 31") (auto simp: align_eq align_overflow)

function read_loop ::
  "Ring \<Rightarrow> u64 \<Rightarrow> u64 \<Rightarrow> int \<Rightarrow> u64 \<Rightarrow> (u32 \<times> bytes) list \<Rightarrow>
   Ring \<times> u64 \<times> (u32 \<times> bytes) list \<times> ipc_error option" where
  "read_loop r h av limit consumed acc =
     (if int (length acc) < limit \<and> consumed < av then
        let index = add64 h consumed AND rmask r; len = loadLength r index in
        if len \<le> 0 then (r, consumed, acc, None)
        else
          let step = align len in
          if len < int RecordHeaderSize \<or> step > av - consumed \<or> add64 index step > Capacity r
          then (r, consumed, acc, Some ErrCorrupt)
          else
            let typ = loadType r index;
                stop = add64 index step;
                acc' = (if typ \<noteq> TypePadding
                        then acc @ [(typ, load_bytes (data r) (index + RecordHeaderSize)
                                            (nat len - RecordHeaderSize))]
                        else acc)
            in
            if typ \<noteq> TypePadding \<and> index + nat len > Capacity r
            then (r, consumed + step, acc, Some RuntimePanic)
            else if stop < index + 4 then (r, consumed + step, acc', Some RuntimePanic)
            else read_loop (clear_record r index stop) h av limit (consumed + step) acc'
      else (r, consumed, acc, None))"
  by pat_completeness auto
termination
proof (relation "measure (\<lambda>(r, h, av, limit, consumed, acc). av - consumed)", goal_cases)
  case (2 r h av limit consumed acc idx len)
  then have "8 \<le> len" by (simp add: RecordHeaderSize_def)
  moreover have "len < 2 ^ 31" unfolding "2"(3) by (rule loadLength_range)
  ultimately have "0 < align len" by (rule align_pos)
  with "2" show ?case by auto
qed simp

declare read_loop.simps [simp del]

definition Read :: "Ring \<Rightarrow> int \<Rightarrow> Ring \<times> (u32 \<times> bytes) list \<times> ipc_error option" where
  "Read r limit =
     (if limit \<le> 0 then (r, [], None)
      else
        let h = head (hdr r); av = sub64 (tail (hdr r)) h in
        case read_loop r h av limit 0 [] of
          (r', consumed, acc, Some e) \<Rightarrow> (r', acc, Some e)
        | (r', consumed, acc, None) \<Rightarrow>
            ((if consumed > 0 then set_head r' (add64 h consumed) else r'), acc, None))"

text \<open>
  \<open>TryRecv\<close> copies one record out. The destination only decides where the copy lives.
\<close>

definition TryRecv :: "Ring \<Rightarrow> Ring \<times> (u32 \<times> bytes) result" where
  "TryRecv r =
     (case Read r 1 of
        (r', out, Some e) \<Rightarrow> (r', Inl e)
      | (r', [], None) \<Rightarrow> (r', Inl ErrEmpty)
      | (r', m # _, None) \<Rightarrow> (r', Inr m))"

end
