(* ===== verification/Ring_Layout.thy ===== *)
theory Ring_Layout
  imports Ring
begin

text \<open>
  What the bytes between \<open>head\<close> and \<open>tail\<close> mean. The live part of a ring is a sequence of
  entries, one after another from \<open>head\<close>, none of which crosses the wrap point; the rest of
  the data region is zero. \<open>ring_inv r es\<close> says that the ring \<open>r\<close> holds the entries \<open>es\<close>.
\<close>

section \<open>Entries\<close>

text \<open>
  \<^item> \<open>Committed t p\<close>: a readable record, its length field positive;
  \<^item> \<open>Padding n\<close>: a readable record of the padding type that takes \<open>n\<close> bytes;
  \<^item> \<open>Claimed t l\<close>: a record whose header says it is being written (length field negative);
  \<^item> \<open>Reserved n\<close>: \<open>n\<close> bytes below \<open>tail\<close> whose length field is still zero.
\<close>

datatype entry = Committed u32 bytes | Padding nat | Claimed u32 nat | Reserved nat

definition pad8 :: "nat \<Rightarrow> nat" where
  "pad8 n = (n + 7) div 8 * 8"

fun esize :: "entry \<Rightarrow> nat" where
  "esize (Committed t p) = pad8 (8 + length p)"
| "esize (Padding n) = n"
| "esize (Claimed t l) = pad8 (8 + l)"
| "esize (Reserved n) = n"

fun message :: "entry \<Rightarrow> (u32 \<times> bytes) list" where
  "message (Committed t p) = [(t, p)]"
| "message _ = []"

definition messages :: "entry list \<Rightarrow> (u32 \<times> bytes) list" where
  "messages es = concat (map message es)"

definition span :: "entry list \<Rightarrow> nat" where
  "span es = sum_list (map esize es)"

lemma span_simps [simp]:
  "span [] = 0" "span (e # es) = esize e + span es" "span (xs @ ys) = span xs + span ys"
  by (simp_all add: span_def)

lemma messages_simps [simp]:
  "messages [] = []" "messages (e # es) = message e @ messages es"
  "messages (xs @ ys) = messages xs @ messages ys"
  by (simp_all add: messages_def)

lemma pad8_props: "8 dvd pad8 n" "n \<le> pad8 n" "pad8 n < n + 8"
  unfolding pad8_def by (simp, presburger, presburger)

lemma align_pad8: "0 \<le> n \<Longrightarrow> n + 7 < 2 ^ 31 \<Longrightarrow> align n = pad8 (nat n)"
  by (simp add: align_eq pad8_def)

definition len_at :: "mem \<Rightarrow> nat \<Rightarrow> int" where
  "len_at m i = i32 (int (le_val (load_bytes m i 4)))"

definition type_at :: "mem \<Rightarrow> nat \<Rightarrow> u32" where
  "type_at m i = word_of_nat (le_val (load_bytes m (i + 4) 4))"

lemma loadLength_len_at: "loadLength r i = len_at (data r) i"
  by (simp add: loadLength_def len_at_def)

lemma loadType_type_at: "loadType r i = type_at (data r) i"
  by (simp add: loadType_def type_at_def)

text \<open>The entry \<open>e\<close> lies at the data index \<open>i\<close> of a region of \<open>cap\<close> bytes.\<close>

fun entry_at :: "mem \<Rightarrow> nat \<Rightarrow> nat \<Rightarrow> entry \<Rightarrow> bool" where
  "entry_at m cap i (Committed t p) \<longleftrightarrow>
     i + pad8 (8 + length p) \<le> cap \<and> t \<noteq> TypePadding \<and> 8 + length p + 7 < 2 ^ 31 \<and>
     len_at m i = int (8 + length p) \<and> type_at m i = t \<and>
     load_bytes m (i + 8) (length p) = p"
| "entry_at m cap i (Padding n) \<longleftrightarrow>
     i + n \<le> cap \<and> 8 \<le> len_at m i \<and> len_at m i + 7 < 2 ^ 31 \<and>
     pad8 (nat (len_at m i)) = n \<and> type_at m i = TypePadding"
| "entry_at m cap i (Claimed t l) \<longleftrightarrow>
     i + pad8 (8 + l) \<le> cap \<and> t \<noteq> TypePadding \<and> 8 + l + 7 < 2 ^ 31 \<and>
     len_at m i = - int (8 + l) \<and> type_at m i = t"
| "entry_at m cap i (Reserved n) \<longleftrightarrow>
     i + n \<le> cap \<and> 8 dvd n \<and> 0 < n \<and> len_at m i = 0"

fun layout :: "mem \<Rightarrow> nat \<Rightarrow> nat \<Rightarrow> entry list \<Rightarrow> bool" where
  "layout m cap c [] \<longleftrightarrow> True"
| "layout m cap c (e # es) \<longleftrightarrow> entry_at m cap (c mod cap) e \<and> layout m cap (c + esize e) es"

lemma layout_append [simp]:
  "layout m cap c (xs @ ys) \<longleftrightarrow> layout m cap c xs \<and> layout m cap (c + span xs) ys"
  by (induction xs arbitrary: c) (auto simp: add.assoc)

lemma pad8_ge: "8 \<le> n \<Longrightarrow> 8 \<le> pad8 n"
  using pad8_props(2) [of n] by linarith

lemma esize_bounds: "entry_at m cap i e \<Longrightarrow> 8 \<le> esize e \<and> 8 dvd esize e \<and> i + esize e \<le> cap"
  by (cases e) (auto simp: pad8_props(1) pad8_ge dvd_imp_le)

section \<open>Frames\<close>

text \<open>\<open>m'\<close> differs from \<open>m\<close> at most in the \<open>n\<close> bytes from \<open>i\<close>.\<close>

definition only :: "mem \<Rightarrow> mem \<Rightarrow> nat \<Rightarrow> nat \<Rightarrow> bool" where
  "only m m' i n \<longleftrightarrow> (\<forall>j. j < i \<or> i + n \<le> j \<longrightarrow> m' j = m j)"

lemma only_refl [simp]: "only m m i n"
  by (simp add: only_def)

lemma only_trans: "only m m' i n \<Longrightarrow> only m' m'' i n \<Longrightarrow> only m m'' i n"
  by (simp add: only_def)

lemma only_store: "i \<le> k \<Longrightarrow> k + length bs \<le> i + n \<Longrightarrow> only m (store_bytes m k bs) i n"
  by (auto simp: only_def store_bytes_def)

lemma only_clear: "i \<le> lo \<Longrightarrow> hi \<le> i + n \<Longrightarrow> only m (clear_bytes m lo hi) i n"
  by (auto simp: only_def clear_bytes_def)

lemma load_only: "only m m' i n \<Longrightarrow> j + k \<le> i \<or> i + n \<le> j \<Longrightarrow> load_bytes m' j k = load_bytes m j k"
  by (rule load_bytes_cong) (auto simp: only_def)

text \<open>Agreement of two memories on the cursors from \<open>lo\<close> to \<open>hi\<close>.\<close>

definition agree :: "mem \<Rightarrow> mem \<Rightarrow> nat \<Rightarrow> nat \<Rightarrow> nat \<Rightarrow> bool" where
  "agree m m' cap lo hi \<longleftrightarrow> (\<forall>x. lo \<le> x \<and> x < hi \<longrightarrow> m' (x mod cap) = m (x mod cap))"

definition zeroed :: "mem \<Rightarrow> nat \<Rightarrow> nat \<Rightarrow> nat \<Rightarrow> bool" where
  "zeroed m cap lo hi \<longleftrightarrow> (\<forall>x. lo \<le> x \<and> x < hi \<longrightarrow> m (x mod cap) = 0)"

lemma mod_window:
  assumes "h \<le> x" "x < h + cap" "h \<le> y" "y < h + cap" "x mod cap = y mod cap"
  shows "x = (y::nat)"
proof (rule ccontr)
  assume "x \<noteq> y"
  then consider "x < y" | "y < x" by linarith
  then show False
  proof cases
    case 1
    then have "cap dvd y - x" using assms(5) by (simp add: mod_eq_dvd_iff_nat [symmetric])
    then show False using 1 assms by (simp add: nat_dvd_not_less)
  next
    case 2
    then have "cap dvd x - y" using assms(5) by (simp add: mod_eq_dvd_iff_nat [symmetric])
    then show False using 2 assms by (simp add: nat_dvd_not_less)
  qed
qed

lemma mod_shift: "c mod cap + k < cap \<Longrightarrow> (c + k) mod cap = c mod cap + (k::nat)"
  using mod_add_left_eq [of c cap k] by simp

text \<open>A store inside the entry at cursor \<open>c\<close> is not seen at any other cursor of the window.\<close>

lemma only_agree:
  assumes "only m m' (c mod cap) n" "c mod cap + n \<le> cap"
    and "h \<le> c" "c + n \<le> h + cap" "h \<le> lo" "hi \<le> h + cap" "hi \<le> c \<or> c + n \<le> lo"
  shows "agree m m' cap lo hi"
  unfolding agree_def
proof (intro allI impI)
  fix x assume x: "lo \<le> x \<and> x < hi"
  have "\<not> (c mod cap \<le> x mod cap \<and> x mod cap < c mod cap + n)"
  proof
    assume a: "c mod cap \<le> x mod cap \<and> x mod cap < c mod cap + n"
    define k where "k = x mod cap - c mod cap"
    have "(c + k) mod cap = x mod cap" using a assms(2) by (subst mod_shift) (auto simp: k_def)
    moreover have "k < n" using a by (auto simp: k_def)
    moreover have "h \<le> x" "x < h + cap" "h \<le> c + k" using x assms by linarith+
    moreover have "c + k < h + cap" using \<open>k < n\<close> assms by linarith
    ultimately have "x = c + k" using mod_window [of h x cap "c + k"] by simp
    with \<open>k < n\<close> x assms(7) show False by auto
  qed
  with assms(1) show "m' (x mod cap) = m (x mod cap)" by (auto simp: only_def not_le not_less)
qed

lemma agree_load:
  assumes "agree m m' cap c (c + n)" "c mod cap + n \<le> cap" "k + l \<le> n"
  shows "load_bytes m' (c mod cap + k) l = load_bytes m (c mod cap + k) l"
proof (rule load_bytes_cong)
  fix j assume j: "c mod cap + k \<le> j" "j < c mod cap + k + l"
  define d where "d = j - c mod cap"
  have "j = (c + d) mod cap" using j assms by (subst mod_shift) (auto simp: d_def)
  moreover have "c \<le> c + d \<and> c + d < c + n" using assms(3) j by (auto simp: d_def)
  ultimately show "m' j = m j" using assms(1) unfolding agree_def by metis
qed

lemma agree_entry_at:
  assumes "agree m m' cap c (c + esize e)" "entry_at m cap (c mod cap) e"
  shows "entry_at m' cap (c mod cap) e"
proof -
  let ?i = "c mod cap"
  have b: "8 \<le> esize e" "?i + esize e \<le> cap" using esize_bounds [OF assms(2)] by auto
  note ld = agree_load [OF assms(1) b(2)]
  have "len_at m' ?i = len_at m ?i" using ld [of 0 4] b by (simp add: len_at_def)
  moreover have "type_at m' ?i = type_at m ?i" using ld [of 4 4] b by (simp add: type_at_def)
  moreover have "load_bytes m' (?i + 8) (length p) = load_bytes m (?i + 8) (length p)"
    if "e = Committed t p" for t p
    using ld [of 8 "length p"] pad8_props(2) [of "8 + length p"] that by simp
  ultimately show ?thesis using assms(2) by (cases e) auto
qed

lemma agree_layout:
  "agree m m' cap c (c + span es) \<Longrightarrow> layout m cap c es \<Longrightarrow> layout m' cap c es"
proof (induction es arbitrary: c)
  case (Cons e es)
  then have "agree m m' cap c (c + esize e)" "agree m m' cap (c + esize e) (c + esize e + span es)"
    by (auto simp: agree_def)
  with Cons show ?case by (auto intro: agree_entry_at)
qed simp

lemma zeroed_join: "zeroed m cap a b \<Longrightarrow> zeroed m cap b c \<Longrightarrow> zeroed m cap a c"
  unfolding zeroed_def by (meson not_le)

lemma zeroed_shift: "zeroed m cap (a + cap) (b + cap) \<longleftrightarrow> zeroed m cap a b"
proof
  assume l: "zeroed m cap (a + cap) (b + cap)"
  show "zeroed m cap a b" unfolding zeroed_def
  proof (intro allI impI)
    fix x assume "a \<le> x \<and> x < b"
    then have "m ((x + cap) mod cap) = 0" using l unfolding zeroed_def by (metis add_le_cancel_right add_less_cancel_right)
    then show "m (x mod cap) = 0" by simp
  qed
next
  assume r: "zeroed m cap a b"
  show "zeroed m cap (a + cap) (b + cap)" unfolding zeroed_def
  proof (intro allI impI)
    fix x assume x: "a + cap \<le> x \<and> x < b + cap"
    then obtain y where y: "x = y + cap" by (metis add.commute le_add2 le_trans le_Suc_ex)
    with x have "m (y mod cap) = 0" using r by (simp add: zeroed_def)
    then show "m (x mod cap) = 0" by (simp add: y)
  qed
qed

lemma agree_sub: "agree m m' cap lo hi \<Longrightarrow> lo \<le> lo' \<Longrightarrow> hi' \<le> hi \<Longrightarrow> agree m m' cap lo' hi'"
  by (simp add: agree_def)

lemma agree_trans: "agree m m' cap lo hi \<Longrightarrow> agree m' m'' cap lo hi \<Longrightarrow> agree m m'' cap lo hi"
  by (simp add: agree_def)

lemma agree_zeroed: "agree m m' cap lo hi \<Longrightarrow> zeroed m cap lo hi \<Longrightarrow> zeroed m' cap lo hi"
  by (simp add: agree_def zeroed_def)

lemma span_dvd: "layout m cap c es \<Longrightarrow> 8 dvd span es"
  by (induction es arbitrary: c) (auto dest: esize_bounds)

end
