(* ===== verification/Ring_Spec.thy ===== *)
theory Ring_Spec
  imports Ring_Layout
begin

text \<open>
  The invariant of a ring and what each operation of \<^verbatim>\<open>src/ring.go\<close> does to the entries
  it holds: the claim appends, commit and abort replace one entry, a read removes a prefix.
\<close>

section \<open>Fields\<close>

lemma ring_fields [simp]:
  "hdr (storeLength r i v) = hdr r" "rmask (storeLength r i v) = rmask r"
  "hdr (storeType r i ty) = hdr r" "rmask (storeType r i ty) = rmask r"
  "hdr (fill r c bs) = hdr r" "rmask (fill r c bs) = rmask r"
  "hdr (clear_record r i s) = hdr r" "rmask (clear_record r i s) = rmask r"
  "data (upd_slot r j f) = data r" "rmask (upd_slot r j f) = rmask r"
  "data (release r sl) = data r" "rmask (release r sl) = rmask r"
  "data (set_intent r sl t n) = data r" "rmask (set_intent r sl t n) = rmask r"
  "data (set_tail r t) = data r" "rmask (set_tail r t) = rmask r"
  "data (set_head r t) = data r" "rmask (set_head r t) = rmask r"
  "data (set_headCache r t) = data r" "rmask (set_headCache r t) = rmask r"
  by (simp_all add: storeLength_def storeType_def fill_def clear_record_def upd_slot_def
      release_def set_intent_def set_tail_def set_head_def set_headCache_def)

lemma header_fields [simp]:
  "tail (hdr (upd_slot r j f)) = tail (hdr r)" "head (hdr (upd_slot r j f)) = head (hdr r)"
  "headCache (hdr (upd_slot r j f)) = headCache (hdr r)"
  "length (slots (hdr (upd_slot r j f))) = length (slots (hdr r))"
  "tail (hdr (release r sl)) = tail (hdr r)" "head (hdr (release r sl)) = head (hdr r)"
  "headCache (hdr (release r sl)) = headCache (hdr r)"
  "length (slots (hdr (release r sl))) = length (slots (hdr r))"
  "tail (hdr (set_intent r sl t n)) = tail (hdr r)" "head (hdr (set_intent r sl t n)) = head (hdr r)"
  "headCache (hdr (set_intent r sl t n)) = headCache (hdr r)"
  "length (slots (hdr (set_intent r sl t n))) = length (slots (hdr r))"
  "tail (hdr (set_tail r t)) = t" "head (hdr (set_tail r t)) = head (hdr r)"
  "headCache (hdr (set_tail r t)) = headCache (hdr r)" "slots (hdr (set_tail r t)) = slots (hdr r)"
  "tail (hdr (set_head r t)) = tail (hdr r)" "head (hdr (set_head r t)) = t"
  "headCache (hdr (set_head r t)) = headCache (hdr r)" "slots (hdr (set_head r t)) = slots (hdr r)"
  "tail (hdr (set_headCache r t)) = tail (hdr r)" "head (hdr (set_headCache r t)) = head (hdr r)"
  "headCache (hdr (set_headCache r t)) = t" "slots (hdr (set_headCache r t)) = slots (hdr r)"
  by (simp_all add: upd_slot_def release_def set_intent_def set_tail_def set_head_def
      set_headCache_def)

lemma Capacity_cong: "rmask r' = rmask r \<Longrightarrow> Capacity r' = Capacity r"
  by (simp add: Capacity_def)

section \<open>Header fields in memory\<close>

definition put_len :: "mem \<Rightarrow> nat \<Rightarrow> int \<Rightarrow> mem" where
  "put_len m i v = store_bytes m i (le_bytes 4 (nat (v mod 2 ^ 32)))"

definition put_type :: "mem \<Rightarrow> nat \<Rightarrow> u32 \<Rightarrow> mem" where
  "put_type m i t = store_bytes m (i + 4) (le_bytes 4 (unat t))"

lemma data_store [simp]:
  "data (storeLength r i v) = put_len (data r) i v"
  "data (storeType r i t) = put_type (data r) i t"
  by (simp_all add: storeLength_def storeType_def put_len_def put_type_def)

lemma len_at_put_len [simp]: "len_at (put_len m i v) i = i32 v"
proof -
  have "le_val (le_bytes 4 (nat (v mod 2 ^ 32))) = nat (v mod 2 ^ 32) mod 2 ^ 32"
    by (simp add: le_val_le_bytes)
  moreover have "nat (v mod 2 ^ 32) mod 2 ^ 32 = nat (v mod 2 ^ 32)"
    by (simp add: nat_mod_distrib)
  ultimately have "int (le_val (le_bytes 4 (nat (v mod 2 ^ 32)))) = v mod 2 ^ 32" by simp
  then show ?thesis by (simp add: len_at_def put_len_def i32_mod [simplified])
qed

lemma type_at_put_type [simp]: "type_at (put_type m i t) i = t"
proof -
  have "unat t < 2 ^ 32" using unsigned_less [of t, where ?'a = nat] by simp
  then have "le_val (le_bytes 4 (unat t)) = unat t" by (simp add: le_val_le_bytes)
  then show ?thesis by (simp add: type_at_def put_type_def)
qed

lemma type_at_put_len [simp]: "type_at (put_len m i v) i = type_at m i"
  by (simp add: type_at_def put_len_def load_store_disjoint)

lemma len_at_put_type [simp]: "len_at (put_type m i t) i = len_at m i"
  by (simp add: len_at_def put_type_def load_store_disjoint)

lemma payload_put [simp]:
  "load_bytes (put_len m i v) (i + 8) n = load_bytes m (i + 8) n"
  "load_bytes (put_type m i t) (i + 8) n = load_bytes m (i + 8) n"
  by (simp_all add: put_len_def put_type_def load_store_disjoint)

lemma only_put: "8 \<le> n \<Longrightarrow> only m (put_len m i v) i n" "8 \<le> n \<Longrightarrow> only m (put_type m i t) i n"
  by (simp_all add: put_len_def put_type_def only_store)

lemma only_put2: "8 \<le> n \<Longrightarrow> only m (put_len (put_type m i t) i v) i n"
  by (blast intro: only_trans only_put)

lemma len_at_zero: "(\<And>j. i \<le> j \<Longrightarrow> j < i + 4 \<Longrightarrow> m j = 0) \<Longrightarrow> len_at m i = 0"
  by (simp add: len_at_def load_bytes_zero i32_def)

section \<open>The invariant\<close>

definition ring_ok :: "Ring \<Rightarrow> bool" where
  "ring_ok r \<longleftrightarrow>
     (\<exists>k\<in>{4..31}. Capacity r = 2 ^ k) \<and> length (slots (hdr r)) = ClaimSlots"

definition ring_inv :: "Ring \<Rightarrow> entry list \<Rightarrow> bool" where
  "ring_inv r es \<longleftrightarrow>
     ring_ok r \<and> 8 dvd head (hdr r) \<and> headCache (hdr r) \<le> head (hdr r) \<and>
     tail (hdr r) = head (hdr r) + span es \<and> tail (hdr r) < 2 ^ 64 \<and>
     span es \<le> Capacity r \<and>
     layout (data r) (Capacity r) (head (hdr r)) es \<and>
     zeroed (data r) (Capacity r) (tail (hdr r)) (head (hdr r) + Capacity r)"

lemma ring_invD:
  assumes "ring_inv r es"
  shows "ring_ok r" "tail (hdr r) = head (hdr r) + span es"
    "layout (data r) (Capacity r) (head (hdr r)) es"
    "zeroed (data r) (Capacity r) (head (hdr r) + span es) (head (hdr r) + Capacity r)"
    "span es \<le> Capacity r" "head (hdr r) + span es < 2 ^ 64"
    "8 dvd head (hdr r)" "headCache (hdr r) \<le> head (hdr r)"
  using assms by (auto simp: ring_inv_def)

lemma ring_invI:
  assumes "ring_ok r" "8 dvd head (hdr r)" "headCache (hdr r) \<le> head (hdr r)"
    and "tail (hdr r) = head (hdr r) + span es" "head (hdr r) + span es < 2 ^ 64"
    and "span es \<le> Capacity r" "layout (data r) (Capacity r) (head (hdr r)) es"
    and "zeroed (data r) (Capacity r) (head (hdr r) + span es) (head (hdr r) + Capacity r)"
  shows "ring_inv r es"
  using assms by (simp add: ring_inv_def)

lemma ring_ok_cong:
  "rmask r' = rmask r \<Longrightarrow> length (slots (hdr r')) = length (slots (hdr r)) \<Longrightarrow> ring_ok r' = ring_ok r"
  by (simp add: ring_ok_def Capacity_def)

lemma ring_ok_capacity:
  assumes "ring_ok r"
  shows "16 \<le> Capacity r" "Capacity r \<le> 2 ^ 31" "8 dvd Capacity r" "8 dvd Capacity r div 2"
    "even (Capacity r)" "c AND rmask r = c mod Capacity r"
proof -
  obtain k where k: "4 \<le> k" "k \<le> 31" "Capacity r = 2 ^ k" using assms by (auto simp: ring_ok_def)
  obtain j where j: "k = j + 4" using k(1) by (metis le_Suc_ex add.commute)
  show "16 \<le> Capacity r" "8 dvd Capacity r" "8 dvd Capacity r div 2" "even (Capacity r)"
    by (simp_all add: k(3) j power_add)
  show "Capacity r \<le> 2 ^ 31" unfolding k(3) by (rule power_increasing) (use k in auto)
  have "rmask r = 2 ^ k - 1" using k(3) by (simp add: Capacity_def)
  then show "c AND rmask r = c mod Capacity r" by (simp only: nat_and_mask k(3))
qed

lemma MaxMessageSize_eq:
  assumes "ring_ok r"
  shows "MaxMessageSize r = int (Capacity r div 2) - 8"
proof -
  have "int (Capacity r) div 2 = int (Capacity r div 2)" by (simp add: zdiv_int)
  moreover have "Capacity r div 2 \<le> 2 ^ 30" using ring_ok_capacity(2) [OF assms] by simp
  ultimately show ?thesis by (simp add: MaxMessageSize_def RecordHeaderSize_def)
qed

lemma record_fits:
  assumes "ring_ok r" "int l \<le> MaxMessageSize r"
  shows "pad8 (8 + l) \<le> Capacity r div 2" "8 + l + 7 < 2 ^ 31" "align (int (8 + l)) = pad8 (8 + l)"
    "i32 (int RecordHeaderSize + int l) = int (8 + l)"
proof -
  have l: "8 + l \<le> Capacity r div 2" using assms by (simp add: MaxMessageSize_eq)
  obtain q where q: "Capacity r div 2 = 8 * q" using ring_ok_capacity(4) [OF assms(1)] by auto
  have "(8 + l + 7) div 8 \<le> q" using l q by simp
  then show "pad8 (8 + l) \<le> Capacity r div 2" by (simp add: pad8_def q)
  have "Capacity r div 2 \<le> 2 ^ 30" using ring_ok_capacity(2) [OF assms(1)] by simp
  with l show *: "8 + l + 7 < 2 ^ 31" by simp
  have "align (int (8 + l)) = pad8 (nat (int (8 + l)))" by (rule align_pad8) (use * in simp_all)
  then show "align (int (8 + l)) = pad8 (8 + l)" by (simp only: nat_int)
  show "i32 (int RecordHeaderSize + int l) = int (8 + l)"
    using * by (simp add: RecordHeaderSize_def i32_id)
qed

section \<open>Appending and replacing an entry\<close>

lemma append_entry:
  assumes "layout m cap h es" "zeroed m cap (h + span es) (h + cap)"
    and "span es + esize e \<le> cap"
    and "only m m' ((h + span es) mod cap) (esize e)" "entry_at m' cap ((h + span es) mod cap) e"
  shows "layout m' cap h (es @ [e])" "zeroed m' cap (h + span (es @ [e])) (h + cap)"
proof -
  let ?c = "h + span es"
  have fit: "?c mod cap + esize e \<le> cap" using esize_bounds [OF assms(5)] by simp
  have "agree m m' cap h ?c"
    by (rule only_agree [OF assms(4) fit, of h]) (use assms(3) in auto)
  then show "layout m' cap h (es @ [e])" using assms(1,5) by (auto intro: agree_layout)
  have "agree m m' cap (?c + esize e) (h + cap)"
    by (rule only_agree [OF assms(4) fit, of h]) (use assms(3) in auto)
  moreover have "zeroed m cap (?c + esize e) (h + cap)" using assms(2) by (auto simp: zeroed_def)
  ultimately show "zeroed m' cap (h + span (es @ [e])) (h + cap)"
    by (auto intro: agree_zeroed simp: add.assoc)
qed

lemma replace_entry:
  assumes "layout m cap h (xs @ e # ys)" "zeroed m cap (h + span (xs @ e # ys)) (h + cap)"
    and "span (xs @ e # ys) \<le> cap" "esize e' = esize e"
    and "only m m' ((h + span xs) mod cap) (esize e)" "entry_at m' cap ((h + span xs) mod cap) e'"
  shows "layout m' cap h (xs @ e' # ys)" "zeroed m' cap (h + span (xs @ e' # ys)) (h + cap)"
proof -
  let ?c = "h + span xs"
  have fit: "?c mod cap + esize e \<le> cap" using esize_bounds [OF assms(6)] assms(4) by simp
  note ag = only_agree [OF assms(5) fit, of h]
  have "agree m m' cap h ?c" by (rule ag) (use assms(3) in auto)
  moreover have "agree m m' cap (?c + esize e) (?c + esize e + span ys)"
    by (rule ag) (use assms(3) in auto)
  ultimately show "layout m' cap h (xs @ e' # ys)"
    using assms(1,4,6) by (auto intro: agree_layout)
  have "agree m m' cap (h + span (xs @ e # ys)) (h + cap)" by (rule ag) (use assms(3) in auto)
  with assms(2,4) show "zeroed m' cap (h + span (xs @ e' # ys)) (h + cap)"
    by (auto intro: agree_zeroed simp: add.assoc)
qed

section \<open>Claims\<close>

lemma ring_inv_release [simp]: "ring_inv (release r sl) es = ring_inv r es"
  by (simp add: ring_inv_def ring_ok_def Capacity_def)

lemma tryClaim_loop_Some:
  "tryClaim_round r sl a \<noteq> Again \<Longrightarrow> tryClaim_loop r sl a = Some (tryClaim_round r sl a)"
  by (subst tryClaim_loop.simps) (auto split: claim_round.splits)

lemma hasRoom_iff: "hasRoom t h cap need \<longleftrightarrow> h \<le> t \<and> t - h \<le> cap \<and> need \<le> cap - (t - h)"
  by (auto simp: hasRoom_def)

text \<open>What a claim of \<open>l\<close> payload bytes puts behind the tail.\<close>

definition claim_pad :: "Ring \<Rightarrow> nat \<Rightarrow> entry list" where
  "claim_pad r l =
     (let toEnd = Capacity r - tail (hdr r) mod Capacity r in
      if toEnd < pad8 (8 + l) then [Padding toEnd] else [])"

definition claim_entries :: "Ring \<Rightarrow> u32 \<Rightarrow> nat \<Rightarrow> entry list" where
  "claim_entries r typ l = claim_pad r l @ [Claimed typ l]"

lemma claim_toEnd_eq: "ring_ok r \<Longrightarrow> claim_toEnd r t = Capacity r - t mod Capacity r"
  by (simp add: claim_toEnd_def ring_ok_capacity)

lemma ring_inv_tail_dvd: "ring_inv r es \<Longrightarrow> 8 dvd tail (hdr r)"
  by (auto simp: ring_inv_def dest: span_dvd)

lemma toEnd_bounds:
  assumes "ring_inv r es"
  shows "8 dvd Capacity r - tail (hdr r) mod Capacity r"
    "8 \<le> Capacity r - tail (hdr r) mod Capacity r"
    "Capacity r - tail (hdr r) mod Capacity r \<le> Capacity r"
proof -
  have ok: "ring_ok r" using assms by (simp add: ring_inv_def)
  have "8 dvd tail (hdr r) mod Capacity r"
    using ring_inv_tail_dvd [OF assms] ring_ok_capacity(3) [OF ok] by (simp add: dvd_mod)
  then show *: "8 dvd Capacity r - tail (hdr r) mod Capacity r"
    using ring_ok_capacity(3) [OF ok] by (rule dvd_diff_nat [rotated])
  have "tail (hdr r) mod Capacity r < Capacity r" using ring_ok_capacity(1) [OF ok] by simp
  with * show "8 \<le> Capacity r - tail (hdr r) mod Capacity r" by (auto dest: dvd_imp_le)
qed simp

lemma claim_need_eq:
  assumes "ring_inv r es" "int l \<le> MaxMessageSize r"
  shows "claim_need r (tail (hdr r)) (pad8 (8 + l)) = span (claim_entries r typ l)"
proof -
  have ok: "ring_ok r" using assms by (simp add: ring_inv_def)
  have "pad8 (8 + l) + (Capacity r - tail (hdr r) mod Capacity r) < 2 ^ 64"
    using record_fits(1) [OF ok assms(2)] ring_ok_capacity(2) [OF ok] by simp
  then show ?thesis
    by (simp add: claim_need_def claim_toEnd_eq [OF ok] claim_entries_def claim_pad_def Let_def)
qed

lemma tryClaim_round_full:
  assumes "ring_inv r es" "int l \<le> MaxMessageSize r"
    and "Capacity r < span es + span (claim_entries r typ l)"
  shows "tryClaim_round r sl (pad8 (8 + l)) = NoRoom (release r sl)"
proof -
  have "\<not> hasRoom (tail (hdr r)) h (Capacity r) (span (claim_entries r typ l))"
    if "h \<le> head (hdr r)" for h
    using assms that by (auto simp: hasRoom_iff ring_inv_def)
  moreover have "headCache (hdr r) \<le> head (hdr r)" "head (hdr r) \<le> tail (hdr r)"
    using assms(1) by (auto simp: ring_inv_def)
  ultimately show ?thesis
    by (simp add: tryClaim_round_def claim_need_eq [OF assms(1,2), of "typ"] Let_def)
qed

lemma tryClaim_round_won:
  assumes "ring_inv r es" "int l \<le> MaxMessageSize r"
    and "span es + span (claim_entries r typ l) \<le> Capacity r"
    and "tail (hdr r) + span (claim_entries r typ l) < 2 ^ 64"
  obtains hc where "hc \<le> head (hdr r)"
    "tryClaim_round r sl (pad8 (8 + l)) =
       Won (set_tail (set_intent (set_headCache r hc) sl (tail (hdr r)) (span (claim_entries r typ l)))
             (tail (hdr r) + span (claim_entries r typ l))) (tail (hdr r))"
proof -
  let ?n = "span (claim_entries r typ l)"
  have *: "headCache (hdr r) \<le> head (hdr r)" "head (hdr r) \<le> tail (hdr r)"
    "tail (hdr r) - head (hdr r) = span es" "span es \<le> Capacity r"
    using assms(1) by (auto simp: ring_inv_def)
  have room: "hasRoom (tail (hdr r)) (head (hdr r)) (Capacity r) ?n"
    using * assms(3) by (auto simp: hasRoom_iff)
  have same: "set_headCache r (headCache (hdr r)) = r" by (simp add: set_headCache_def)
  show thesis
  proof (cases "hasRoom (tail (hdr r)) (headCache (hdr r)) (Capacity r) ?n")
    case True
    then show thesis using that [of "headCache (hdr r)"] * assms(4)
      by (simp add: tryClaim_round_def claim_need_eq [OF assms(1,2), of "typ"] Let_def same)
  next
    case False
    then show thesis using that [of "head (hdr r)"] * assms(4) room
      by (simp add: tryClaim_round_def claim_need_eq [OF assms(1,2), of "typ"] Let_def)
  qed
qed

lemma tryClaim_full:
  assumes "ring_inv r es" "typ \<noteq> TypePadding" "int l \<le> MaxMessageSize r"
    and "Capacity r < span es + span (claim_entries r typ l)"
  shows "tryClaim r sl typ (int l) = Some (release r sl, Inl ErrFull)"
proof -
  have ok: "ring_ok r" using assms by (simp add: ring_inv_def)
  note round = tryClaim_round_full [OF assms(1,3,4), of sl]
  have "tryClaim_loop r sl (pad8 (8 + l)) = Some (NoRoom (release r sl))"
    using tryClaim_loop_Some [of r sl "pad8 (8 + l)"] round by simp
  moreover note record_fits(3,4) [OF ok assms(3)]
  ultimately show ?thesis using assms(2,3) by (simp add: tryClaim_def Let_def)
qed

lemma pad8_dvd: "8 dvd n \<Longrightarrow> pad8 n = n"
  by (auto simp: pad8_def)

lemma i32_small: "n < 2 ^ 31 \<Longrightarrow> i32 (int n) = int n" "n < 2 ^ 31 \<Longrightarrow> i32 (- int n) = - int n"
  by (simp_all add: i32_id)

lemma padding_entry:
  assumes "8 dvd n" "8 \<le> n" "n + 7 < 2 ^ 31" "i + n \<le> cap"
  shows "entry_at (put_len (put_type m i TypePadding) i (int n)) cap i (Padding n)"
  using assms by (simp add: i32_small [simplified] pad8_dvd)

lemma place_claim_spec:
  assumes "ring_inv r es" "int l \<le> MaxMessageSize r"
    and "span es + span (claim_entries r typ l) \<le> Capacity r"
    and "rmask r1 = rmask r" "data r1 = data r"
  obtains r2 where
    "place_claim r1 (tail (hdr r)) (pad8 (8 + l)) =
       Inr (r2, (head (hdr r) + span (es @ claim_pad r l)) mod Capacity r)"
    "hdr r2 = hdr r1" "rmask r2 = rmask r"
    "layout (data r2) (Capacity r) (head (hdr r)) (es @ claim_pad r l)"
    "zeroed (data r2) (Capacity r) (head (hdr r) + span (es @ claim_pad r l))
       (head (hdr r) + Capacity r)"
proof -
  let ?cap = "Capacity r" and ?t = "tail (hdr r)" and ?h = "head (hdr r)"
  let ?e = "?cap - ?t mod ?cap"
  have ok: "ring_ok r" using assms by (simp add: ring_inv_def)
  have cap1: "Capacity r1 = ?cap" by (simp add: Capacity_def assms(4))
  have t: "?t = ?h + span es" using assms(1) by (simp add: ring_inv_def)
  have idx: "?t AND rmask r1 = ?t mod ?cap" using ring_ok_capacity(6) [OF ok] assms(4) by simp
  have need: "claim_need r1 ?t (pad8 (8 + l)) = claim_need r ?t (pad8 (8 + l))"
    by (simp add: claim_need_def claim_toEnd_def cap1 assms(4))
  note need' = claim_need_eq [OF assms(1,2), of "typ"]
  note b = toEnd_bounds [OF assms(1)]
  have lt: "?t mod ?cap < ?cap" using ring_ok_capacity(1) [OF ok] by simp
  show thesis
  proof (cases "?e < pad8 (8 + l)")
    case True
    then have pad: "claim_pad r l = [Padding ?e]" by (simp add: claim_pad_def)
    let ?r2 = "storeLength (storeType r1 (?t mod ?cap) TypePadding) (?t mod ?cap) (int ?e)"
    let ?m = "put_len (put_type (data r) (?t mod ?cap) TypePadding) (?t mod ?cap) (int ?e)"
    have e31: "?e + 7 < 2 ^ 31"
      using True record_fits(1) [OF ok assms(2)] ring_ok_capacity(2) [OF ok] by simp
    have "span es + esize (Padding ?e) \<le> ?cap" using assms(3) pad by (simp add: claim_entries_def)
    moreover have "only (data r) ?m ((?h + span es) mod ?cap) (esize (Padding ?e))"
      using b(2) by (simp add: t only_put2)
    moreover have "entry_at ?m ?cap ((?h + span es) mod ?cap) (Padding ?e)"
      unfolding t [symmetric] by (rule padding_entry) (use b e31 lt in auto)
    moreover note ring_invD(3,4) [OF assms(1)]
    ultimately have lay: "layout ?m ?cap ?h (es @ [Padding ?e])"
      "zeroed ?m ?cap (?h + span (es @ [Padding ?e])) (?h + ?cap)"
      by (blast intro: append_entry)+
    have wrap: "(?h + span (es @ claim_pad r l)) mod ?cap = 0"
    proof -
      have "?h + span (es @ claim_pad r l) = ?t + ?e" by (simp add: pad t)
      also have "\<dots> = ?t div ?cap * ?cap + ?cap" using lt div_mult_mod_eq [of ?t ?cap] by linarith
      finally show ?thesis by simp
    qed
    have ne: "claim_need r1 ?t (pad8 (8 + l)) \<noteq> pad8 (8 + l)"
      using need need' pad b(2) by (simp add: claim_entries_def)
    have "\<not> ?t mod ?cap + 4 \<ge> ?cap" using b(2) by linarith
    then have pl: "place_claim r1 ?t (pad8 (8 + l)) = Inr (?r2, 0)"
      using ne i32_small(1) [of ?e] e31 by (simp add: place_claim_def idx cap1 claim_toEnd_def Let_def)
    have d: "data ?r2 = ?m" by (simp add: assms(5))
    show thesis
    proof (rule that)
      show "place_claim r1 ?t (pad8 (8 + l)) = Inr (?r2, (?h + span (es @ claim_pad r l)) mod ?cap)"
        unfolding wrap by (rule pl)
      show "hdr ?r2 = hdr r1" "rmask ?r2 = rmask r" by (simp_all add: assms(4))
      show "layout (data ?r2) ?cap ?h (es @ claim_pad r l)" unfolding d pad by (rule lay)
      show "zeroed (data ?r2) ?cap (?h + span (es @ claim_pad r l)) (?h + ?cap)"
        unfolding d pad by (rule lay)
    qed
  next
    case False
    then have pad: "claim_pad r l = []" by (simp add: claim_pad_def Let_def)
    have "claim_need r1 ?t (pad8 (8 + l)) = pad8 (8 + l)"
      using need need' pad by (simp add: claim_entries_def)
    then have "place_claim r1 ?t (pad8 (8 + l)) = Inr (r1, ?t mod ?cap)"
      by (simp add: place_claim_def idx)
    with assms(4,5) pad ring_invD(3,4) [OF assms(1)] show thesis
      by (intro that [of r1]) (simp_all add: t)
  qed
qed

lemma claimed_entry:
  assumes "t \<noteq> TypePadding" "8 + l + 7 < 2 ^ 31" "i + pad8 (8 + l) \<le> cap"
  shows "entry_at (put_len (put_type m i t) i (- int (8 + l))) cap i (Claimed t l)"
  using assms i32_small(2) [of "8 + l"] by simp

lemma tryClaim_ok:
  assumes "ring_inv r es" "typ \<noteq> TypePadding" "int l \<le> MaxMessageSize r"
    and "span es + span (claim_entries r typ l) \<le> Capacity r"
    and "tail (hdr r) + span (claim_entries r typ l) < 2 ^ 64"
  obtains r' where
    "tryClaim r sl typ (int l) =
       Some (r', Inr \<lparr>claim_index = (head (hdr r) + span (es @ claim_pad r l)) mod Capacity r,
                      claim_total = int (8 + l), claim_slot = sl\<rparr>)"
    "ring_inv r' (es @ claim_entries r typ l)" "head (hdr r') = head (hdr r)" "rmask r' = rmask r"
    "slots (hdr r') = slots (hdr (set_intent r sl (tail (hdr r)) (span (claim_entries r typ l))))"
proof -
  let ?cap = "Capacity r" and ?t = "tail (hdr r)" and ?h = "head (hdr r)"
  let ?ce = "claim_entries r typ l" and ?es = "es @ claim_pad r l"
  let ?i = "(?h + span ?es) mod ?cap"
  have ok: "ring_ok r" using assms by (simp add: ring_inv_def)
  note fits = record_fits [OF ok assms(3)]
  obtain hc where hc: "hc \<le> ?h"
    "tryClaim_round r sl (pad8 (8 + l)) =
       Won (set_tail (set_intent (set_headCache r hc) sl ?t (span ?ce)) (?t + span ?ce)) ?t"
    by (rule tryClaim_round_won [OF assms(1,3,4,5)])
  define r1 where "r1 = set_tail (set_intent (set_headCache r hc) sl ?t (span ?ce)) (?t + span ?ce)"
  have r1: "rmask r1 = rmask r" "data r1 = data r" by (simp_all add: r1_def)
  obtain r2 where r2: "place_claim r1 ?t (pad8 (8 + l)) = Inr (r2, ?i)" "hdr r2 = hdr r1"
    "rmask r2 = rmask r" "layout (data r2) ?cap ?h ?es"
    "zeroed (data r2) ?cap (?h + span ?es) (?h + ?cap)"
    by (rule place_claim_spec [OF assms(1,3,4) r1])
  define r3 where "r3 = storeLength (storeType r2 ?i typ) ?i (- int (8 + l))"
  have pos: "?i + pad8 (8 + l) \<le> ?cap"
  proof (cases "?cap - ?t mod ?cap < pad8 (8 + l)")
    case True
    have "?cap > 0" using ring_ok_capacity(1) [OF ok] by simp
    have "?h + span ?es = ?t + (?cap - ?t mod ?cap)"
      using True ring_invD(2) [OF assms(1)] by (simp add: claim_pad_def)
    also have "\<dots> = ?t div ?cap * ?cap + ?cap"
      using mod_less_divisor [OF \<open>?cap > 0\<close>, of ?t] div_mult_mod_eq [of ?t ?cap] by linarith
    finally have "?i = 0" by simp
    then show ?thesis using fits(1) by simp
  next
    case False
    then have "?i = ?t mod ?cap" using ring_invD(2) [OF assms(1)] by (simp add: claim_pad_def Let_def)
    moreover have "?t mod ?cap < ?cap" using ring_ok_capacity(1) [OF ok] by simp
    ultimately show ?thesis using False by linarith
  qed
  have tot: "span ?es + esize (Claimed typ l) \<le> ?cap" using assms(4) by (simp add: claim_entries_def)
  have ent: "entry_at (data r3) ?cap ?i (Claimed typ l)"
    unfolding r3_def data_store by (rule claimed_entry) (use assms(2) fits pos in auto)
  have onl: "only (data r2) (data r3) ?i (esize (Claimed typ l))"
    by (simp add: r3_def only_put2 pad8_ge del: One_nat_def)
  have lay: "layout (data r3) ?cap ?h (?es @ [Claimed typ l])"
    "zeroed (data r3) ?cap (?h + span (?es @ [Claimed typ l])) (?h + ?cap)"
    using append_entry [OF r2(4,5) tot onl ent] by blast+
  have cap2: "Capacity r2 = ?cap" "Capacity r3 = ?cap" by (simp_all add: Capacity_def r2 r3_def)
  have h3: "head (hdr r3) = ?h" "headCache (hdr r3) = hc" "tail (hdr r3) = ?t + span ?ce"
    "rmask r3 = rmask r" "length (slots (hdr r3)) = length (slots (hdr r))"
    by (simp_all add: r3_def r2 r1_def)
  have "ring_inv r3 (es @ ?ce)"
  proof (rule ring_invI)
    show "ring_ok r3" using ok h3 ring_ok_cong by blast
    show "layout (data r3) (Capacity r3) (head (hdr r3)) (es @ ?ce)"
      using lay(1) by (simp add: cap2 h3 claim_entries_def add.assoc)
    show "zeroed (data r3) (Capacity r3) (head (hdr r3) + span (es @ ?ce)) (head (hdr r3) + Capacity r3)"
      using lay(2) by (simp add: cap2 h3 claim_entries_def)
  qed (use ring_invD [OF assms(1)] hc(1) assms(4,5) in \<open>simp_all add: cap2 h3\<close>)
  moreover have "tryClaim_loop r sl (pad8 (8 + l)) = Some (Won r1 ?t)"
    using tryClaim_loop_Some [of r sl "pad8 (8 + l)"] hc(2) by (simp add: r1_def)
  moreover have "open_record r2 ?i sl typ (int (8 + l)) =
      (r3, Inr \<lparr>claim_index = ?i, claim_total = int (8 + l), claim_slot = sl\<rparr>)"
    using pos pad8_props(2) [of "8 + l"] by (simp add: open_record_def cap2 r3_def Let_def nat_add_distrib)
  ultimately show thesis
    using assms(2,3) r2(1)
    by (intro that [of r3]) (simp_all add: tryClaim_def fits(3,4) [simplified] r3_def r2 r1_def set_headCache_def set_intent_def upd_slot_def set_tail_def Let_def)
qed

section \<open>Commit and abort\<close>

lemma ring_inv_replace:
  assumes "ring_inv r (xs @ e # ys)" "rmask r' = rmask r" "tail (hdr r') = tail (hdr r)"
    and "head (hdr r') = head (hdr r)" "headCache (hdr r') = headCache (hdr r)"
    and "length (slots (hdr r')) = length (slots (hdr r))" "esize e' = esize e"
    and "only (data r) (data r') ((head (hdr r) + span xs) mod Capacity r) (esize e)"
    and "entry_at (data r') (Capacity r) ((head (hdr r) + span xs) mod Capacity r) e'"
  shows "ring_inv r' (xs @ e' # ys)"
proof (rule ring_invI)
  note inv = ring_invD [OF assms(1)]
  have cap: "Capacity r' = Capacity r" using assms(2) by (rule Capacity_cong)
  note rep = replace_entry [OF inv(3,4,5) assms(7,8,9)]
  show "ring_ok r'" using inv(1) assms(2,6) ring_ok_cong by blast
  show "layout (data r') (Capacity r') (head (hdr r')) (xs @ e' # ys)"
    unfolding cap assms(4) by (rule rep)
  show "zeroed (data r') (Capacity r') (head (hdr r') + span (xs @ e' # ys)) (head (hdr r') + Capacity r')"
    unfolding cap assms(4) by (rule rep)
qed (use ring_invD [OF assms(1)] assms(2-7) in \<open>simp_all add: Capacity_def\<close>)

text \<open>The claim \<open>c\<close> is the entry behind the entries \<open>xs\<close>, with \<open>l\<close> bytes of payload.\<close>

definition claim_of :: "Ring \<Rightarrow> Claim \<Rightarrow> entry list \<Rightarrow> nat \<Rightarrow> bool" where
  "claim_of r c xs l \<longleftrightarrow>
     claim_index c = (head (hdr r) + span xs) mod Capacity r \<and> claim_total c = int (8 + l)"

lemma entry_at_of_inv:
  "ring_inv r (xs @ e # ys) \<Longrightarrow> entry_at (data r) (Capacity r) ((head (hdr r) + span xs) mod Capacity r) e"
  by (drule ring_invD(3)) simp

lemma data_fill [simp]:
  "data (fill r c bs) = store_bytes (data r) (claim_index c + 8) (take (nat (claim_total c) - 8) bs)"
  by (simp add: fill_def RecordHeaderSize_def)

lemma Commit_inv:
  assumes inv: "ring_inv r (xs @ Claimed t l # ys)" and c: "claim_of r c xs l" and p: "length p = l"
  shows "ring_inv (Commit (fill r c p) c) (xs @ Committed t p # ys)"
proof (rule ring_inv_replace [OF inv])
  let ?i = "(head (hdr r) + span xs) mod Capacity r"
  note ent = entry_at_of_inv [OF inv]
  have i: "claim_index c = ?i" "claim_total c = int (8 + l)" "take (nat (int (8 + l)) - 8) p = p"
    using c p by (simp_all add: claim_of_def nat_add_distrib)
  let ?m = "store_bytes (data r) (?i + 8) p"
  have d: "data (Commit (fill r c p) c) = put_len ?m ?i (int (8 + l))"
    by (simp only: Commit_def ring_fields data_store data_fill i)
  have "only (data r) ?m ?i (pad8 (8 + l))"
    by (rule only_store) (use p pad8_props(2) [of "8 + l"] in auto)
  then show "only (data r) (data (Commit (fill r c p) c)) ?i (esize (Claimed t l))"
    unfolding d esize.simps by (rule only_trans) (simp add: only_put pad8_ge)
  have "type_at ?m ?i = type_at (data r) ?i" by (simp add: type_at_def load_store_disjoint)
  moreover have "i32 (int (8 + l)) = int (8 + l)" using ent by (intro i32_small) simp
  ultimately show "entry_at (data (Commit (fill r c p) c)) (Capacity r) ?i (Committed t p)"
    using ent p unfolding d by (simp add: load_store_same)
qed (use p in \<open>simp_all add: Commit_def\<close>)

lemma Abort_inv:
  assumes inv: "ring_inv r (xs @ Claimed t l # ys)" and c: "claim_of r c xs l"
  shows "ring_inv (Abort r c) (xs @ Padding (pad8 (8 + l)) # ys)"
proof (rule ring_inv_replace [OF inv])
  let ?i = "(head (hdr r) + span xs) mod Capacity r"
  note ent = entry_at_of_inv [OF inv]
  have d: "data (Abort r c) = put_len (put_type (data r) ?i TypePadding) ?i (int (8 + l))"
    using c by (simp add: Abort_def claim_of_def)
  show "only (data r) (data (Abort r c)) ?i (esize (Claimed t l))"
    unfolding d by (simp add: only_put2 pad8_ge)
  have "i32 (int (8 + l)) = int (8 + l)" using ent by (intro i32_small) simp
  then show "entry_at (data (Abort r c)) (Capacity r) ?i (Padding (pad8 (8 + l)))"
    using ent unfolding d by (simp add: nat_add_distrib)
qed (simp_all add: Abort_def)

lemma fill_inv:
  assumes inv: "ring_inv r (xs @ Claimed t l # ys)" and c: "claim_of r c xs l"
  shows "ring_inv (fill r c bs) (xs @ Claimed t l # ys)"
proof (rule ring_inv_replace [OF inv])
  let ?i = "(head (hdr r) + span xs) mod Capacity r"
  have i: "claim_index c = ?i" "nat (claim_total c) - 8 = l"
    using c by (simp_all add: claim_of_def nat_add_distrib)
  have d: "data (fill r c bs) = store_bytes (data r) (?i + 8) (take l bs)" by (simp add: i)
  show "only (data r) (data (fill r c bs)) ?i (esize (Claimed t l))"
    unfolding d by (rule only_store) (use pad8_props(2) [of "8 + l"] in auto)
  show "entry_at (data (fill r c bs)) (Capacity r) ?i (Claimed t l)"
    using entry_at_of_inv [OF inv] unfolding d
    by (simp add: len_at_def type_at_def load_store_disjoint)
qed simp_all

section \<open>Reading\<close>

text \<open>The entries that a read of at most \<open>n\<close> messages steps over.\<close>

fun take_ready :: "nat \<Rightarrow> entry list \<Rightarrow> entry list" where
  "take_ready (Suc n) (Committed t p # es) = Committed t p # take_ready n es"
| "take_ready (Suc n) (Padding k # es) = Padding k # take_ready (Suc n) es"
| "take_ready _ _ = []"

definition drop_ready :: "nat \<Rightarrow> entry list \<Rightarrow> entry list" where
  "drop_ready n es = drop (length (take_ready n es)) es"

lemma take_ready_append: "\<exists>zs. es = take_ready n es @ zs"
  by (induction n es rule: take_ready.induct) auto

lemma take_drop_ready: "take_ready n es @ drop_ready n es = es"
  by (metis append_eq_conv_conj drop_ready_def take_ready_append)

lemma clear_record_zero:
  assumes "i \<le> j" "j < i + n"
  shows "data (clear_record r i (i + n)) j = 0"
  using assms by (auto simp: clear_record_def put_len_def store_bytes_def clear_bytes_def le_bytes_0)

lemma clear_record_only: "8 \<le> n \<Longrightarrow> only (data r) (data (clear_record r i (i + n))) i n"
  by (auto simp: clear_record_def put_len_def intro!: only_trans [OF only_clear only_store])

lemma read_loop_step:
  assumes "int (length acc) < limit" "consumed < av" "h + av < 2 ^ 64"
    and "i = (h + consumed) AND rmask r" "len = loadLength r i" "8 \<le> len" "len + 7 < 2 ^ 31"
    and "pad8 (nat len) \<le> av - consumed" "i + pad8 (nat len) \<le> Capacity r" "Capacity r \<le> 2 ^ 31"
  shows "read_loop r h av limit consumed acc =
    read_loop (clear_record r i (i + pad8 (nat len))) h av limit (consumed + pad8 (nat len))
      (if loadType r i \<noteq> TypePadding
       then acc @ [(loadType r i, load_bytes (data r) (i + 8) (nat len - 8))] else acc)"
proof -
  have a: "align len = pad8 (nat len)" by (rule align_pad8) (use assms in auto)
  have "add64 h consumed = h + consumed" "add64 i (pad8 (nat len)) = i + pad8 (nat len)"
    using assms(2,3,9,10) by simp_all
  moreover have "nat len \<le> pad8 (nat len)" "8 \<le> pad8 (nat len)"
    using assms(6) pad8_props(2) [of "nat len"] pad8_ge [of "nat len"] by simp_all
  ultimately show ?thesis
    using assms a by (subst read_loop.simps) (simp add: RecordHeaderSize_def Let_def)
qed

lemma read_loop_stop:
  assumes "limit \<le> int (length acc) \<or> av \<le> consumed \<or>
    (h + av < 2 ^ 64 \<and> loadLength r ((h + consumed) AND rmask r) \<le> 0)"
  shows "read_loop r h av limit consumed acc = (r, consumed, acc, None)"
  using assms by (subst read_loop.simps) (auto simp: Let_def)

lemma entry_ready:
  assumes "entry_at m cap i e" "message e \<noteq> [] \<or> (\<exists>n. e = Padding n)"
  shows "8 \<le> len_at m i" "len_at m i + 7 < 2 ^ 31" "pad8 (nat (len_at m i)) = esize e"
    "(if type_at m i \<noteq> TypePadding
      then acc @ [(type_at m i, load_bytes m (i + 8) (nat (len_at m i) - 8))] else acc) =
     acc @ message e"
  using assms by (cases e; simp add: nat_add_distrib)+

lemma read_loop_spec:
  assumes "\<And>c. c AND rmask r = c mod Capacity r" "Capacity r \<le> 2 ^ 31"
    and "layout (data r) (Capacity r) (h + consumed) es"
    and "av = consumed + span es" "h + av < 2 ^ 64" "av \<le> Capacity r"
    and "limit = int (length acc) + int n"
  shows "\<exists>r'. read_loop r h av limit consumed acc =
      (r', consumed + span (take_ready n es), acc @ messages (take_ready n es), None) \<and>
    hdr r' = hdr r \<and> rmask r' = rmask r \<and>
    zeroed (data r') (Capacity r) (h + consumed) (h + consumed + span (take_ready n es)) \<and>
    agree (data r) (data r') (Capacity r) h (h + consumed) \<and>
    agree (data r) (data r') (Capacity r) (h + consumed + span (take_ready n es)) (h + Capacity r)"
  using assms
proof (induction es arbitrary: r consumed acc n)
  case Nil
  then show ?case by (auto simp: read_loop_stop zeroed_def agree_def)
next
  case (Cons e es)
  let ?cap = "Capacity r" and ?i = "(h + consumed) mod Capacity r"
  have ent: "entry_at (data r) ?cap ?i e" using Cons.prems(3) by simp
  note sz = esize_bounds [OF ent]
  show ?case
  proof (cases "n \<noteq> 0 \<and> (message e \<noteq> [] \<or> (\<exists>k. e = Padding k))")
    case False
    then have none: "take_ready n (e # es) = []" by (cases n; cases e) auto
    have "n = 0 \<or> loadLength r ?i \<le> 0"
      using False ent by (cases e) (auto simp: loadLength_len_at)
    then have "read_loop r h av limit consumed acc = (r, consumed, acc, None)"
      using Cons.prems by (intro read_loop_stop) auto
    with none show ?thesis by (auto simp: zeroed_def agree_def)
  next
    case True
    then have ready: "message e \<noteq> [] \<or> (\<exists>k. e = Padding k)" by simp
    define n' where "n' = n - length (message e)"
    have tr: "take_ready n (e # es) = e # take_ready n' es"
      using True by (cases n; cases e) (auto simp: n'_def)
    have n': "limit = int (length (acc @ message e)) + int n'"
      using True Cons.prems(7) by (cases e) (auto simp: n'_def)
    note er = entry_ready [OF ent ready]
    define r1 where "r1 = clear_record r ?i (?i + esize e)"
    have "read_loop r h av limit consumed acc =
        read_loop (clear_record r ?i (?i + pad8 (nat (len_at (data r) ?i)))) h av limit
          (consumed + pad8 (nat (len_at (data r) ?i)))
          (if type_at (data r) ?i \<noteq> TypePadding
           then acc @ [(type_at (data r) ?i, load_bytes (data r) (?i + 8) (nat (len_at (data r) ?i) - 8))]
           else acc)"
      unfolding loadType_type_at [symmetric]
      by (rule read_loop_step)
        (use True Cons.prems er(1-3) sz in \<open>simp_all add: loadLength_len_at\<close>)
    then have step: "read_loop r h av limit consumed acc =
        read_loop r1 h av limit (consumed + esize e) (acc @ message e)"
      by (simp only: er r1_def)
    have only: "only (data r) (data r1) ?i (esize e)" unfolding r1_def using sz by (intro clear_record_only) simp
    have bound: "consumed + esize e + span es \<le> ?cap" using Cons.prems by simp
    have ag1: "agree (data r) (data r1) ?cap h (h + consumed)"
      by (rule only_agree [OF only, of h]) (use sz bound in auto)
    have ag2: "agree (data r) (data r1) ?cap (h + consumed + esize e) (h + ?cap)"
      by (rule only_agree [OF only, of h]) (use sz bound in auto)
    have z1: "zeroed (data r1) ?cap (h + consumed) (h + consumed + esize e)"
      unfolding zeroed_def
    proof (intro allI impI)
      fix x assume x: "h + consumed \<le> x \<and> x < h + consumed + esize e"
      define k where "k = x - (h + consumed)"
      have k: "x = h + consumed + k" "k < esize e" using x by (auto simp: k_def)
      have "x mod ?cap = ?i + k" unfolding k(1) by (rule mod_shift) (use k sz in linarith)
      then show "data r1 (x mod ?cap) = 0" unfolding r1_def using k by (intro clear_record_zero) simp_all
    qed
    have cap1: "Capacity r1 = ?cap" "rmask r1 = rmask r" "hdr r1 = hdr r"
      by (simp_all add: r1_def Capacity_def)
    have lay1: "layout (data r1) ?cap (h + (consumed + esize e)) es"
    proof (rule agree_layout)
      show "agree (data r) (data r1) ?cap (h + (consumed + esize e)) (h + (consumed + esize e) + span es)"
        using ag2 bound by (auto simp: agree_def)
      show "layout (data r) ?cap (h + (consumed + esize e)) es" using Cons.prems(3) by (simp add: add.assoc)
    qed
    have "\<exists>r'. read_loop r1 h av limit (consumed + esize e) (acc @ message e) =
      (r', consumed + esize e + span (take_ready n' es), (acc @ message e) @ messages (take_ready n' es), None) \<and>
      hdr r' = hdr r1 \<and> rmask r' = rmask r1 \<and>
      zeroed (data r') (Capacity r1) (h + (consumed + esize e))
        (h + (consumed + esize e) + span (take_ready n' es)) \<and>
      agree (data r1) (data r') (Capacity r1) h (h + (consumed + esize e)) \<and>
      agree (data r1) (data r') (Capacity r1) (h + (consumed + esize e) + span (take_ready n' es)) (h + Capacity r1)"
      by (rule Cons.IH) (use Cons.prems lay1 n' in \<open>simp_all add: cap1\<close>)
    then obtain r' where r': "read_loop r1 h av limit (consumed + esize e) (acc @ message e) =
        (r', consumed + esize e + span (take_ready n' es), (acc @ message e) @ messages (take_ready n' es), None)"
      "hdr r' = hdr r" "rmask r' = rmask r"
      "zeroed (data r') ?cap (h + (consumed + esize e)) (h + (consumed + esize e) + span (take_ready n' es))"
      "agree (data r1) (data r') ?cap h (h + (consumed + esize e))"
      "agree (data r1) (data r') ?cap (h + (consumed + esize e) + span (take_ready n' es)) (h + ?cap)"
      by (auto simp: cap1)
    have "zeroed (data r') ?cap (h + consumed) (h + consumed + esize e)"
      by (rule agree_zeroed [OF agree_sub [OF r'(5)] z1]) simp_all
    then have "zeroed (data r') ?cap (h + consumed) (h + consumed + span (take_ready n (e # es)))"
      unfolding tr using r'(4) by (auto intro: zeroed_join simp: add.assoc)
    moreover have "agree (data r) (data r') ?cap h (h + consumed)"
      using ag1 r'(5) by (auto simp: agree_def)
    moreover have "agree (data r) (data r') ?cap (h + consumed + span (take_ready n (e # es))) (h + ?cap)"
      using ag2 r'(6) unfolding tr by (auto simp: agree_def add.assoc)
    ultimately show ?thesis using r'(1-3) step by (auto simp: tr add.assoc)
  qed
qed

lemma Read_spec:
  assumes inv: "ring_inv r es"
  obtains r' where "Read r limit = (r', messages (take_ready (nat limit) es), None)"
    "ring_inv r' (drop_ready (nat limit) es)" "rmask r' = rmask r"
    "hdr r' = (hdr r)\<lparr>head := head (hdr r) + span (take_ready (nat limit) es)\<rparr>"
proof (cases "limit \<le> 0")
  case True
  then have "take_ready (nat limit) es = []" by (cases es) auto
  then show thesis using True inv by (intro that [of r]) (simp_all add: Read_def drop_ready_def)
next
  case False
  let ?n = "nat limit" and ?h = "head (hdr r)" and ?cap = "Capacity r"
  let ?pre = "take_ready ?n es" and ?post = "drop_ready ?n es"
  note D = ring_invD [OF inv]
  have es: "es = ?pre @ ?post" by (simp add: take_drop_ready)
  have sp: "span es = span ?pre + span ?post" using arg_cong [OF es, of span] by simp
  have av: "sub64 (tail (hdr r)) ?h = 0 + span es" using D by simp
  obtain r' where r': "read_loop r ?h (span es) limit 0 [] = (r', span ?pre, messages ?pre, None)"
    "hdr r' = hdr r" "rmask r' = rmask r" "zeroed (data r') ?cap ?h (?h + span ?pre)"
    "agree (data r) (data r') ?cap (?h + span ?pre) (?h + ?cap)"
    using read_loop_spec [OF ring_ok_capacity(6,2) [OF D(1)], of ?h 0 es "span es" limit "[]" ?n] D False
    by auto
  define r2 where "r2 = (if span ?pre > 0 then set_head r' (add64 ?h (span ?pre)) else r')"
  have a64: "add64 ?h (span ?pre) = ?h + span ?pre" using D(6) sp by simp
  have hdr2: "hdr r2 = (hdr r)\<lparr>head := ?h + span ?pre\<rparr>" "data r2 = data r'" "rmask r2 = rmask r"
    unfolding r2_def a64 by (auto simp: set_head_def r')
  have cap2: "Capacity r2 = ?cap" using hdr2 by (simp add: Capacity_def)
  have "ring_inv r2 ?post"
  proof (rule ring_invI)
    show "ring_ok r2" using D(1) hdr2 ring_ok_cong [of r2 r] by simp
    have "layout (data r) ?cap (?h + span ?pre) ?post" using D(3) layout_append [of _ _ _ ?pre ?post] es by metis
    moreover have "agree (data r) (data r') ?cap (?h + span ?pre) (?h + span ?pre + span ?post)"
      by (rule agree_sub [OF r'(5)]) (use D(5) sp in auto)
    ultimately show "layout (data r2) (Capacity r2) (head (hdr r2)) ?post"
      by (simp add: cap2 hdr2 agree_layout)
    have "zeroed (data r') ?cap (?h + span es) (?h + ?cap)"
      by (rule agree_zeroed [OF agree_sub [OF r'(5)] D(4)]) (use sp in auto)
    moreover have "zeroed (data r') ?cap (?h + ?cap) (?h + span ?pre + ?cap)"
      using r'(4) zeroed_shift by blast
    ultimately show "zeroed (data r2) (Capacity r2) (head (hdr r2) + span ?post) (head (hdr r2) + Capacity r2)"
      using zeroed_join by (simp add: cap2 hdr2 sp add.assoc)
    have "8 dvd span ?pre" using D(3) es layout_append [of _ _ _ ?pre ?post] span_dvd by metis
    then show "8 dvd head (hdr r2)" using D(7) hdr2 by simp
  qed (use D sp in \<open>simp_all add: cap2 hdr2\<close>)
  moreover have "Read r limit = (r2, messages ?pre, None)"
    using False r'(1) av by (simp add: Read_def r2_def)
  ultimately show thesis using hdr2 by (intro that [of r2])
qed

lemma TryRecv_spec:
  assumes "ring_inv r es"
  shows "snd (TryRecv r) = (case messages (take_ready 1 es) of [] \<Rightarrow> Inl ErrEmpty | m # _ \<Rightarrow> Inr m)"
    "ring_inv (fst (TryRecv r)) (drop_ready 1 es)"
proof -
  obtain r' where r': "Read r 1 = (r', messages (take_ready (nat 1) es), None)"
    "ring_inv r' (drop_ready (nat 1) es)"
    by (rule Read_spec [OF assms])
  then show "snd (TryRecv r) = (case messages (take_ready 1 es) of [] \<Rightarrow> Inl ErrEmpty | m # _ \<Rightarrow> Inr m)"
    "ring_inv (fst (TryRecv r)) (drop_ready 1 es)"
    by (simp_all add: TryRecv_def split: list.splits)
qed

section \<open>Writing\<close>

lemma tryWrite_full:
  assumes "ring_inv r es" "typ \<noteq> TypePadding" "int (length p) \<le> MaxMessageSize r"
    and "Capacity r < span es + span (claim_entries r typ (length p))"
  shows "tryWrite r sl typ p = Some (release r sl, Inl ErrFull)"
  using tryClaim_full [OF assms, of sl] by (simp add: tryWrite_def)

lemma tryWrite_ok:
  assumes "ring_inv r es" "typ \<noteq> TypePadding" "int (length p) \<le> MaxMessageSize r"
    and "span es + span (claim_entries r typ (length p)) \<le> Capacity r"
    and "tail (hdr r) + span (claim_entries r typ (length p)) < 2 ^ 64"
  obtains r' where "tryWrite r sl typ p = Some (r', Inr ())"
    "ring_inv r' (es @ claim_pad r (length p) @ [Committed typ p])" "rmask r' = rmask r"
    "tail (hdr r') = tail (hdr r) + span (claim_entries r typ (length p))"
proof -
  let ?xs = "es @ claim_pad r (length p)"
  let ?c = "\<lparr>claim_index = (head (hdr r) + span ?xs) mod Capacity r,
             claim_total = int (8 + length p), claim_slot = sl\<rparr>"
  obtain r1 where r1: "tryClaim r sl typ (int (length p)) = Some (r1, Inr ?c)"
    "ring_inv r1 (es @ claim_entries r typ (length p))" "head (hdr r1) = head (hdr r)" "rmask r1 = rmask r"
    by (rule tryClaim_ok [OF assms, of sl])
  have c: "claim_of r1 ?c ?xs (length p)" by (simp add: claim_of_def r1 Capacity_def)
  have inv1: "ring_inv r1 (?xs @ Claimed typ (length p) # [])"
    using r1(2) by (simp add: claim_entries_def)
  have "ring_inv (Commit (fill r1 ?c p) ?c) (?xs @ Committed typ p # [])"
    by (rule Commit_inv [OF inv1 c]) simp
  moreover have "tail (hdr (Commit (fill r1 ?c p) ?c)) = tail (hdr r) + span (claim_entries r typ (length p))"
    using ring_invD(2) [OF r1(2)] ring_invD(2) [OF assms(1)] r1(3) by (simp add: Commit_def)
  ultimately show thesis
    using r1(1,4) by (intro that) (simp_all add: tryWrite_def, simp add: Commit_def)
qed

section \<open>Creation and attachment\<close>

lemma Len64_bounds: "0 < n \<Longrightarrow> 2 ^ (Len64 n - 1) \<le> n \<and> n < 2 ^ Len64 n"
proof (induction n rule: Len64.induct)
  case (1 n)
  show ?case
  proof (cases "n div 2 = 0")
    case True
    with "1.prems" have "n = 1" by simp
    then show ?thesis by (simp add: Len64.simps)
  next
    case False
    then have ih: "2 ^ (Len64 (n div 2) - 1) \<le> n div 2" "n div 2 < 2 ^ Len64 (n div 2)"
      using "1.IH" "1.prems" by auto
    have pos: "0 < Len64 (n div 2)" using False by (subst Len64.simps) simp
    then have "(2::nat) ^ Len64 (n div 2) = 2 * 2 ^ (Len64 (n div 2) - 1)"
      by (cases "Len64 (n div 2)") auto
    moreover have "Len64 n = Suc (Len64 (n div 2))" using "1.prems" by (subst Len64.simps) simp
    ultimately show ?thesis using ih by simp linarith
  qed
qed

lemma initRing_inv:
  assumes "initRing buf c = Inr r" "seg_len buf < HeaderSize + 2 ^ 32"
  shows "ring_inv r []" "MinCapacity \<le> Capacity r" "HeaderSize + Capacity r \<le> seg_len buf"
proof -
  let ?n = "seg_len buf - HeaderSize"
  let ?k = "Len64 ?n - 1"
  have n: "4096 \<le> ?n" "?n < 2 ^ 32" "seg_len buf = HeaderSize + ?n"
    using assms by (auto simp: initRing_def MinCapacity_def split: if_splits)
  have L: "2 ^ ?k \<le> ?n" "?n < 2 ^ Len64 ?n" using Len64_bounds [of ?n] n by auto
  have "2 ^ ?k < (2::nat) ^ 32" using L n by linarith
  then have "?k < 32" by (rule power_less_imp_less_exp [rotated]) simp
  then have k31: "?k \<le> 31" by simp
  have "(2::nat) ^ 12 = 4096" by simp
  then have "(2::nat) ^ 12 < 2 ^ Len64 ?n" using L n by linarith
  then have "12 < Len64 ?n" by (rule power_less_imp_less_exp [rotated]) simp
  then have k12: "12 \<le> ?k" by simp
  have r: "rmask r = 2 ^ ?k - 1" "data r = clear_bytes (seg_data buf) 0 ?n" "head (hdr r) = 0"
    "tail (hdr r) = 0" "headCache (hdr r) = 0" "length (slots (hdr r)) = ClaimSlots"
    using assms(1) by (auto simp: initRing_def newRing_def Let_def split: if_splits)
  have cap: "Capacity r = 2 ^ ?k" by (simp add: Capacity_def r)
  have "(2::nat) ^ 12 \<le> 2 ^ ?k" using k12 by (intro power_increasing) auto
  then show "MinCapacity \<le> Capacity r" by (simp add: cap MinCapacity_def)
  show "HeaderSize + Capacity r \<le> seg_len buf" using L n by (simp add: cap)
  have "clear_bytes (seg_data buf) 0 ?n x = 0" if "x < 2 ^ ?k" for x
    using that L(1) by (simp add: clear_bytes_def)
  then have "zeroed (data r) (Capacity r) 0 (Capacity r)"
    unfolding cap zeroed_def r(2) by simp
  moreover have "ring_ok r" using k12 k31 r(6) by (auto simp: ring_ok_def cap intro!: bexI [of _ ?k])
  ultimately show "ring_inv r []" using r by (simp add: ring_inv_def)
qed

end
