(* ===== verification/Fifo.thy ===== *)
theory Fifo
  imports Main
begin

text \<open>
  The contract of a bounded message queue, as the layers above a ring rely on it: \<open>push\<close>
  may refuse, and what it accepts is delivered by \<open>pop\<close> once, in order. \<open>rel s q\<close> says that
  the state \<open>s\<close> holds the messages \<open>q\<close>; \<open>room s\<close> bounds how many more messages the cursors of
  \<open>s\<close> can count.
\<close>

datatype 'm op = Push 'm | Pop

text \<open>A run of operations: the final state, the accepted messages, and the delivered ones.\<close>

fun run_ops :: "('s \<Rightarrow> 'm \<Rightarrow> 's \<times> bool) \<Rightarrow> ('s \<Rightarrow> 's \<times> 'm option) \<Rightarrow> 's \<Rightarrow> 'm op list \<Rightarrow>
    's \<times> 'm list \<times> 'm list" where
  "run_ops push pop s [] = (s, [], [])"
| "run_ops push pop s (Push m # ops) =
     (case push s m of (s', ok) \<Rightarrow>
        (case run_ops push pop s' ops of (t, acc, out) \<Rightarrow> (t, (if ok then m # acc else acc), out)))"
| "run_ops push pop s (Pop # ops) =
     (case pop s of (s', x) \<Rightarrow>
        (case run_ops push pop s' ops of (t, acc, out) \<Rightarrow>
           (t, acc, (case x of None \<Rightarrow> out | Some m \<Rightarrow> m # out))))"

locale fifo =
  fixes rel :: "'s \<Rightarrow> 'm list \<Rightarrow> bool"
    and push :: "'s \<Rightarrow> 'm \<Rightarrow> 's \<times> bool"
    and pop :: "'s \<Rightarrow> 's \<times> 'm option"
    and room :: "'s \<Rightarrow> nat"
  assumes push_rel: "rel s q \<Longrightarrow> 0 < room s \<Longrightarrow> push s m = (s', ok) \<Longrightarrow> rel s' (if ok then q @ [m] else q)"
    and push_room: "rel s q \<Longrightarrow> 0 < room s \<Longrightarrow> push s m = (s', ok) \<Longrightarrow> room s \<le> Suc (room s')"
    and pop_Cons: "rel s (m # q) \<Longrightarrow> \<exists>s'. pop s = (s', Some m) \<and> rel s' q \<and> room s' = room s"
    and pop_Nil: "rel s [] \<Longrightarrow> \<exists>s'. pop s = (s', None) \<and> rel s' [] \<and> room s' = room s"
begin

lemma pop_cases:
  assumes "rel s q"
  obtains (empty) s' where "q = []" "pop s = (s', None)" "rel s' []" "room s' = room s"
  | (front) m q' s' where "q = m # q'" "pop s = (s', Some m)" "rel s' q'" "room s' = room s"
  using assms by (cases q) (blast dest: pop_Nil pop_Cons)+

theorem run_fifo:
  assumes "rel s q" "length ops \<le> room s" "run_ops push pop s ops = (t, acc, out)"
  shows "\<exists>q'. rel t q' \<and> q @ acc = out @ q'"
  using assms
proof (induction ops arbitrary: s q acc out)
  case (Cons x ops)
  show ?case
  proof (cases x)
    case (Push m)
    obtain s' ok where p: "push s m = (s', ok)" by force
    obtain acc' where acc: "run_ops push pop s' ops = (t, acc', out)" "acc = (if ok then m # acc' else acc')"
      using Cons.prems(3) Push p by (auto split: prod.splits)
    have "rel s' (if ok then q @ [m] else q)" "length ops \<le> room s'"
      using push_rel [OF Cons.prems(1) _ p] push_room [OF Cons.prems(1) _ p] Cons.prems(2) by auto
    from Cons.IH [OF this acc(1)] show ?thesis by (auto simp: acc(2))
  next
    case Pop
    from Cons.prems(1) show ?thesis
    proof (cases rule: pop_cases)
      case (empty s')
      then have "run_ops push pop s' ops = (t, acc, out)" "length ops \<le> room s'"
        using Cons.prems(2,3) Pop by (auto split: prod.splits)
      from Cons.IH [OF empty(3) this(2,1)] show ?thesis by (simp add: empty(1))
    next
      case (front m q' s')
      obtain out' where out: "run_ops push pop s' ops = (t, acc, out')" "out = m # out'"
        using Cons.prems(3) Pop front(2) by (auto split: prod.splits)
      have "length ops \<le> room s'" using Cons.prems(2) front(4) by simp
      from Cons.IH [OF front(3) this out(1)] show ?thesis by (simp add: front(1) out(2))
    qed
  qed
qed simp

text \<open>Popping as often as there are messages empties the queue in order.\<close>

lemma drain: "rel s q \<Longrightarrow> \<exists>t. run_ops push pop s (replicate (length q) Pop) = (t, [], q) \<and> rel t []"
proof (induction q arbitrary: s)
  case (Cons m q)
  then obtain s' where "pop s = (s', Some m)" "rel s' q" using pop_Cons by blast
  with Cons.IH [of s'] show ?case by auto
qed auto

end

end
