(* ===== verification/Ring_Refine.thy ===== *)
theory Ring_Refine
  imports Ring_Spec Fifo
begin

text \<open>
  The ring as a bounded message queue. A quiescent ring (no claim in progress) refines the
  contract of \<open>fifo\<close>, and the properties of the ring's operations are stated here.
\<close>

section \<open>The ring as a queue of messages\<close>

fun ready_entry :: "entry \<Rightarrow> bool" where
  "ready_entry (Committed t p) = True"
| "ready_entry (Padding n) = True"
| "ready_entry _ = False"

definition quiet :: "entry list \<Rightarrow> bool" where
  "quiet es \<longleftrightarrow> list_all ready_entry es"

definition ring_rel :: "Ring \<Rightarrow> (u32 \<times> bytes) list \<Rightarrow> bool" where
  "ring_rel r q \<longleftrightarrow> (\<exists>es. ring_inv r es \<and> quiet es \<and> messages es = q)"

definition ring_push :: "Ring \<Rightarrow> u32 \<times> bytes \<Rightarrow> Ring \<times> bool" where
  "ring_push r m =
     (case TryWrite r (fst m) (snd m) of
        Some (r', Inr _) \<Rightarrow> (r', True)
      | Some (r', Inl _) \<Rightarrow> (r', False)
      | None \<Rightarrow> (r, False))"

definition ring_pop :: "Ring \<Rightarrow> Ring \<times> (u32 \<times> bytes) option" where
  "ring_pop r = (case TryRecv r of (r', Inr m) \<Rightarrow> (r', Some m) | (r', Inl _) \<Rightarrow> (r', None))"

text \<open>How many claims of the largest size the 64-bit cursor still has room for.\<close>

definition ring_room :: "Ring \<Rightarrow> nat" where
  "ring_room r = (2 ^ 64 - 1 - tail (hdr r)) div Capacity r"

lemma claim_span_le:
  assumes "ring_inv r es" "int l \<le> MaxMessageSize r"
  shows "span (claim_entries r t l) \<le> Capacity r"
proof -
  have "span (claim_entries r t l) < 2 * pad8 (8 + l) + 1"
    by (simp add: claim_entries_def claim_pad_def Let_def)
  moreover have "pad8 (8 + l) \<le> Capacity r div 2"
    using record_fits(1) [OF ring_invD(1) [OF assms(1)] assms(2)] .
  ultimately show ?thesis by linarith
qed

lemma ring_room_pos:
  assumes "ring_inv r es" "0 < ring_room r" "int l \<le> MaxMessageSize r"
  shows "tail (hdr r) + span (claim_entries r t l) < 2 ^ 64"
proof -
  have "Capacity r \<le> 2 ^ 64 - 1 - tail (hdr r)"
    using assms(2) unfolding ring_room_def by (metis div_less not_le nat_less_le)
  moreover have "0 < Capacity r" using ring_ok_capacity(1) [OF ring_invD(1) [OF assms(1)]] by simp
  ultimately show ?thesis using claim_span_le [OF assms(1,3), of t] by linarith
qed

text \<open>The result of a write is decided by the type, the size and the free space.\<close>

lemma tryWrite_cases:
  assumes "ring_inv r es" "0 < ring_room r"
  obtains (reserved) "t = TypePadding" "tryWrite r sl t p = Some (r, Inl ErrReservedType)"
  | (large) "t \<noteq> TypePadding" "MaxMessageSize r < int (length p)"
      "tryWrite r sl t p = Some (r, Inl ErrMessageTooLarge)"
  | (full) "t \<noteq> TypePadding" "int (length p) \<le> MaxMessageSize r"
      "Capacity r < span es + span (claim_entries r t (length p))"
      "tryWrite r sl t p = Some (release r sl, Inl ErrFull)"
  | (ok) r' where "t \<noteq> TypePadding" "int (length p) \<le> MaxMessageSize r"
      "span es + span (claim_entries r t (length p)) \<le> Capacity r"
      "tryWrite r sl t p = Some (r', Inr ())"
      "ring_inv r' (es @ claim_pad r (length p) @ [Committed t p])" "rmask r' = rmask r"
      "tail (hdr r') = tail (hdr r) + span (claim_entries r t (length p))"
proof -
  consider "t = TypePadding" | "t \<noteq> TypePadding" "MaxMessageSize r < int (length p)"
    | "t \<noteq> TypePadding" "int (length p) \<le> MaxMessageSize r" by linarith
  then show thesis
  proof cases
    case 1
    then show thesis by (intro reserved) (simp_all add: tryWrite_def tryClaim_def)
  next
    case 2
    then show thesis by (intro large) (simp_all add: tryWrite_def tryClaim_def)
  next
    case 3
    show thesis
    proof (cases "span es + span (claim_entries r t (length p)) \<le> Capacity r")
      case True
      show thesis
        by (rule tryWrite_ok [OF assms(1) 3 True ring_room_pos [OF assms 3(2)]]) (rule ok [OF 3 True])
    next
      case False
      then show thesis
        by (intro full) (use 3 tryWrite_full [OF assms(1) 3] in auto)
    qed
  qed
qed

lemma quiet_take_ready:
  "quiet es \<Longrightarrow> messages es = m # q \<Longrightarrow>
    messages (take_ready 1 es) = [m] \<and> messages (drop_ready 1 es) = q \<and> quiet (drop_ready 1 es)"
  by (induction es) (auto simp: quiet_def drop_ready_def elim!: ready_entry.elims)

lemma quiet_take_ready_Nil:
  "quiet es \<Longrightarrow> messages es = [] \<Longrightarrow>
    messages (take_ready 1 es) = [] \<and> messages (drop_ready 1 es) = [] \<and> quiet (drop_ready 1 es)"
  by (induction es) (auto simp: quiet_def drop_ready_def elim!: ready_entry.elims)

lemma quiet_pad [simp]: "quiet (claim_pad r l)"
  by (simp add: quiet_def claim_pad_def Let_def)

lemma messages_pad [simp]: "messages (claim_pad r l) = []"
  by (simp add: claim_pad_def Let_def)

lemma quiet_Committed [simp]: "quiet [Committed t p]"
  by (simp add: quiet_def)

lemma quiet_append [simp]: "quiet (xs @ ys) \<longleftrightarrow> quiet xs \<and> quiet ys"
  by (simp add: quiet_def)

lemma TryRecv_room: "ring_inv r es \<Longrightarrow> ring_room (fst (TryRecv r)) = ring_room r"
proof -
  assume "ring_inv r es"
  then obtain r' where "Read r 1 = (r', messages (take_ready (nat 1) es), None)"
    "rmask r' = rmask r" "hdr r' = (hdr r)\<lparr>head := head (hdr r) + span (take_ready (nat 1) es)\<rparr>"
    by (rule Read_spec)
  then show ?thesis by (simp add: TryRecv_def ring_room_def Capacity_def split: list.splits)
qed

lemma div_add_self2': "0 < b \<Longrightarrow> (a + b) div b = Suc (a div b :: nat)"
  using div_add_self2 [of b a] by simp

text \<open>The reasons a write is refused.\<close>

definition refused :: "Ring \<Rightarrow> entry list \<Rightarrow> u32 \<Rightarrow> bytes \<Rightarrow> ipc_error \<Rightarrow> bool" where
  "refused r es ty p e \<longleftrightarrow>
     e = ErrReservedType \<and> ty = TypePadding \<or>
     e = ErrMessageTooLarge \<and> MaxMessageSize r < int (length p) \<or>
     e = ErrFull \<and> Capacity r < span es + span (claim_entries r ty (length p))"

text \<open>A write takes at most one of the claims that the cursor has room for.\<close>

lemma tryWrite_Inr:
  assumes inv: "ring_inv r es" and room: "0 < ring_room r" and w: "tryWrite r sl t p = Some (r', Inr u)"
  shows "ring_inv r' (es @ claim_pad r (length p) @ [Committed t p])" "ring_room r \<le> Suc (ring_room r')" "rmask r' = rmask r"
proof -
  from inv room
  have "ring_inv r' (es @ claim_pad r (length p) @ [Committed t p]) \<and>
    rmask r' = rmask r \<and> tail (hdr r') = tail (hdr r) + span (claim_entries r t (length p)) \<and>
    int (length p) \<le> MaxMessageSize r"
    by (cases rule: tryWrite_cases [where t = t and p = p and sl = sl]) (use w in auto)
  then have *: "ring_inv r' (es @ claim_pad r (length p) @ [Committed t p])"
    "rmask r' = rmask r" "tail (hdr r') = tail (hdr r) + span (claim_entries r t (length p))"
    "int (length p) \<le> MaxMessageSize r" by auto
  show "ring_inv r' (es @ claim_pad r (length p) @ [Committed t p])" "rmask r' = rmask r" by (fact *(1), fact *(2))
  have "tail (hdr r') \<le> tail (hdr r) + Capacity r" using *(3) claim_span_le [OF inv *(4)] by simp
  moreover have "0 < Capacity r" using ring_ok_capacity(1) [OF ring_invD(1) [OF inv]] by simp
  moreover have "Capacity r' = Capacity r" using *(2) by (rule Capacity_cong)
  moreover have "(2 ^ 64 - 1 - tail (hdr r)) div Capacity r \<le>
      ((2 ^ 64 - 1 - tail (hdr r')) + Capacity r) div Capacity r"
    by (rule div_le_mono) (use calculation in linarith)
  moreover have "((2 ^ 64 - 1 - tail (hdr r')) + Capacity r) div Capacity r =
      Suc ((2 ^ 64 - 1 - tail (hdr r')) div Capacity r)"
    by (rule div_add_self2') (use calculation in simp)
  ultimately show "ring_room r \<le> Suc (ring_room r')" by (simp only: ring_room_def)
qed

text \<open>What the ring promises a push, whether it is accepted or not.\<close>

definition write_post :: "Ring \<Rightarrow> entry list \<Rightarrow> u32 \<Rightarrow> bytes \<Rightarrow> unit result \<Rightarrow> Ring \<Rightarrow> bool" where
  "write_post r es ty p res r' \<longleftrightarrow> rmask r' = rmask r \<and>
     (case res of
        Inr _ \<Rightarrow> ring_inv r' (es @ claim_pad r (length p) @ [Committed ty p]) \<and> ring_room r \<le> Suc (ring_room r')
      | Inl e \<Rightarrow> ring_inv r' es \<and> ring_room r' = ring_room r \<and> refused r es ty p e)"

lemma ring_room_release [simp]: "ring_room (release r sl) = ring_room r" "rmask (release r sl) = rmask r"
  by (simp_all add: ring_room_def release_def upd_slot_def Capacity_def)

lemma tryWrite_total:
  assumes "ring_inv r es" "0 < ring_room r"
  obtains r' res where "tryWrite r sl ty p = Some (r', res)" "write_post r es ty p res r'"
  using tryWrite_cases [OF assms, of ty sl p]
proof cases
  case 1
  then show thesis using that [of r "Inl ErrReservedType"] assms(1) by (simp add: refused_def write_post_def)
next
  case 2
  then show thesis using that [of r "Inl ErrMessageTooLarge"] assms(1) by (simp add: refused_def write_post_def)
next
  case 3
  then show thesis using that [of "release r sl" "Inl ErrFull"] assms(1) by (simp add: refused_def write_post_def)
next
  case (4 r')
  then show thesis using that [of r' "Inr ()"] tryWrite_Inr [OF assms 4(4)] by (simp add: write_post_def)
qed

interpretation ring_fifo: fifo ring_rel ring_push ring_pop ring_room
proof
  fix r q m r' ok assume rel: "ring_rel r q" and room: "0 < ring_room r" and p: "ring_push r m = (r', ok)"
  obtain es where es: "ring_inv r es" "quiet es" "messages es = q" using rel by (auto simp: ring_rel_def)
  obtain r1 res where w: "tryWrite r (-1) (fst m) (snd m) = Some (r1, res)" "write_post r es (fst m) (snd m) res r1"
    by (rule tryWrite_total [OF es(1) room])
  have r1: "r' = r1" "ok \<longleftrightarrow> \<not> isl res" using p w(1) by (auto simp: ring_push_def TryWrite_def split: sum.splits)
  show "ring_rel r' (if ok then q @ [m] else q)"
  proof (cases res)
    case (Inl e)
    then show ?thesis using w(2) es r1 by (auto simp: ring_rel_def write_post_def)
  next
    case (Inr u)
    let ?es = "es @ claim_pad r (length (snd m)) @ [Committed (fst m) (snd m)]"
    have "ring_inv r' ?es" "quiet ?es" "messages ?es = q @ [m]"
      using w(2) es r1 Inr by (simp_all add: write_post_def)
    then show ?thesis using r1 Inr unfolding ring_rel_def by auto
  qed
  show "ring_room r \<le> Suc (ring_room r')" using w(2) r1 by (auto simp: write_post_def split: sum.splits)
next
  fix r m q assume "ring_rel r (m # q)"
  then obtain es where es: "ring_inv r es" "quiet es" "messages es = m # q" by (auto simp: ring_rel_def)
  note qt = quiet_take_ready [OF es(2,3)]
  have "ring_pop r = (fst (TryRecv r), Some m)"
    using TryRecv_spec(1) [OF es(1)] qt by (auto simp: ring_pop_def split: prod.splits sum.splits)
  moreover have "ring_rel (fst (TryRecv r)) q"
    using TryRecv_spec(2) [OF es(1)] qt by (auto simp: ring_rel_def)
  ultimately show "\<exists>s'. ring_pop r = (s', Some m) \<and> ring_rel s' q \<and> ring_room s' = ring_room r"
    using TryRecv_room [OF es(1)] by auto
next
  fix r assume "ring_rel r []"
  then obtain es where es: "ring_inv r es" "quiet es" "messages es = []" by (auto simp: ring_rel_def)
  note qt = quiet_take_ready_Nil [OF es(2,3)]
  have "ring_pop r = (fst (TryRecv r), None)"
    using TryRecv_spec(1) [OF es(1)] qt by (auto simp: ring_pop_def split: prod.splits sum.splits)
  moreover have "ring_rel (fst (TryRecv r)) []"
    using TryRecv_spec(2) [OF es(1)] qt by (auto simp: ring_rel_def)
  ultimately show "\<exists>s'. ring_pop r = (s', None) \<and> ring_rel s' [] \<and> ring_room s' = ring_room r"
    using TryRecv_room [OF es(1)] by auto
qed

end
