(* ===== verification/Ring_Safety.thy ===== *)
theory Ring_Safety
  imports Ring_Refine
begin

text \<open>
  What a read does to a data region with arbitrary contents (a peer may have written
  anything), what attachment accepts, and the two places where the code departs from what it
  means to do: a corrupt record behind readable ones, and a record within eight bytes of the
  32-bit limit.
\<close>

section \<open>Reading arbitrary memory\<close>

text \<open>One round of the read loop, as the facts that its guards establish.\<close>

lemma read_loop_cases:
  assumes "Capacity r \<le> 2 ^ 31" "i = add64 h consumed AND rmask r" "i < Capacity r"
  obtains (stop) "read_loop r h av limit consumed acc = (r, consumed, acc, None)"
  | (corrupt) "read_loop r h av limit consumed acc = (r, consumed, acc, Some ErrCorrupt)"
  | (step) len where "len = loadLength r i" "8 \<le> len" "len + 7 < 2 ^ 31"
      "int (length acc) < limit" "i + pad8 (nat len) \<le> Capacity r" "pad8 (nat len) \<le> av - consumed"
      "read_loop r h av limit consumed acc =
        read_loop (clear_record r i (i + pad8 (nat len))) h av limit (consumed + pad8 (nat len))
          (if loadType r i \<noteq> TypePadding
           then acc @ [(loadType r i, load_bytes (data r) (i + 8) (nat len - 8))] else acc)"
proof -
  let ?len = "loadLength r i"
  have lt: "?len < 2 ^ 31" by (rule loadLength_range)
  consider "\<not> (int (length acc) < limit \<and> consumed < av) \<or> ?len \<le> 0"
    | "int (length acc) < limit \<and> consumed < av" "0 < ?len"
      "?len < 8 \<or> align ?len > av - consumed \<or> add64 i (align ?len) > Capacity r"
    | "int (length acc) < limit \<and> consumed < av" "8 \<le> ?len"
      "align ?len \<le> av - consumed" "add64 i (align ?len) \<le> Capacity r" by linarith
  then show thesis
  proof cases
    case 1
    then have "read_loop r h av limit consumed acc = (r, consumed, acc, None)"
      using assms(2) by (subst read_loop.simps) (auto simp: Let_def)
    then show thesis by (rule stop)
  next
    case 2
    then have "read_loop r h av limit consumed acc = (r, consumed, acc, Some ErrCorrupt)"
      using assms(2) by (subst read_loop.simps) (auto simp: Let_def RecordHeaderSize_def)
    then show thesis by (rule corrupt)
  next
    case 3
    have small: "?len + 7 < 2 ^ 31"
    proof (rule ccontr)
      assume "\<not> ?len + 7 < 2 ^ 31"
      then have al: "align ?len = 2 ^ 64 - 2 ^ 31" using lt by (intro align_overflow) auto
      then have "add64 i (align ?len) = i + (2 ^ 64 - 2 ^ 31)" using assms(1,3) by simp
      with 3(4) assms(1) show False by simp
    qed
    then have al: "align ?len = pad8 (nat ?len)" using 3(2) by (intro align_pad8) auto
    have "nat ?len < 2 ^ 31" using small by simp
    then have "pad8 (nat ?len) < 2 ^ 32" using pad8_props(3) [of "nat ?len"] by simp
    then have sum: "add64 i (align ?len) = i + pad8 (nat ?len)" using al assms(1,3) by simp
    have "nat ?len \<le> pad8 (nat ?len)" "8 \<le> pad8 (nat ?len)"
      using pad8_props(2) pad8_ge 3(2) by simp_all
    then have "read_loop r h av limit consumed acc =
        read_loop (clear_record r i (i + pad8 (nat ?len))) h av limit (consumed + pad8 (nat ?len))
          (if loadType r i \<noteq> TypePadding
           then acc @ [(loadType r i, load_bytes (data r) (i + 8) (nat ?len - 8))] else acc)"
      using 3 assms(2) al sum by (subst read_loop.simps) (simp add: Let_def RecordHeaderSize_def)
    moreover note small
    ultimately show thesis using 3 al sum by (intro step [OF refl]) simp_all
  qed
qed

lemma mask_less: "Capacity r = 2 ^ k \<Longrightarrow> c AND rmask r < Capacity r"
proof -
  assume k: "Capacity r = 2 ^ k"
  then have "rmask r = 2 ^ k - 1" by (simp add: Capacity_def)
  then show ?thesis by (simp only: nat_and_mask k) simp
qed

lemma read_loop_safe:
  assumes "Capacity r = 2 ^ k" "k \<le> 31"
    and "read_loop r h av limit consumed acc = (r', consumed', out, e)"
    and "list_all (\<lambda>m. 8 + length (snd m) \<le> Capacity r) acc"
  shows "(e = None \<or> e = Some ErrCorrupt) \<and> rmask r' = rmask r \<and> hdr r' = hdr r \<and>
    list_all (\<lambda>m. 8 + length (snd m) \<le> Capacity r) out \<and>
    (length out = length acc \<or> int (length out) \<le> limit) \<and>
    (\<forall>j. (Capacity r \<le> j \<longrightarrow> data r' j = data r j) \<and> (data r j = 0 \<longrightarrow> data r' j = 0))"
  using assms
proof (induction "av - consumed" arbitrary: r consumed acc rule: less_induct)
  case less
  let ?i = "add64 h consumed AND rmask r"
  have cap: "Capacity r \<le> 2 ^ 31" using less.prems(1,2) power_increasing [of k 31 "2::nat"] by simp
  have i: "?i < Capacity r" using less.prems(1) by (rule mask_less)
  show ?case
  proof (cases rule: read_loop_cases [OF cap refl i, of av limit acc])
    case 1
    with less.prems(3,4) show ?thesis by auto
  next
    case 2
    with less.prems(3,4) show ?thesis by auto
  next
    case (3 len)
    define r1 where "r1 = clear_record r ?i (?i + pad8 (nat len))"
    define acc1 where "acc1 = (if loadType r ?i \<noteq> TypePadding
      then acc @ [(loadType r ?i, load_bytes (data r) (?i + 8) (nat len - 8))] else acc)"
    have p8: "8 \<le> pad8 (nat len)" "nat len \<le> pad8 (nat len)"
      using 3(2) pad8_ge [of "nat len"] pad8_props(2) [of "nat len"] by auto
    have r1: "Capacity r1 = Capacity r" "rmask r1 = rmask r" "hdr r1 = hdr r"
      by (simp_all add: r1_def Capacity_def)
    have only: "only (data r) (data r1) ?i (pad8 (nat len))"
      unfolding r1_def using p8 by (intro clear_record_only)
    have mem: "(Capacity r \<le> j \<longrightarrow> data r1 j = data r j) \<and> (data r j = 0 \<longrightarrow> data r1 j = 0)" for j
      using only 3(5) clear_record_zero [of ?i j "pad8 (nat len)" r]
      by (cases "?i \<le> j \<and> j < ?i + pad8 (nat len)") (auto simp: only_def r1_def)
    have l8: "8 + (nat len - 8) \<le> Capacity r" using 3(2,5) p8 by linarith
    have acc1: "list_all (\<lambda>m. 8 + length (snd m) \<le> Capacity r) acc1" "int (length acc1) \<le> limit"
      "length acc \<le> length acc1"
      using less.prems(4) 3(4) l8 by (auto simp: acc1_def)
    have run: "read_loop r1 h av limit (consumed + pad8 (nat len)) acc1 = (r', consumed', out, e)"
      using less.prems(3) 3(7) by (simp add: r1_def acc1_def)
    have "av - (consumed + pad8 (nat len)) < av - consumed" using 3(6) p8 by linarith
    from less.hyps [OF this _ less.prems(2) run] less.prems(1) acc1(1)
    have "(e = None \<or> e = Some ErrCorrupt) \<and> rmask r' = rmask r1 \<and> hdr r' = hdr r1 \<and>
      list_all (\<lambda>m. 8 + length (snd m) \<le> Capacity r) out \<and>
      (length out = length acc1 \<or> int (length out) \<le> limit) \<and>
      (\<forall>j. (Capacity r \<le> j \<longrightarrow> data r' j = data r1 j) \<and> (data r1 j = 0 \<longrightarrow> data r' j = 0))"
      by (simp add: r1)
    with r1 mem acc1(2) show ?thesis by auto
  qed
qed

lemma Read_safe:
  assumes "Capacity r = 2 ^ k" "k \<le> 31" "Read r limit = (r', out, e)"
  shows "e = None \<or> e = Some ErrCorrupt" "rmask r' = rmask r"
    "list_all (\<lambda>m. 8 + length (snd m) \<le> Capacity r) out" "int (length out) \<le> max 0 limit"
    "\<And>j. Capacity r \<le> j \<Longrightarrow> data r' j = data r j" "\<And>j. data r j = 0 \<Longrightarrow> data r' j = 0"
    "e \<noteq> None \<Longrightarrow> hdr r' = hdr r" "tail (hdr r') = tail (hdr r)"
proof -
  consider "limit \<le> 0" "r' = r" "out = []" "e = None"
    | r1 c where "0 < limit"
        "read_loop r (head (hdr r)) (sub64 (tail (hdr r)) (head (hdr r))) limit 0 [] = (r1, c, out, e)"
        "e = None \<Longrightarrow> r' = (if c > 0 then set_head r1 (add64 (head (hdr r)) c) else r1)"
        "e \<noteq> None \<Longrightarrow> r' = r1"
    using assms(3) by (auto simp: Read_def Let_def split: if_splits prod.splits option.splits)
  then have "(e = None \<or> e = Some ErrCorrupt) \<and> rmask r' = rmask r \<and>
    list_all (\<lambda>m. 8 + length (snd m) \<le> Capacity r) out \<and> int (length out) \<le> max 0 limit \<and>
    (\<forall>j. (Capacity r \<le> j \<longrightarrow> data r' j = data r j) \<and> (data r j = 0 \<longrightarrow> data r' j = 0)) \<and>
    (e \<noteq> None \<longrightarrow> hdr r' = hdr r) \<and> tail (hdr r') = tail (hdr r)"
  proof cases
    case 1
    then show ?thesis by simp
  next
    case (2 r1 c)
    from read_loop_safe [OF assms(1,2) 2(2)] 2 show ?thesis by (cases "e = None") auto
  qed
  then show "e = None \<or> e = Some ErrCorrupt" "rmask r' = rmask r"
    "list_all (\<lambda>m. 8 + length (snd m) \<le> Capacity r) out" "int (length out) \<le> max 0 limit"
    "\<And>j. Capacity r \<le> j \<Longrightarrow> data r' j = data r j" "\<And>j. data r j = 0 \<Longrightarrow> data r' j = 0"
    "e \<noteq> None \<Longrightarrow> hdr r' = hdr r" "tail (hdr r') = tail (hdr r)" by auto
qed

text \<open>
  When a record behind a readable one is corrupt, the readable one was passed on and zeroed,
  but \<open>head\<close> stays where it was: every later read stops there without an error.
\<close>

lemma Read_corrupt_stuck:
  assumes "Capacity r = 2 ^ k" "k \<le> 31" "Read r limit = (r', out, Some ErrCorrupt)" "out \<noteq> []"
  shows "Read r' limit' = (r', [], None)"
proof -
  let ?h = "head (hdr r)" and ?av = "sub64 (tail (hdr r)) (head (hdr r))"
  let ?i = "add64 ?h 0 AND rmask r"
  have run: "read_loop r ?h ?av limit 0 [] = (r', fst (snd (read_loop r ?h ?av limit 0 [])), out, Some ErrCorrupt)"
    using assms(3) by (auto simp: Read_def Let_def split: if_splits prod.splits option.splits)
  have cap: "Capacity r \<le> 2 ^ 31" using assms(1,2) power_increasing [of k 31 "2::nat"] by simp
  have i: "?i < Capacity r" using assms(1) by (rule mask_less)
  have "\<forall>j. ?i \<le> j \<and> j < ?i + 4 \<longrightarrow> data r' j = 0"
  proof (cases rule: read_loop_cases [OF cap refl i, of ?av limit "[]"])
    case 1
    with run show ?thesis by simp
  next
    case 2
    with run assms(4) show ?thesis by auto
  next
    case (3 len)
    define r1 where "r1 = clear_record r ?i (?i + pad8 (nat len))"
    define acc1 where "acc1 = (if loadType r ?i \<noteq> TypePadding
      then [] @ [(loadType r ?i, load_bytes (data r) (?i + 8) (nat len - 8))] else [])"
    have p8: "8 \<le> pad8 (nat len)" "nat len \<le> pad8 (nat len)"
      using 3(2) pad8_ge [of "nat len"] pad8_props(2) [of "nat len"] by auto
    have "list_all (\<lambda>m. 8 + length (snd m) \<le> Capacity r1) acc1"
      using 3(2,5) p8 by (auto simp: acc1_def r1_def Capacity_def)
    moreover have "Capacity r1 = 2 ^ k" using assms(1) by (simp add: r1_def Capacity_def)
    moreover have "read_loop r1 ?h ?av limit (0 + pad8 (nat len)) acc1 =
        (r', fst (snd (read_loop r ?h ?av limit 0 [])), out, Some ErrCorrupt)"
      using run 3(7) by (simp add: r1_def acc1_def)
    ultimately have "data r1 j = 0 \<longrightarrow> data r' j = 0" for j
      using read_loop_safe [of r1 k] assms(2) by blast
    moreover have "data r1 j = 0" if "?i \<le> j \<and> j < ?i + 4" for j
      unfolding r1_def by (rule clear_record_zero) (use that p8 in auto)
    ultimately show ?thesis by blast
  qed
  then have zero: "loadLength r' ?i = 0"
    unfolding loadLength_len_at by (intro len_at_zero) auto
  have "hdr r' = hdr r" "rmask r' = rmask r" using Read_safe(2,7) [OF assms(1-3)] by auto
  then have "read_loop r' ?h ?av limit' 0 [] = (r', 0, [], None)"
    using zero by (subst read_loop.simps) (simp add: Let_def)
  with \<open>hdr r' = hdr r\<close> show ?thesis by (simp add: Read_def)
qed

section \<open>Attachment\<close>

lemma and_pred_pow2: "0 < n \<Longrightarrow> n AND (n - 1) = 0 \<Longrightarrow> \<exists>k. n = 2 ^ (k::nat)" for n :: nat
proof (induction n rule: less_induct)
  case (less n)
  show ?case
  proof (cases "even n")
    case True
    then obtain m where m: "n = 2 * m" by auto
    have "m AND (m - 1) = 0"
    proof -
      have "n AND (n - 1) = of_bool (odd n \<and> odd (n - 1)) + 2 * ((n div 2) AND ((n - 1) div 2))"
        by (rule and_rec)
      moreover have "(n - 1) div 2 = m - 1" using m less.prems(1) by auto
      ultimately show ?thesis using less.prems(2) m by simp
    qed
    moreover have "0 < m" "m < n" using m less.prems(1) by auto
    ultimately obtain k where "m = 2 ^ k" using less.IH by blast
    then have "n = 2 ^ Suc k" using m by simp
    then show ?thesis ..
  next
    case False
    then obtain m where m: "n = 2 * m + 1" by (elim oddE)
    have "n AND (n - 1) = of_bool (odd n \<and> odd (n - 1)) + 2 * ((n div 2) AND ((n - 1) div 2))"
      by (rule and_rec)
    then have "m = 0" using less.prems(2) m by simp
    then show ?thesis using m by (intro exI [of _ 0]) simp
  qed
qed

lemma pow2_and_pred: "(2 ^ k :: nat) AND (2 ^ k - 1) = 0"
  by (simp only: nat_and_mask) simp

lemma AttachRing_fits:
  assumes "AttachRing buf = Inr r"
  shows "\<exists>k. Capacity r = 2 ^ k" "MinCapacity \<le> Capacity r" "RingSize (Capacity r) \<le> seg_len buf"
    "hdr r = seg_hdr buf" "data r = seg_data buf"
proof -
  let ?c = "capacity (seg_hdr buf)"
  have a: "MinCapacity \<le> ?c" "?c AND (?c - 1) = 0" "HeaderSize + ?c \<le> seg_len buf"
    "r = newRing (seg_hdr buf) (seg_data buf) ?c"
    using assms by (auto simp: AttachRing_def Let_def split: if_splits)
  then have cap: "Capacity r = ?c" by (simp add: Capacity_def newRing_def MinCapacity_def)
  show "\<exists>k. Capacity r = 2 ^ k"
    unfolding cap by (rule and_pred_pow2) (use a in \<open>simp_all add: MinCapacity_def\<close>)
  show "MinCapacity \<le> Capacity r" "RingSize (Capacity r) \<le> seg_len buf"
    "hdr r = seg_hdr buf" "data r = seg_data buf"
    using a cap by (simp_all add: RingSize_def newRing_def)
qed

text \<open>What another process maps after the ring's memory was written.\<close>

definition seg_of :: "segment \<Rightarrow> Ring \<Rightarrow> segment" where
  "seg_of buf r = buf\<lparr>seg_hdr := hdr r, seg_data := data r\<rparr>"

lemma attach_init:
  assumes "initRing buf c = Inr r"
  shows "AttachRing (seg_of buf r) = Inr r"
proof -
  let ?n = "seg_len buf - HeaderSize"
  let ?k = "Len64 ?n - 1"
  have n: "HeaderSize + 4096 \<le> seg_len buf" "seg_addr buf mod 8 = 0"
    using assms by (auto simp: initRing_def MinCapacity_def split: if_splits)
  have L: "2 ^ ?k \<le> ?n" "?n < 2 ^ Len64 ?n" using Len64_bounds [of ?n] n by auto
  have "(2::nat) ^ 12 = 4096" by simp
  then have "(2::nat) ^ 12 < 2 ^ Len64 ?n" using L n by linarith
  then have "12 < Len64 ?n" by (rule power_less_imp_less_exp [rotated]) simp
  then have "(2::nat) ^ 12 \<le> 2 ^ ?k" by (intro power_increasing) auto
  then have c: "\<not> 2 ^ ?k < MinCapacity" "\<not> seg_len buf < HeaderSize + 2 ^ ?k"
    using L(1) n(1) by (simp add: MinCapacity_def, linarith)
  have h: "magic (hdr r) = ringMagic" "version (hdr r) = ringVersion" "capacity (hdr r) = 2 ^ ?k"
    "r = newRing (hdr r) (data r) (2 ^ ?k)"
    using assms by (auto simp: initRing_def newRing_def Let_def split: if_splits)
  then show ?thesis
    using n c pow2_and_pred [of ?k]
    by (simp add: AttachRing_def seg_of_def Let_def MinCapacity_def)
qed

section \<open>A record within eight bytes of the 32-bit limit\<close>

text \<open>
  A ring of 4 GiB with one empty message of type 5 at its start, and the claim of a payload
  of the largest size that \<open>MaxMessageSize\<close> admits.
\<close>

definition big_ring :: Ring where
  "big_ring =
     \<lparr>hdr = \<lparr>magic = ringMagic, version = ringVersion, flags = 0, capacity = 2 ^ 32, consumer = 0,
             tail = 8, head = 0, headCache = 0, recvWaiters = 0, sendWaiters = 0, slots = []\<rparr>,
      data = put_len (put_type (\<lambda>_. 0) 0 5) 0 8,
      rmask = 2 ^ 32 - 1\<rparr>"

lemma big_ring_simps [simp]:
  "Capacity big_ring = 2 ^ 32" "rmask big_ring = 2 ^ 32 - 1" "tail (hdr big_ring) = 8"
  "head (hdr big_ring) = 0" "headCache (hdr big_ring) = 0"
  "data big_ring = put_len (put_type (\<lambda>_. 0) 0 5) 0 8"
  by (simp_all add: big_ring_def Capacity_def)

lemma big_ring_max: "MaxMessageSize big_ring = 2 ^ 31 - 9"
  by (simp add: MaxMessageSize_def RecordHeaderSize_def)

lemma big_ring_unread: "snd (TryRecv big_ring) = Inr (5, [])"
proof -
  let ?r = "clear_record big_ring 0 8"
  have len: "loadLength big_ring 0 = 8" by (simp add: loadLength_len_at i32_def)
  have ty: "loadType big_ring 0 = 5" by (simp add: loadType_type_at)
  have al: "align 8 = 8" by (simp add: align_eq)
  have "read_loop big_ring 0 8 1 0 [] = read_loop ?r 0 8 1 8 [(5, [])]"
    using len ty al
    by (subst read_loop.simps) (simp add: Let_def RecordHeaderSize_def add64_def TypePadding_def load_bytes_def)
  also have "\<dots> = (?r, 8, [(5, [])], None)" by (rule read_loop_stop) simp
  finally show ?thesis by (simp add: TryRecv_def Read_def sub64_def)
qed

lemma big_ring_overwrite:
  "\<exists>r' c. TryClaim big_ring 7 (2 ^ 31 - 9) = Some (r', Inr c) \<and> claim_index c = 0 \<and>
     TryRecv r' = (r', Inl ErrEmpty)"
proof -
  let ?al = "2 ^ 64 - 2 ^ 31 :: nat" and ?len = "2 ^ 31 - 1 :: int"
  have al: "align ?len = ?al" by (rule align_overflow) simp_all
  have idx: "(8::nat) AND rmask big_ring = 8" by simp
  have toEnd: "claim_toEnd big_ring 8 = 2 ^ 32 - 8" by (simp add: claim_toEnd_def)
  have need: "claim_need big_ring 8 ?al = 2 ^ 31 - 8"
    unfolding claim_need_def toEnd by (simp add: add64_def)
  define r1 where "r1 = set_tail big_ring (2 ^ 31)"
  have loop: "tryClaim_loop big_ring (-1) ?al = Some (Won r1 8)"
  proof -
    have "tryClaim_round big_ring (-1) ?al = Won r1 8"
      unfolding tryClaim_round_def Let_def big_ring_simps need
      by (simp add: hasRoom_def set_intent_def r1_def)
    then show ?thesis using tryClaim_loop_Some [of big_ring "-1" ?al] by simp
  qed
  have r1: "rmask r1 = 2 ^ 32 - 1" "Capacity r1 = 2 ^ 32" "tail (hdr r1) = 2 ^ 31" "head (hdr r1) = 0"
    by (simp_all add: r1_def Capacity_def)
  have need1: "claim_need r1 8 ?al = 2 ^ 31 - 8" "claim_toEnd r1 8 = 2 ^ 32 - 8"
    using need toEnd by (simp_all add: claim_need_def claim_toEnd_def Capacity_def r1_def)
  define r2 where "r2 = storeLength (storeType r1 8 TypePadding) 8 (i32 (2 ^ 32 - 8))"
  have place: "place_claim r1 8 ?al = Inr (r2, 0)"
    unfolding place_claim_def Let_def need1 r1 by (simp add: r2_def)
  define r3 where "r3 = storeLength (storeType r2 0 7) 0 (- ?len)"
  have open3: "open_record r2 0 (-1) 7 ?len =
      (r3, Inr \<lparr>claim_index = 0, claim_total = ?len, claim_slot = -1\<rparr>)"
    by (simp add: open_record_def Let_def Capacity_def r2_def r1 r3_def)
  have claim: "TryClaim big_ring 7 (2 ^ 31 - 9) =
      Some (r3, Inr \<lparr>claim_index = 0, claim_total = ?len, claim_slot = -1\<rparr>)"
  proof -
    have "i32 (int RecordHeaderSize + (2 ^ 31 - 9)) = ?len" by (simp add: RecordHeaderSize_def i32_def)
    then show ?thesis
      unfolding TryClaim_def tryClaim_def Let_def big_ring_max
      by (simp only: al loop place open3 option.case claim_round.case sum.case prod.case) (simp add: TypePadding_def)
  qed
  have "loadLength r3 0 = - ?len" by (simp add: loadLength_len_at r3_def i32_def)
  then have "read_loop r3 0 (2 ^ 31) 1 0 [] = (r3, 0, [], None)"
    by (intro read_loop_stop) (simp add: r3_def r2_def r1)
  then have "TryRecv r3 = (r3, Inl ErrEmpty)"
    by (simp add: TryRecv_def Read_def r3_def r2_def r1)
  with claim show ?thesis by auto
qed

end
