(* ===== verification/Ring_Props.thy ===== *)
theory Ring_Props
  imports Ring_Safety
begin

text \<open>
  The properties of the ring of \<^verbatim>\<open>src/ring.go\<close>, each with a witness on a ring of the smallest
  capacity.
\<close>

section \<open>A concrete ring\<close>

definition demo_segment :: segment where
  "demo_segment =
     \<lparr>seg_len = HeaderSize + 4096, seg_addr = 64,
      seg_hdr = \<lparr>magic = 0, version = 0, flags = 0, capacity = 0, consumer = 0, tail = 0, head = 0,
                 headCache = 0, recvWaiters = 0, sendWaiters = 0, slots = []\<rparr>,
      seg_data = (\<lambda>_. 7)\<rparr>"

definition demo_ring :: Ring where
  "demo_ring =
     \<lparr>hdr = \<lparr>magic = ringMagic, version = ringVersion, flags = 0, capacity = 4096, consumer = 0,
             tail = 0, head = 0, headCache = 0, recvWaiters = 0, sendWaiters = 0,
             slots = replicate ClaimSlots \<lparr>slot_owner = 0, slot_at = noIntent, slot_size = 0\<rparr>\<rparr>,
      data = clear_bytes (\<lambda>_. 7) 0 4096,
      rmask = 4095\<rparr>"

lemma demo_init: "initRing demo_segment 0 = Inr demo_ring"
  by (simp add: initRing_def demo_segment_def demo_ring_def MinCapacity_def newRing_def Len64.simps)

lemma demo_inv: "ring_inv demo_ring []"
  by (rule initRing_inv(1) [OF demo_init]) (simp add: demo_segment_def)

lemma demo_facts [simp]:
  "Capacity demo_ring = 4096" "tail (hdr demo_ring) = 0" "head (hdr demo_ring) = 0"
  "MaxMessageSize demo_ring = 2040" "0 < ring_room demo_ring"
  by (simp_all add: demo_ring_def Capacity_def MaxMessageSize_def RecordHeaderSize_def ring_room_def)

section \<open>Writing\<close>

text \<open>
  C1: A write of a payload that fits into the free space of the ring succeeds, and the ring
  then holds the messages it held before followed by the new one.
\<close>

theorem write_appends:
  assumes "ring_inv r es" "0 < ring_room r" "t \<noteq> TypePadding" "int (length p) \<le> MaxMessageSize r"
    and "span es + span (claim_entries r t (length p)) \<le> Capacity r"
  shows "\<exists>r' es'. tryWrite r sl t p = Some (r', Inr ()) \<and> ring_inv r' es' \<and>
    messages es' = messages es @ [(t, p)]"
proof -
  from tryWrite_ok [OF assms(1,3,4,5) ring_room_pos [OF assms(1,2,4)]]
  obtain r' where "tryWrite r sl t p = Some (r', Inr ())"
    "ring_inv r' (es @ claim_pad r (length p) @ [Committed t p])" by metis
  then show ?thesis
    by (intro exI [of _ r'] exI [of _ "es @ claim_pad r (length p) @ [Committed t p]"]) simp
qed

theorem write_appends_witness:
  "ring_inv demo_ring [] \<and> (\<exists>r' es'. tryWrite demo_ring 3 5 [1, 2, 3] = Some (r', Inr ()) \<and>
     ring_inv r' es' \<and> messages es' = [(5, [1, 2, 3])])"
  using write_appends [OF demo_inv, of 5 "[1, 2, 3]" 3] demo_inv
  by (simp add: claim_entries_def claim_pad_def pad8_def TypePadding_def)

text \<open>
  C2: A write that fails leaves the data region and the messages as they were, and its error
  says why: the reserved type, a payload above the maximum, or too little free space.
\<close>

theorem write_error:
  assumes "ring_inv r es" "0 < ring_room r" "tryWrite r sl t p = Some (r', Inl e)"
  shows "ring_inv r' es \<and> data r' = data r \<and>
    (if t = TypePadding then e = ErrReservedType
     else if MaxMessageSize r < int (length p) then e = ErrMessageTooLarge
     else e = ErrFull \<and> Capacity r < span es + span (claim_entries r t (length p)))"
  using assms(1,2)
  by (cases rule: tryWrite_cases [where t = t and p = p and sl = sl]) (use assms(1,3) in auto)

theorem write_error_witness:
  "\<exists>r'. tryWrite demo_ring 0 5 (replicate 3000 0) = Some (r', Inl ErrMessageTooLarge) \<and> ring_inv r' []"
proof -
  have w: "tryWrite demo_ring 0 5 (replicate 3000 0) = Some (demo_ring, Inl ErrMessageTooLarge)"
    by (simp add: tryWrite_def tryClaim_def TypePadding_def)
  show ?thesis using write_error [OF demo_inv _ w] w by simp
qed

text \<open>
  Every payload up to the maximum size fits into an empty ring, wherever its cursor is:
  the record and the padding before the wrap point together never exceed the capacity.
\<close>

theorem write_empty_succeeds:
  assumes "ring_inv r []" "0 < ring_room r" "t \<noteq> TypePadding" "int (length p) \<le> MaxMessageSize r"
  shows "\<exists>r'. tryWrite r sl t p = Some (r', Inr ())"
  using assms(1,2)
  by (cases rule: tryWrite_cases [where t = t and p = p and sl = sl])
    (use assms(3,4) claim_span_le [OF assms(1,4), of t] in auto)

theorem write_empty_succeeds_witness:
  "\<exists>r'. tryWrite demo_ring (-1) 9 (replicate 2040 1) = Some (r', Inr ())"
  using write_empty_succeeds [OF demo_inv, of 9 "replicate 2040 1" "-1"] by (simp add: TypePadding_def)

section \<open>Reading\<close>

text \<open>
  C3: A read returns without error the messages in front of the first unfinished claim, at
  most \<open>limit\<close> of them, in order; what it returns and what the ring still holds are together
  the messages it held before, and the bytes it passed are zero again.
\<close>

theorem read_takes_prefix:
  assumes "ring_inv r es"
  shows "\<exists>r' es'. Read r limit = (r', messages (take_ready (nat limit) es), None) \<and>
    ring_inv r' es' \<and> take_ready (nat limit) es @ es' = es \<and>
    messages es = messages (take_ready (nat limit) es) @ messages es'"
proof -
  from Read_spec [OF assms, of limit] obtain r' where
    "Read r limit = (r', messages (take_ready (nat limit) es), None)"
    "ring_inv r' (drop_ready (nat limit) es)" by metis
  moreover have "messages es = messages (take_ready (nat limit) es) @ messages (drop_ready (nat limit) es)"
    unfolding messages_simps(3) [symmetric] by (simp add: take_drop_ready)
  ultimately show ?thesis using take_drop_ready by blast
qed

lemma demo_one_message: "\<exists>r. tryWrite demo_ring 3 5 [1, 2, 3] = Some (r, Inr ()) \<and> ring_inv r [Committed 5 [1, 2, 3]]"
proof -
  have "claim_pad demo_ring (length [1, 2, 3 :: 8 word]) = []" by (simp add: claim_pad_def pad8_def)
  then show ?thesis
    using tryWrite_ok [OF demo_inv, of 5 "[1, 2, 3]" 3] ring_room_pos [OF demo_inv, of 3]
    by (fastforce simp: claim_entries_def claim_pad_def pad8_def TypePadding_def)
qed

theorem read_takes_prefix_witness:
  "\<exists>r r'. tryWrite demo_ring 3 5 [1, 2, 3] = Some (r, Inr ()) \<and> Read r 7 = (r', [(5, [1, 2, 3])], None) \<and>
     ring_inv r' []"
proof -
  obtain r where r: "tryWrite demo_ring 3 5 [1, 2, 3] = Some (r, Inr ())" "ring_inv r [Committed 5 [1, 2, 3]]"
    using demo_one_message by blast
  have "take_ready 7 [Committed 5 [1, 2, 3]] = [Committed 5 [1, 2, 3]]" by (simp add: numeral_eq_Suc)
  then show ?thesis using r read_takes_prefix [OF r(2), of 7] by auto
qed

text \<open>
  The reader never passes a claim that is not committed: whatever the limit, a read
  returns only messages written before the claim.
\<close>

theorem read_stops_at_claim:
  assumes "ring_inv r (xs @ e # ys)" "e = Claimed t l \<or> e = Reserved n"
  shows "\<exists>r' out rest. Read r limit = (r', out, None) \<and> messages xs = out @ rest"
proof -
  have "\<exists>rest. messages xs = messages (take_ready k (xs @ e # ys)) @ rest" for k
    using assms(2) by (induction k xs rule: take_ready.induct) (auto elim: disjE)
  then show ?thesis using Read_spec [OF assms(1), of limit] by metis
qed

theorem read_stops_at_claim_witness:
  "\<exists>r' r'' out. tryClaim demo_ring 0 5 3 = Some (r', Inr \<lparr>claim_index = 0, claim_total = 11, claim_slot = 0\<rparr>) \<and>
     Read r' 10 = (r'', out, None) \<and> out = []"
proof -
  obtain r' where r': "tryClaim demo_ring 0 5 (int 3) =
      Some (r', Inr \<lparr>claim_index = (head (hdr demo_ring) + span ([] @ claim_pad demo_ring 3)) mod Capacity demo_ring,
                     claim_total = int (8 + 3), claim_slot = 0\<rparr>)"
    "ring_inv r' ([] @ claim_entries demo_ring 5 3)"
    by (rule tryClaim_ok [OF demo_inv, of 5 3 0])
      (simp_all add: TypePadding_def claim_entries_def claim_pad_def pad8_def)
  have "ring_inv r' ([] @ Claimed 5 3 # [])" using r'(2) by (simp add: claim_entries_def claim_pad_def pad8_def)
  from read_stops_at_claim [OF this, of 5 3 0 10] r'(1) show ?thesis
    by (auto simp: claim_pad_def pad8_def)
qed

text \<open>
  C4: Committing a claim publishes exactly its payload in its place among the messages, and
  aborting it publishes nothing; neither changes any other entry of the ring.
\<close>

theorem commit_abort:
  assumes "ring_inv r (xs @ Claimed t l # ys)" "claim_of r c xs l" "length p = l"
  shows "ring_inv (Commit (fill r c p) c) (xs @ Committed t p # ys) \<and>
    ring_inv (Abort (fill r c p) c) (xs @ Padding (pad8 (8 + l)) # ys)"
proof -
  have "ring_inv (fill r c p) (xs @ Claimed t l # ys)" by (rule fill_inv [OF assms(1,2)])
  moreover have "claim_of (fill r c p) c xs l" using assms(2) by (simp add: claim_of_def Capacity_def)
  ultimately have "ring_inv (Abort (fill r c p) c) (xs @ Padding (pad8 (8 + l)) # ys)"
    by (rule Abort_inv)
  with Commit_inv [OF assms] show ?thesis ..
qed

theorem commit_abort_witness:
  "\<exists>r' c. tryClaim demo_ring 0 5 3 = Some (r', Inr c) \<and>
     ring_inv (Commit (fill r' c [7, 8, 9]) c) [Committed 5 [7, 8, 9]]"
proof -
  let ?c = "\<lparr>claim_index = (head (hdr demo_ring) + span ([] @ claim_pad demo_ring 3)) mod Capacity demo_ring,
             claim_total = int (8 + 3), claim_slot = 0\<rparr>"
  obtain r' where r': "tryClaim demo_ring 0 5 (int 3) = Some (r', Inr ?c)"
    "ring_inv r' ([] @ claim_entries demo_ring 5 3)" "head (hdr r') = head (hdr demo_ring)"
    by (rule tryClaim_ok [OF demo_inv, of 5 3 0])
      (simp_all add: TypePadding_def claim_entries_def claim_pad_def pad8_def)
  have inv: "ring_inv r' ([] @ Claimed 5 3 # [])"
    using r'(2) by (simp add: claim_entries_def claim_pad_def pad8_def)
  have "claim_of r' ?c [] 3" using r'(3) by (simp add: claim_of_def claim_pad_def pad8_def)
  from commit_abort [OF inv this, of "[7, 8, 9]"] r'(1) show ?thesis by auto
qed

section \<open>The ring as a queue\<close>

text \<open>
  C5: In every sequence of writes and receives on a ring with no open claim, the accepted
  messages are delivered once each and in order: what was queued, followed by what was
  accepted, is what was delivered followed by what is still queued.
\<close>

theorem ring_fifo_order:
  assumes "ring_rel r q" "length ops \<le> ring_room r"
    and "run_ops ring_push ring_pop r ops = (r', accepted, delivered)"
  shows "\<exists>q'. ring_rel r' q' \<and> q @ accepted = delivered @ q'"
  using assms by (rule ring_fifo.run_fifo)

theorem ring_fifo_order_witness:
  "\<exists>r' accepted delivered q'. run_ops ring_push ring_pop demo_ring [Push (5, [1]), Pop, Pop] =
     (r', accepted, delivered) \<and> ring_rel r' q' \<and> accepted = delivered @ q'"
proof -
  have rel: "ring_rel demo_ring []" using demo_inv by (auto simp: ring_rel_def quiet_def)
  have room: "length [Push (5, [1]), Pop, Pop] \<le> ring_room demo_ring" by (simp add: ring_room_def)
  obtain r' accepted delivered where
    run: "run_ops ring_push ring_pop demo_ring [Push (5, [1]), Pop, Pop] = (r', accepted, delivered)"
    by (metis prod_cases3)
  from ring_fifo_order [OF rel room run] run show ?thesis by auto
qed

text \<open>
  As many receives as there are messages drain a ring with no open claim: they return
  exactly those messages, in order, and leave the ring empty.
\<close>

theorem ring_drains:
  assumes "ring_rel r q"
  shows "\<exists>r'. run_ops ring_push ring_pop r (replicate (length q) Pop) = (r', [], q) \<and> ring_rel r' []"
  using assms by (rule ring_fifo.drain)

theorem ring_drains_witness:
  "\<exists>r r'. ring_rel r [(5, [1, 2])] \<and>
     run_ops ring_push ring_pop r [Pop] = (r', [], [(5, [1, 2])]) \<and> ring_rel r' []"
proof -
  obtain r where "tryWrite demo_ring (-1) 5 [1, 2] = Some (r, Inr ())"
    "ring_inv r ([] @ claim_pad demo_ring (length [1, 2 :: byte]) @ [Committed 5 [1, 2]])"
    by (rule tryWrite_ok [OF demo_inv, of 5 "[1, 2]" "-1"])
      (simp_all add: TypePadding_def claim_entries_def claim_pad_def pad8_def)
  then have rel: "ring_rel r [(5, [1, 2])]"
    unfolding ring_rel_def
    by (intro exI [of _ "[Committed 5 [1, 2]]"]) (simp add: quiet_def claim_pad_def pad8_def)
  from ring_drains [OF rel] rel show ?thesis by auto
qed

section \<open>Hostile memory, attachment, limits\<close>


text \<open>The demo ring with a length field of 3 (less than a header) behind a whole record.\<close>

definition corrupt_ring :: Ring where
  "corrupt_ring =
     set_tail (demo_ring\<lparr>data := put_len (put_len (put_type (\<lambda>_. 0) 0 5) 0 8) 8 3\<rparr>) 64"

lemma corrupt_ring_read:
  "Read corrupt_ring 10 = (clear_record corrupt_ring 0 8, [(5, [])], Some ErrCorrupt)"
proof -
  let ?r = "clear_record corrupt_ring 0 8"
  have m: "data corrupt_ring = put_len (put_len (put_type (\<lambda>_. 0) 0 5) 0 8) 8 3"
    "rmask corrupt_ring = 4095" "Capacity corrupt_ring = 4096" "head (hdr corrupt_ring) = 0"
    "tail (hdr corrupt_ring) = 64"
    by (simp_all add: corrupt_ring_def demo_ring_def Capacity_def)
  have "loadLength corrupt_ring 0 = 8"
    unfolding loadLength_len_at m by (simp add: len_at_def put_len_def load_store_disjoint le_val_le_bytes i32_def)
  moreover have "loadType corrupt_ring 0 = 5"
    unfolding loadType_type_at m
    by (simp add: type_at_def put_len_def put_type_def load_store_disjoint le_val_le_bytes)
  moreover have "align 8 = 8" by (simp add: align_eq)
  ultimately have "read_loop corrupt_ring 0 64 10 0 [] = read_loop ?r 0 64 10 8 [(5, [])]"
    using m by (subst read_loop.simps)
      (simp add: Let_def RecordHeaderSize_def add64_def TypePadding_def load_bytes_def)
  also have "\<dots> = (?r, 8, [(5, [])], Some ErrCorrupt)"
  proof -
    have "loadLength ?r 8 = 3"
      unfolding loadLength_len_at
      by (simp add: clear_record_def m len_at_def put_len_def load_store_disjoint load_clear_disjoint
          le_val_le_bytes i32_def)
    then show ?thesis
      by (subst read_loop.simps) (simp add: Let_def RecordHeaderSize_def add64_def m)
  qed
  finally show ?thesis by (simp add: Read_def m)
qed


text \<open>
  C7: After a read that passed on a message and then met a corrupt record, the error is
  not reported again: every later read returns nothing and no error, although the ring still
  counts the bytes, because the records passed on were zeroed and \<open>head\<close> was not moved.
\<close>

theorem corruption_reported_once:
  assumes "Capacity r = 2 ^ k" "k \<le> 31" "Read r limit = (r', out, Some ErrCorrupt)" "out \<noteq> []"
  shows "Read r' limit' = (r', [], None) \<and> head (hdr r') = head (hdr r)"
  using Read_corrupt_stuck [OF assms] Read_safe(7) [OF assms(1-3)] by simp

theorem corruption_reported_once_witness:
  "\<exists>r'. Read corrupt_ring 10 = (r', [(5, [])], Some ErrCorrupt) \<and> Read r' 10 = (r', [], None)"
proof -
  have cap: "Capacity corrupt_ring = 2 ^ 12" by (simp add: corrupt_ring_def demo_ring_def Capacity_def)
  from corruption_reported_once [OF cap _ corrupt_ring_read, of 10] corrupt_ring_read show ?thesis by simp
qed

text \<open>
  C8: Attaching to the memory of a ring just made gives the same ring, and whatever memory
  an attach accepts has a capacity that is a power of two, at least the minimum, and inside
  the buffer.
\<close>

theorem attach_ring:
  assumes "initRing buf c = Inr r"
  shows "AttachRing (seg_of buf r) = Inr r \<and>
    (\<forall>buf2 r2. AttachRing buf2 = Inr r2 \<longrightarrow>
      (\<exists>k. Capacity r2 = 2 ^ k) \<and> MinCapacity \<le> Capacity r2 \<and> RingSize (Capacity r2) \<le> seg_len buf2)"
  using attach_init [OF assms] AttachRing_fits by blast

theorem attach_ring_witness: "AttachRing (seg_of demo_segment demo_ring) = Inr demo_ring"
  using attach_ring [OF demo_init] by blast

text \<open>
  A ring made in a large enough aligned buffer below 4 GiB is empty and satisfies the
  invariant, and its capacity is the largest power of two that fits behind the header.
\<close>

theorem init_ring:
  assumes "HeaderSize + MinCapacity \<le> seg_len buf" "seg_addr buf mod 8 = 0" "seg_len buf < HeaderSize + 2 ^ 32"
  shows "\<exists>r. initRing buf c = Inr r \<and> ring_inv r [] \<and> consumer (hdr r) = c \<and>
    RingSize (Capacity r) \<le> seg_len buf \<and> seg_len buf < RingSize (2 * Capacity r)"
proof -
  let ?n = "seg_len buf - HeaderSize"
  obtain r where r: "initRing buf c = Inr r"
    using assms(1,2) by (simp add: initRing_def Let_def)
  have L: "?n < 2 ^ Len64 ?n" "0 < Len64 ?n"
    using Len64_bounds [of ?n] assms(1) by (auto simp: MinCapacity_def Len64.simps [of ?n])
  have "Capacity r = 2 ^ (Len64 ?n - 1)" "consumer (hdr r) = c"
    using r assms(1,2) by (auto simp: initRing_def newRing_def Let_def Capacity_def)
  moreover from L(2) have "2 * 2 ^ (Len64 ?n - 1) = (2::nat) ^ Len64 ?n" by (cases "Len64 ?n") auto
  moreover have "seg_len buf < HeaderSize + 2 ^ Len64 ?n" using L(1) assms(1) by linarith
  ultimately show ?thesis
    using r initRing_inv [OF r assms(3)] by (auto simp: RingSize_def)
qed

theorem init_ring_witness: "\<exists>r. initRing demo_segment 9 = Inr r \<and> ring_inv r []"
  using init_ring [of demo_segment 9] by (auto simp: demo_segment_def MinCapacity_def)

text \<open>
  C9: In a ring of 4 GiB the largest payload that \<open>MaxMessageSize\<close> admits overflows the
  32-bit rounding of its record size: the claim succeeds, but its record starts at data index
  0 instead of at its own cursor and destroys the unread message stored there.
\<close>

theorem largest_claim_overwrites:
  "MaxMessageSize big_ring = 2 ^ 31 - 9 \<and> snd (TryRecv big_ring) = Inr (5, []) \<and>
   (\<exists>r' c. TryClaim big_ring 7 (MaxMessageSize big_ring) = Some (r', Inr c) \<and> claim_index c = 0 \<and>
      TryRecv r' = (r', Inl ErrEmpty))"
  using big_ring_max big_ring_unread big_ring_overwrite by simp

end
