(* ===== verification/Gate.thy ===== *)
theory Gate
  imports Ipc_Prelude
begin

text \<open>
  The gate that keeps a queue mapped while operations use it: \<open>enter\<close>, \<open>leave\<close> and the wait
  in \<open>Close\<close> of \<^verbatim>\<open>src/queue.go\<close>, with every atomic access a step of its own. Any number of
  goroutines run operations, each as often as it likes, while one goroutine closes.
\<close>

section \<open>Steps\<close>

text \<open>
  Where an operation stands: outside; behind the increment of \<open>active\<close>; behind the test of
  \<open>closing\<close>, using the mapping; about to decrement; behind a decrement that reached zero; and
  behind a test of \<open>closing\<close> that held, about to send on \<open>drained\<close>.
\<close>

datatype op_pc = Outside | Counted | Inside | Leaving | Zero | Notify

text \<open>
  Where \<open>Close\<close> stands: not called; behind the store of \<open>closing\<close>; waiting on \<open>drained\<close>; and
  past the wait, where it unmaps the segment.
\<close>

datatype close_pc = Open | Closing | Draining | Unmapped

text \<open>
  \<open>overlap\<close> is an observer of the model: it records whether some operation stood between the
  decrement and the test of \<open>closing\<close> in \<open>leave\<close> when \<open>closing\<close> was set.
\<close>

record gate =
  active :: int
  closing :: bool
  drained :: bool
  ops :: "op_pc list"
  closer :: close_pc
  overlap :: bool

definition gate_init :: "nat \<Rightarrow> gate" where
  "gate_init n = \<lparr>active = 0, closing = False, drained = False, ops = replicate n Outside, closer = Open, overlap = False\<rparr>"

abbreviation move :: "gate \<Rightarrow> nat \<Rightarrow> op_pc \<Rightarrow> gate" where
  "move g i pc \<equiv> g\<lparr>ops := (ops g)[i := pc]\<rparr>"

abbreviation at :: "gate \<Rightarrow> nat \<Rightarrow> op_pc \<Rightarrow> bool" where
  "at g i pc \<equiv> i < length (ops g) \<and> ops g ! i = pc"

inductive gate_step :: "gate \<Rightarrow> gate \<Rightarrow> bool" where
  enter_add: "at g i Outside \<Longrightarrow> gate_step g (move g i Counted\<lparr>active := active g + 1\<rparr>)"
| enter_load: "at g i Counted \<Longrightarrow> gate_step g (move g i (if closing g then Leaving else Inside))"
| op_end: "at g i Inside \<Longrightarrow> gate_step g (move g i Leaving)"
| leave_add: "at g i Leaving \<Longrightarrow>
    gate_step g (move g i (if active g - 1 = 0 then Zero else Outside)\<lparr>active := active g - 1\<rparr>)"
| leave_load: "at g i Zero \<Longrightarrow> gate_step g (move g i (if closing g then Notify else Outside))"
| leave_send: "at g i Notify \<Longrightarrow> gate_step g (move g i Outside\<lparr>drained := True\<rparr>)"
| close_set: "closer g = Open \<Longrightarrow>
    gate_step g (g\<lparr>closing := True, closer := Closing, overlap := Zero \<in> set (ops g)\<rparr>)"
| close_load: "closer g = Closing \<Longrightarrow> gate_step g (g\<lparr>closer := if active g > 0 then Draining else Unmapped\<rparr>)"
| close_recv: "closer g = Draining \<Longrightarrow> drained g \<Longrightarrow> gate_step g (g\<lparr>drained := False, closer := Unmapped\<rparr>)"

inductive_cases gate_stepE: "gate_step g g'"

abbreviation gate_reach :: "gate \<Rightarrow> gate \<Rightarrow> bool" where
  "gate_reach \<equiv> gate_step\<^sup>*\<^sup>*"

text \<open>A run of the gate by a schedule that names who moves: the operations and the closer.\<close>

datatype mover = Op nat | Closer

fun gate_move :: "gate \<Rightarrow> mover \<Rightarrow> gate option" where
  "gate_move g (Op i) =
     (if i < length (ops g) then
        Some (case ops g ! i of
          Outside \<Rightarrow> move g i Counted\<lparr>active := active g + 1\<rparr>
        | Counted \<Rightarrow> move g i (if closing g then Leaving else Inside)
        | Inside \<Rightarrow> move g i Leaving
        | Leaving \<Rightarrow> move g i (if active g - 1 = 0 then Zero else Outside)\<lparr>active := active g - 1\<rparr>
        | Zero \<Rightarrow> move g i (if closing g then Notify else Outside)
        | Notify \<Rightarrow> move g i Outside\<lparr>drained := True\<rparr>)
      else None)"
| "gate_move g Closer =
     (case closer g of
        Open \<Rightarrow> Some (g\<lparr>closing := True, closer := Closing, overlap := Zero \<in> set (ops g)\<rparr>)
      | Closing \<Rightarrow> Some (g\<lparr>closer := if active g > 0 then Draining else Unmapped\<rparr>)
      | Draining \<Rightarrow> if drained g then Some (g\<lparr>drained := False, closer := Unmapped\<rparr>) else None
      | Unmapped \<Rightarrow> None)"

fun gate_run :: "gate \<Rightarrow> mover list \<Rightarrow> gate option" where
  "gate_run g [] = Some g"
| "gate_run g (m # ms) = (case gate_move g m of None \<Rightarrow> None | Some g' \<Rightarrow> gate_run g' ms)"

lemma gate_move_step:
  assumes "gate_move g m = Some g'"
  shows "gate_step g g'"
proof (cases m)
  case (Op i)
  then have "i < length (ops g)" using assms by (auto split: if_splits)
  then show ?thesis using assms gate_step.intros(1-6) [of i g]
    by (cases "ops g ! i") (simp_all only: Op gate_move.simps if_True op_pc.case option.inject)
next
  case Closer
  then show ?thesis using assms gate_step.intros(7-9) [of g]
    by (cases "closer g") (auto simp del: if_split split: if_split_asm)
qed

lemma gate_run_reach: "gate_run g ms = Some g' \<Longrightarrow> gate_reach g g'"
  by (induction g ms rule: gate_run.induct)
    (auto split: option.splits dest: gate_move_step intro: converse_rtranclp_into_rtranclp)

section \<open>Invariants\<close>

text \<open>\<open>active\<close> counts the operations between their increment and their decrement.\<close>

definition counted :: "op_pc \<Rightarrow> bool" where
  "counted pc \<longleftrightarrow> pc \<in> {Counted, Inside, Leaving}"

lemma counted_simps [simp]:
  "counted Counted" "counted Inside" "counted Leaving" "\<not> counted Outside" "\<not> counted Zero" "\<not> counted Notify"
  by (simp_all add: counted_def)

definition number :: "op_pc list \<Rightarrow> int" where
  "number pcs = int (count_if counted pcs)"

lemma number_update:
  "i < length pcs \<Longrightarrow>
    number (pcs[i := pc]) = number pcs - of_bool (counted (pcs ! i)) + of_bool (counted pc)"
  using count_if_update [of i pcs counted pc] by (auto simp: number_def split: if_splits)

lemma number_pos: "x \<in> set pcs \<Longrightarrow> counted x \<Longrightarrow> 0 < number pcs"
  by (simp add: number_def count_if_pos)

lemma number_zero: "number pcs \<le> 0 \<longleftrightarrow> (\<forall>x \<in> set pcs. \<not> counted x)"
  by (simp add: number_def count_if_zero [symmetric])

definition gate_count :: "gate \<Rightarrow> bool" where
  "gate_count g \<longleftrightarrow> active g = number (ops g) \<and> (closing g \<longleftrightarrow> closer g \<noteq> Open) \<and>
     (Notify \<in> set (ops g) \<or> drained g \<longrightarrow> closing g)"

lemma gate_count_step: "gate_step g g' \<Longrightarrow> gate_count g \<Longrightarrow> gate_count g'"
  by (induction rule: gate_step.induct) (auto simp: gate_count_def number_update dest: set_update_cases at_mem)

text \<open>The closer that waits has a token, or an operation that will send one.\<close>

definition gate_live :: "gate \<Rightarrow> bool" where
  "gate_live g \<longleftrightarrow> (closer g = Draining \<longrightarrow>
     drained g \<or> 0 < active g \<or> Zero \<in> set (ops g) \<or> Notify \<in> set (ops g))"

lemma gate_live_step: "gate_step g g' \<Longrightarrow> gate_count g \<Longrightarrow> gate_live g \<Longrightarrow> gate_live g'"
proof (induction rule: gate_step.induct)
  case (leave_add g i)
  then have "0 < active g" using number_pos [of Leaving "ops g"] nth_mem [of i "ops g"]
    by (auto simp: gate_count_def)
  then show ?case using leave_add by (auto simp: gate_live_def mem_update_same)
qed (auto simp: gate_live_def gate_count_def mem_update_same dest: mem_update_other)

text \<open>
  Unless \<open>overlap\<close>, every sign that lets the closer go on means that no operation is inside:
  an operation that reads zero after \<open>closing\<close> is set was the last.
\<close>

definition gate_safe :: "gate \<Rightarrow> bool" where
  "gate_safe g \<longleftrightarrow> (closing g \<and> \<not> overlap g \<and>
     (Zero \<in> set (ops g) \<or> Notify \<in> set (ops g) \<or> drained g \<or> closer g = Unmapped) \<longrightarrow> Inside \<notin> set (ops g))"

lemma gate_safe_step: "gate_step g g' \<Longrightarrow> gate_count g \<Longrightarrow> gate_safe g \<Longrightarrow> gate_safe g'"
proof (induction rule: gate_step.induct)
  case (leave_add g i)
  let ?pcs = "(ops g)[i := if active g - 1 = 0 then Zero else Outside]"
  have "active g - 1 = number ?pcs"
    using leave_add by (auto simp: gate_count_def number_update)
  then have "Inside \<notin> set ?pcs" if "active g - 1 = 0"
    using that number_zero [of ?pcs] by auto
  then show ?case using leave_add by (auto simp: gate_safe_def dest: set_update_cases)
next
  case (close_set g)
  then show ?case by (auto simp: gate_safe_def gate_count_def)
next
  case (close_load g)
  then show ?case using number_zero [of "ops g"] by (auto simp: gate_safe_def gate_count_def)
qed (auto simp: gate_safe_def dest: set_update_cases at_mem)

lemma gate_inv_init: "gate_count (gate_init n)" "gate_live (gate_init n)" "gate_safe (gate_init n)"
  by (simp_all add: gate_count_def gate_live_def gate_safe_def gate_init_def number_def count_if_def filter_empty_conv)

lemma gate_reach_inv:
  assumes "gate_reach (gate_init n) g"
  shows "gate_count g \<and> gate_live g \<and> gate_safe g"
  using assms
  by (induction rule: rtranclp_induct)
    (auto simp: gate_inv_init intro: gate_count_step gate_live_step gate_safe_step)

section \<open>Properties\<close>

text \<open>
  C18: Close does not wait for ever: once it waits for the operations and all of them have
  gone, the token it waits for is there and it goes on to unmap the segment.
\<close>

theorem close_drains:
  assumes "gate_reach (gate_init n) g" "closer g = Draining" "\<forall>pc \<in> set (ops g). pc = Outside"
  shows "\<exists>g'. gate_step g g' \<and> closer g' = Unmapped"
proof -
  have "gate_count g" "gate_live g" using gate_reach_inv [OF assms(1)] by simp_all
  moreover have "number (ops g) \<le> 0" using assms(3) number_zero by auto
  ultimately have "drained g" using assms(2,3) by (auto simp: gate_live_def gate_count_def)
  then show ?thesis using close_recv [OF assms(2)] by auto
qed

theorem close_drains_witness:
  "\<exists>g g'. gate_run (gate_init 1) [Op 0, Op 0, Closer, Closer, Op 0, Op 0, Op 0, Op 0] = Some g \<and>
     gate_step g g' \<and> closer g' = Unmapped"
proof -
  obtain g where g: "gate_run (gate_init 1) [Op 0, Op 0, Closer, Closer, Op 0, Op 0, Op 0, Op 0] = Some g"
    "closer g = Draining" "ops g = [Outside]"
    by (simp add: gate_init_def)
  from close_drains [OF gate_run_reach [OF g(1)] g(2)] g(1,3) show ?thesis by auto
qed

text \<open>
  C19: Close unmaps the segment only when no operation is using it, provided no operation
  stood between the decrement and the test of leave at the moment Close set closing.
\<close>

theorem unmap_after_ops:
  assumes "gate_reach (gate_init n) g" "closer g = Unmapped" "\<not> overlap g"
  shows "Inside \<notin> set (ops g) \<and> (\<forall>g'. gate_reach g g' \<longrightarrow> Inside \<notin> set (ops g'))"
proof -
  have stays: "closer g' = Unmapped \<and> \<not> overlap g'" if "gate_reach g g'" for g'
    using that assms(2,3) by (induction rule: rtranclp_induct) (auto elim!: gate_stepE)
  have "Inside \<notin> set (ops g')" if "gate_reach g g'" for g'
    using gate_reach_inv [OF rtranclp_trans [OF assms(1) that]] stays [OF that]
    by (auto simp: gate_safe_def gate_count_def)
  then show ?thesis by blast
qed

theorem unmap_after_ops_witness:
  "\<exists>g. gate_run (gate_init 1) [Op 0, Op 0, Closer, Closer, Op 0, Op 0, Op 0, Op 0, Closer] = Some g \<and>
     (\<forall>g'. gate_reach g g' \<longrightarrow> Inside \<notin> set (ops g'))"
proof -
  obtain g where g: "gate_run (gate_init 1) [Op 0, Op 0, Closer, Closer, Op 0, Op 0, Op 0, Op 0, Closer] = Some g"
    "closer g = Unmapped" "\<not> overlap g"
    by (simp add: gate_init_def)
  from unmap_after_ops [OF gate_run_reach [OF g(1)] g(2,3)] g(1) show ?thesis by blast
qed

text \<open>
  C20: Without that proviso the gate fails: with two operations, Close can unmap the segment
  while one of them is using it.
\<close>

theorem unmap_under_operation:
  "\<exists>g. gate_reach (gate_init 2) g \<and> closer g = Unmapped \<and> Inside \<in> set (ops g)"
proof -
  let ?ms = "[Op 0, Op 0, Op 0, Op 0, Op 1, Op 1, Closer, Closer, Op 0, Op 0, Closer]"
  obtain g where "gate_run (gate_init 2) ?ms = Some g" "closer g = Unmapped" "Inside \<in> set (ops g)"
    by (simp add: gate_init_def numeral_2_eq_2)
  then show ?thesis using gate_run_reach by blast
qed

end
