(* ===== verification/Event.thy ===== *)
theory Event
  imports Ipc_Prelude
begin

text \<open>
  The wake events of \<^verbatim>\<open>src/event.go\<close> on a FIFO, \<^verbatim>\<open>src/event_unix.go\<close>: the tokens in the
  pipe, the pool of reader handles of a process, and the wait of one goroutine. What the
  kernel answers is an argument: the record \<open>pipe\<close> has the size of the FIFO and the error of a
  write other than \<open>EAGAIN\<close>, and \<open>close_errs\<close> the errors of the closes. POSIX says that a write
  of at most \<open>PIPE_BUF\<close> bytes to a nonblocking pipe happens as a whole or fails.
\<close>

section \<open>State\<close>

definition pipeBuf :: nat where "pipeBuf = 4096"

text \<open>
  A reader handle is named by a number; \<open>past\<close> holds the readers whose read deadline is in
  the past, and \<open>shut\<close> those whose file is closed. \<open>tokens\<close> is the pipe, which the handles
  of every process share.
\<close>

record eventImpl =
  tokens :: nat
  gone :: bool
  idle :: "nat list"
  open_readers :: "nat list"
  closed :: bool
  past :: "nat \<Rightarrow> bool"
  shut :: "nat \<Rightarrow> bool"
  write_open :: bool

definition new_eventImpl :: "nat \<Rightarrow> eventImpl" where
  "new_eventImpl n = \<lparr>tokens = n, gone = False, idle = [], open_readers = [], closed = False,
     past = (\<lambda>_. False), shut = (\<lambda>_. False), write_open = True\<rparr>"

section \<open>Signalling\<close>

text \<open>A write that does not fit fails with \<open>EAGAIN\<close>, which the code drops: the tokens stay as they are.\<close>

definition pipe_write :: "nat \<Rightarrow> nat \<Rightarrow> nat \<Rightarrow> nat" where
  "pipe_write cap t n = (if t + n \<le> cap then t + n else t)"

text \<open>
  \<open>pipe_err\<close> is the first error of \<open>SyscallConn\<close>, of the call of \<open>Write\<close> on it, or of the write
  itself when that is neither \<open>EAGAIN\<close> nor \<open>EWOULDBLOCK\<close>.
\<close>

record pipe =
  pipe_cap :: nat
  pipe_err :: "ipc_error option"

definition signal :: "pipe \<Rightarrow> eventImpl \<Rightarrow> nat \<Rightarrow> eventImpl \<times> ipc_error option" where
  "signal pp e n =
     (let n = (if n > pipeBuf then pipeBuf else n) in
      if gone e then (e, Some ErrClosed)
      else case pipe_err pp of
             Some err \<Rightarrow> (e, Some err)
           | None \<Rightarrow> (e\<lparr>tokens := pipe_write (pipe_cap pp) (tokens e) n\<rparr>, None))"

definition SignalN :: "pipe \<Rightarrow> eventImpl \<Rightarrow> int \<Rightarrow> eventImpl \<times> ipc_error option" where
  "SignalN pp e n = (if n \<le> 0 then (e, None) else signal pp e (nat n))"

definition Signal :: "pipe \<Rightarrow> eventImpl \<Rightarrow> eventImpl \<times> ipc_error option" where
  "Signal pp e = SignalN pp e 1"

section \<open>Readers\<close>

text \<open>
  \<open>dup\<close> is the result of duplicating the write handle: a new handle or the error of the
  kernel. The event may close while the duplicate is made, so \<open>openReader\<close> tests it again.
\<close>

definition openReader :: "eventImpl \<Rightarrow> nat result \<Rightarrow> eventImpl \<times> nat result" where
  "openReader e dup =
     (if closed e then
        ((case dup of Inr f \<Rightarrow> e\<lparr>shut := (shut e)(f := True)\<rparr> | Inl _ \<Rightarrow> e), Inl ErrClosed)
      else case dup of
             Inl err \<Rightarrow> (e, Inl err)
           | Inr f \<Rightarrow> (e\<lparr>open_readers := open_readers e @ [f]\<rparr>, Inr f))"

definition acquire :: "eventImpl \<Rightarrow> nat result \<Rightarrow> eventImpl \<times> nat result" where
  "acquire e dup =
     (if closed e then (e, Inl ErrClosed)
      else if idle e \<noteq> [] then (e\<lparr>idle := butlast (idle e)\<rparr>, Inr (last (idle e)))
      else openReader e dup)"

definition releaseReader :: "eventImpl \<Rightarrow> nat \<Rightarrow> eventImpl" where
  "releaseReader e r =
     (let e = e\<lparr>past := (past e)(r := False)\<rparr> in
      if closed e then e else e\<lparr>idle := idle e @ [r]\<rparr>)"

text \<open>
  The errors of the closes: of each reader, and of the write handle. A file is closed even
  when its close reports an error; the first error in the order of the closes is returned.
\<close>

type_synonym close_errs = "(nat \<Rightarrow> ipc_error option) \<times> ipc_error option"

definition close_event :: "close_errs \<Rightarrow> eventImpl \<Rightarrow> eventImpl \<times> ipc_error option" where
  "close_event ce e =
     (if closed e then (e, Some ErrClosed)
      else
        let readers = open_readers e;
            err = fold (\<lambda>r err. first_err err (fst ce r)) readers None
        in (e\<lparr>closed := True, gone := True, open_readers := [], idle := [],
               shut := (\<lambda>r. shut e r \<or> r \<in> set readers), write_open := False\<rparr>,
            first_err err (snd ce)))"

text \<open>\<open>Close\<close> of an \<open>Event\<close> runs \<open>close\<close> once, so its \<open>closeOnce\<close> is done exactly when \<open>closed\<close> is set.\<close>

definition Event_Close :: "close_errs \<Rightarrow> eventImpl \<Rightarrow> eventImpl \<times> ipc_error option" where
  "Event_Close ce e = (if closed e then (e, None) else close_event ce e)"

section \<open>Waiting\<close>

text \<open>
  One read of a waiter: the bytes it returned and its error. Between two reads other
  goroutines and processes change the event, so a wait is a list of rounds: what the rest
  of the world does to the event, the error of the context by then, and the read.
\<close>

datatype read_result = ReadToken | ReadNothing | ReadError ipc_error

record wait_round =
  world :: "eventImpl \<Rightarrow> eventImpl"
  ctx_err :: "ipc_error option"
  read :: read_result

text \<open>What the kernel and the poller allow a read to return in a state of the event.\<close>

definition read_ok :: "eventImpl \<Rightarrow> nat \<Rightarrow> read_result \<Rightarrow> bool" where
  "read_ok e r x =
     (case x of
        ReadToken \<Rightarrow> 0 < tokens e \<and> \<not> shut e r
      | ReadNothing \<Rightarrow> True
      | ReadError err \<Rightarrow>
          (if errors_is err ErrDeadlineExceeded then past e r
           else if errors_is err ErrClosed then shut e r
           else True))"

text \<open>
  The loop of \<open>wait\<close> on the handle \<open>r\<close>. It runs out of rounds while the goroutine is still
  parked; then the result is \<open>None\<close>.
\<close>

fun wait_loop :: "eventImpl \<Rightarrow> nat \<Rightarrow> wait_round list \<Rightarrow> eventImpl \<times> ipc_error option option" where
  "wait_loop e r [] = (e, None)"
| "wait_loop e r (w # ws) =
     (let e = world w e in
      case read w of
        ReadToken \<Rightarrow> (e\<lparr>tokens := tokens e - 1\<rparr>, Some None)
      | ReadNothing \<Rightarrow> wait_loop e r ws
      | ReadError rerr \<Rightarrow>
          if errors_is rerr ErrDeadlineExceeded then
            (case ctx_err w of
               Some cerr \<Rightarrow> (e, Some (Some cerr))
             | None \<Rightarrow> wait_loop (e\<lparr>past := (past e)(r := False)\<rparr>) r ws)
          else if errors_is rerr ErrClosed \<or> gone e then (e, Some (Some ErrClosed))
          else (e, Some (Some rerr)))"

definition wait :: "eventImpl \<Rightarrow> nat result \<Rightarrow> wait_round list \<Rightarrow> eventImpl \<times> ipc_error option option" where
  "wait e dup ws =
     (case acquire e dup of
        (e1, Inl err) \<Rightarrow> (e1, Some (Some err))
      | (e1, Inr r) \<Rightarrow>
          (case wait_loop e1 r ws of
             (e2, None) \<Rightarrow> (e2, None)
           | (e2, Some res) \<Rightarrow> (releaseReader e2 r, Some res)))"

definition Wait :: "eventImpl \<Rightarrow> ipc_error option \<Rightarrow> nat result \<Rightarrow> wait_round list \<Rightarrow> eventImpl \<times> ipc_error option option" where
  "Wait e ctx dup ws = (case ctx of Some err \<Rightarrow> (e, Some (Some err)) | None \<Rightarrow> wait e dup ws)"

section \<open>Lemmas\<close>

lemma pipe_write_bounds:
  "t \<le> cap \<Longrightarrow> pipe_write cap t n \<le> cap" "t \<le> pipe_write cap t n"
  "n + k \<le> cap \<Longrightarrow> min n k \<le> pipe_write cap t n"
  by (auto simp: pipe_write_def)

lemma signal_tokens:
  "\<not> gone e \<Longrightarrow> pipe_err pp = None \<Longrightarrow>
   signal pp e n = (e\<lparr>tokens := pipe_write (pipe_cap pp) (tokens e) (min n pipeBuf)\<rparr>, None)"
  by (auto simp: signal_def min_def)

text \<open>
  The pool: handles are distinct, idle ones are open, no idle handle has its deadline in the
  past, and a closed event keeps no handle.
\<close>

definition pool_ok :: "eventImpl \<Rightarrow> bool" where
  "pool_ok e \<longleftrightarrow> distinct (open_readers e) \<and> distinct (idle e) \<and> set (idle e) \<subseteq> set (open_readers e) \<and>
     (closed e \<longrightarrow> open_readers e = [] \<and> \<not> write_open e) \<and> gone e = closed e \<and>
     (\<forall>r \<in> set (open_readers e). \<not> shut e r)"

text \<open>The handles that waiters hold: open and not idle.\<close>

definition busy :: "eventImpl \<Rightarrow> nat set" where
  "busy e = set (open_readers e) - set (idle e)"

lemma butlast_last:
  assumes "xs \<noteq> []" "distinct xs"
  shows "set (butlast xs) = set xs - {last xs}" "distinct (butlast xs)" "last xs \<in> set xs"
proof -
  obtain ys y where "xs = ys @ [y]" using assms(1) by (metis append_butlast_last_id)
  then show "set (butlast xs) = set xs - {last xs}" "distinct (butlast xs)" "last xs \<in> set xs"
    using assms(2) by auto
qed

lemma acquire_ok:
  assumes ok: "pool_ok e" and acq: "acquire e dup = (e', res)"
    and fresh: "\<forall>f. dup = Inr f \<longrightarrow> f \<notin> set (open_readers e) \<and> \<not> shut e f"
  shows "pool_ok e' \<and> tokens e' = tokens e \<and>
    (case res of Inr r \<Rightarrow> \<not> closed e \<and> r \<notin> busy e \<and> busy e' = insert r (busy e) \<and> \<not> shut e' r
               | Inl err \<Rightarrow> busy e' = busy e)"
proof (cases "idle e = []")
  case True
  then show ?thesis
    using acq ok fresh
    by (auto simp: acquire_def openReader_def pool_ok_def busy_def split: if_splits sum.splits)
next
  case False
  note b = butlast_last [OF False]
  show ?thesis
    using acq ok False b by (auto simp: acquire_def pool_ok_def busy_def subset_iff split: if_splits)
qed

lemma releaseReader_ok:
  assumes "pool_ok e" "closed e \<or> r \<in> busy e"
  shows "pool_ok (releaseReader e r)" "busy (releaseReader e r) = busy e - {r}"
    "tokens (releaseReader e r) = tokens e"
  using assms by (auto simp: releaseReader_def Let_def pool_ok_def busy_def)

lemma close_event_ok:
  assumes "pool_ok e" "close_event ce e = (e', err)"
  shows "pool_ok e' \<and> closed e' \<and> busy e' = {} \<and> (\<forall>r \<in> busy e. shut e' r)"
  using assms by (auto simp: close_event_def pool_ok_def busy_def Let_def split: if_splits)

section \<open>Properties\<close>

text \<open>
  Signalling never blocks and never overfills the pipe; as long as the pipe holds at
  least two pages, n signals leave at least n tokens (4096 at most) for the waiters even
  when the write is dropped, and a closed event takes none.
\<close>

theorem signal_releases:
  assumes "2 * pipeBuf \<le> pipe_cap pp" "tokens e \<le> pipe_cap pp" "SignalN pp e n = (e', err)" "0 < n"
  shows "if gone e then err = Some ErrClosed \<and> e' = e
    else if pipe_err pp \<noteq> None then err = pipe_err pp \<and> e' = e
    else err = None \<and> e' = e\<lparr>tokens := tokens e'\<rparr> \<and> tokens e \<le> tokens e' \<and> tokens e' \<le> pipe_cap pp \<and>
         min (nat n) pipeBuf \<le> tokens e'"
proof (cases "gone e \<or> pipe_err pp \<noteq> None")
  case True
  then show ?thesis using assms(3,4) by (auto simp: SignalN_def signal_def Let_def)
next
  case False
  let ?t = "pipe_write (pipe_cap pp) (tokens e) (min (nat n) pipeBuf)"
  have "e' = e\<lparr>tokens := ?t\<rparr>" "err = None"
    using assms(3,4) False by (auto simp: SignalN_def signal_tokens)
  moreover have "min (nat n) pipeBuf \<le> ?t"
    using pipe_write_bounds(3) [of "min (nat n) pipeBuf" pipeBuf "pipe_cap pp"] assms(1) by (simp add: le_trans)
  ultimately show ?thesis using False pipe_write_bounds(1,2) [of "tokens e" "pipe_cap pp"] assms(2) by simp
qed

theorem signal_releases_witness:
  "SignalN \<lparr>pipe_cap = 65536, pipe_err = None\<rparr> (new_eventImpl 65530) 9 = (new_eventImpl 65530, None)"
proof -
  have s: "SignalN \<lparr>pipe_cap = 65536, pipe_err = None\<rparr> (new_eventImpl 65530) 9 = (new_eventImpl 65530, None)"
    by (simp add: SignalN_def signal_def new_eventImpl_def pipe_write_def pipeBuf_def)
  from signal_releases [OF _ _ s] s show ?thesis by (simp add: pipeBuf_def new_eventImpl_def)
qed

text \<open>
  What a round leaves for the next one when the wait goes on: the others acted on the event,
  the read took nothing, and a deadline of an earlier waiter is cleared.
\<close>

definition passed :: "nat \<Rightarrow> wait_round \<Rightarrow> eventImpl \<Rightarrow> eventImpl" where
  "passed r w e = (let e = world w e in if read w = ReadNothing then e else e\<lparr>past := (past e)(r := False)\<rparr>)"

text \<open>
  The event that the last round of a wait reads from, computed from the steps of the others
  alone: the waiter itself takes no token before that.
\<close>

definition read_from :: "nat \<Rightarrow> wait_round list \<Rightarrow> wait_round \<Rightarrow> eventImpl \<Rightarrow> eventImpl" where
  "read_from r us w e = world w (fold (passed r) us e)"

text \<open>A round after which the wait goes on: nothing was read, or a deadline that is not of this wait had passed.\<close>

definition goes_on :: "wait_round \<Rightarrow> bool" where
  "goes_on w \<longleftrightarrow> read w = ReadNothing \<or> ctx_err w = None \<and> (\<exists>err. read w = ReadError err \<and> errors_is err ErrDeadlineExceeded)"

text \<open>
  A world that keeps the pool invariant and leaves the handle of the waiter alone, and reads
  that the kernel allows.
\<close>

fun rounds_ok :: "eventImpl \<Rightarrow> nat \<Rightarrow> wait_round list \<Rightarrow> bool" where
  "rounds_ok e r [] = True"
| "rounds_ok e r (w # ws) \<longleftrightarrow>
     pool_ok (world w e) \<and> (closed e \<longrightarrow> closed (world w e)) \<and>
     (if closed (world w e) then shut (world w e) r else r \<in> busy (world w e)) \<and>
     read_ok (world w e) r (read w) \<and> rounds_ok (passed r w e) r ws"

lemma pool_ok_past [simp]: "pool_ok (e\<lparr>past := p\<rparr>) = pool_ok e" "busy (e\<lparr>past := p\<rparr>) = busy e"
  by (simp_all add: pool_ok_def busy_def)

lemma pool_ok_tokens [simp]: "pool_ok (e\<lparr>tokens := t\<rparr>) = pool_ok e" "busy (e\<lparr>tokens := t\<rparr>) = busy e"
  by (simp_all add: pool_ok_def busy_def)

lemma read_from_simps [simp]:
  "read_from r [] w e = world w e" "read_from r (u # us) w e = read_from r us w (passed r u e)"
  by (simp_all add: read_from_def)

lemma rounds_ok_append:
  "rounds_ok e r (us @ w # vs) \<Longrightarrow> pool_ok (read_from r us w e) \<and> read_ok (read_from r us w e) r (read w) \<and>
     (if closed (read_from r us w e) then shut (read_from r us w e) r else r \<in> busy (read_from r us w e))"
proof (induction us arbitrary: e)
  case (Cons u us)
  from Cons.prems have "rounds_ok (passed r u e) r (us @ w # vs)" by simp
  from Cons.IH [OF this] show ?case by simp
qed simp

text \<open>
  How a wait ends: it has read from \<open>e0\<close> in the round \<open>w\<close>. It takes one of the tokens there,
  or takes none and reports the context, the close of the event, or an error of that read.
\<close>

definition wait_post :: "ipc_error option \<Rightarrow> eventImpl \<Rightarrow> eventImpl \<Rightarrow> wait_round \<Rightarrow> bool" where
  "wait_post res e' e0 w \<longleftrightarrow>
     (case res of
        None \<Rightarrow> read w = ReadToken \<and> e' = e0\<lparr>tokens := tokens e0 - 1\<rparr>
      | Some err \<Rightarrow> e' = e0 \<and>
          (\<exists>rerr. read w = ReadError rerr \<and>
             (if errors_is rerr ErrDeadlineExceeded then ctx_err w = Some err
              else err = (if errors_is rerr ErrClosed \<or> gone e0 then ErrClosed else rerr))))"

lemma wait_loop_ends:
  "wait_loop e r ws = (e', Some res) \<Longrightarrow>
   \<exists>us w vs. ws = us @ w # vs \<and> (\<forall>u \<in> set us. goes_on u) \<and> \<not> goes_on w \<and> wait_post res e' (read_from r us w e) w"
proof (induction ws arbitrary: e)
  case (Cons w ws)
  show ?case
  proof (cases "goes_on w")
    case True
    have "wait_loop (passed r w e) r ws = (e', Some res)"
      using Cons.prems True by (auto simp: goes_on_def passed_def Let_def)
    from Cons.IH [OF this] obtain us v vs where
      v: "ws = us @ v # vs" "\<forall>u \<in> set us. goes_on u" "\<not> goes_on v" "wait_post res e' (read_from r us v (passed r w e)) v"
      by blast
    then show ?thesis using True
      by (intro exI [of _ "w # us"] exI [of _ v] exI [of _ vs]) simp
  next
    case False
    have "wait_post res e' (world w e) w"
    proof (cases "read w")
      case (ReadError rerr)
      show ?thesis
      proof (cases "errors_is rerr ErrDeadlineExceeded")
        case True
        with False ReadError obtain c where c: "ctx_err w = Some c" by (auto simp: goes_on_def)
        with Cons.prems True ReadError have "res = Some c" "e' = world w e" by (simp_all add: Let_def)
        with c True ReadError show ?thesis by (simp add: wait_post_def)
      next
        case False
        with Cons.prems ReadError show ?thesis by (auto simp: wait_post_def Let_def split: if_splits)
      qed
    qed (use Cons.prems False in \<open>auto simp: wait_post_def goes_on_def Let_def\<close>)
    then show ?thesis using False by (intro exI [of _ "[]"] exI [of _ w] exI [of _ ws]) simp
  qed
qed simp

text \<open>
  C21: A wait without a handle takes no token. Any other wait passes over the reads that gave
  nothing and ends at the first one that says something: when it returns nil it took exactly
  one of the tokens that were there at that read, and when it fails it took none, so a
  cancelled wait never swallows a wakeup. Its error is that of the context, of a closed event,
  or of that read. In either case its handle goes back to the pool, or is dropped when the
  event has closed.
\<close>

theorem wait_takes_one_token:
  assumes "pool_ok e" "\<forall>f. dup = Inr f \<longrightarrow> f \<notin> set (open_readers e) \<and> \<not> shut e f"
    and "acquire e dup = (e1, got)" "\<forall>r. got = Inr r \<longrightarrow> rounds_ok e1 r ws" "wait e dup ws = (e', Some res)"
  shows "tokens e1 = tokens e \<and> pool_ok e' \<and>
    (case got of
       Inl err \<Rightarrow> res = Some err \<and> e' = e1
     | Inr r \<Rightarrow> r \<notin> busy e' \<and>
         (\<exists>us w vs. ws = us @ w # vs \<and> (\<forall>u \<in> set us. goes_on u) \<and> \<not> goes_on w \<and>
            (let e0 = read_from r us w e1 in
             tokens e0 = tokens e' + (if res = None then 1 else 0) \<and> (res = None \<longrightarrow> \<not> closed e0) \<and>
             wait_post res (e'\<lparr>past := past e0, idle := idle e0\<rparr>) e0 w)))"
proof -
  note a = acquire_ok [OF assms(1,3,2)]
  show ?thesis
  proof (cases got)
    case (Inl err)
    then show ?thesis using a assms(3,5) by (simp add: wait_def)
  next
    case (Inr r)
    obtain e2 where e2: "wait_loop e1 r ws = (e2, Some res)" "e' = releaseReader e2 r"
      using assms(3,5) Inr by (auto simp: wait_def split: prod.splits option.splits)
    obtain us w vs where w: "ws = us @ w # vs" "\<forall>u \<in> set us. goes_on u" "\<not> goes_on w" "wait_post res e2 (read_from r us w e1) w"
      using wait_loop_ends [OF e2(1)] by blast
    let ?e0 = "read_from r us w e1"
    have 0: "pool_ok ?e0" "read_ok ?e0 r (read w)" "if closed ?e0 then shut ?e0 r else r \<in> busy ?e0"
      using rounds_ok_append [of e1 r us w vs] assms(4) Inr w(1) by simp_all
    have ok: "pool_ok e2" "closed e2 \<or> r \<in> busy e2" "past e2 = past ?e0" "idle e2 = idle ?e0"
      using w(4) 0 by (auto simp: wait_post_def split: option.splits if_splits)
    have same: "e'\<lparr>past := past ?e0, idle := idle ?e0\<rparr> = e2"
      by (cases e2) (use ok(3,4) in \<open>simp add: e2(2) releaseReader_def Let_def\<close>)
    have "tokens ?e0 = tokens e2 + (if res = None then 1 else 0)" "res = None \<longrightarrow> \<not> closed ?e0"
      using w(4) 0 by (auto simp: wait_post_def read_ok_def split: option.splits if_splits)
    then have "tokens ?e0 = tokens e' + (if res = None then 1 else 0) \<and> (res = None \<longrightarrow> \<not> closed ?e0) \<and>
        wait_post res (e'\<lparr>past := past ?e0, idle := idle ?e0\<rparr>) ?e0 w"
      using w(4) same e2(2) releaseReader_ok(3) [OF ok(1,2)] by simp
    with w(1-3) have "\<exists>us w vs. ws = us @ w # vs \<and> (\<forall>u \<in> set us. goes_on u) \<and> \<not> goes_on w \<and>
            (let e0 = read_from r us w e1 in
             tokens e0 = tokens e' + (if res = None then 1 else 0) \<and> (res = None \<longrightarrow> \<not> closed e0) \<and>
             wait_post res (e'\<lparr>past := past e0, idle := idle e0\<rparr>) e0 w)"
      unfolding Let_def by blast
    then show ?thesis using a Inr releaseReader_ok(1,2) [OF ok(1,2)] e2(2) by simp
  qed
qed

text \<open>A wait that passes over the deadline of an earlier waiter and then finds a token another process put there.\<close>

theorem wait_takes_one_token_witness:
  "let e = new_eventImpl 0;
       late = \<lparr>world = (\<lambda>e. e\<lparr>past := (\<lambda>_. True)\<rparr>), ctx_err = None, read = ReadError ErrDeadlineExceeded\<rparr>;
       token = \<lparr>world = (\<lambda>e. e\<lparr>tokens := tokens e + 2\<rparr>), ctx_err = None, read = ReadToken\<rparr> in
   \<exists>e'. wait e (Inr 7) [late, token] = (e', Some None) \<and> pool_ok e' \<and> tokens e' = 1 \<and> idle e' = [7]"
proof -
  let ?e = "new_eventImpl 0"
  let ?late = "\<lparr>world = (\<lambda>e. e\<lparr>past := (\<lambda>_. True)\<rparr>), ctx_err = None, read = ReadError ErrDeadlineExceeded\<rparr>"
  let ?token = "\<lparr>world = (\<lambda>e. e\<lparr>tokens := tokens e + 2\<rparr>), ctx_err = None, read = ReadToken\<rparr>"
  have ok: "pool_ok ?e" by (simp add: pool_ok_def new_eventImpl_def)
  have acq: "acquire ?e (Inr 7) = (?e\<lparr>open_readers := [7]\<rparr>, Inr 7)"
    by (simp add: acquire_def openReader_def new_eventImpl_def)
  have rounds: "\<forall>r. Inr 7 = (Inr r :: nat result) \<longrightarrow> rounds_ok (?e\<lparr>open_readers := [7]\<rparr>) r [?late, ?token]"
    by (simp add: pool_ok_def new_eventImpl_def busy_def read_ok_def passed_def)
  obtain e' where w: "wait ?e (Inr 7) [?late, ?token] = (e', Some None)" "tokens e' = 1" "idle e' = [7]"
    by (simp add: wait_def acq) (simp add: releaseReader_def new_eventImpl_def Let_def)
  from wait_takes_one_token [OF ok _ acq rounds w(1)] w show ?thesis
    by (simp add: new_eventImpl_def Let_def)
qed

text \<open>The first error of the closes: there is one exactly when some close failed.\<close>

lemma fold_first_err:
  "fold (\<lambda>r err. first_err err (f r)) rs err0 = None \<longleftrightarrow> err0 = None \<and> (\<forall>r \<in> set rs. f r = None)"
  "fold (\<lambda>r err. first_err err (f r)) rs err0 = Some x \<Longrightarrow> err0 = Some x \<or> (\<exists>r \<in> set rs. f r = Some x)"
  by (induction rs arbitrary: err0) (auto simp: first_err_def split: option.splits)

lemma closed_gone: "pool_ok e \<Longrightarrow> gone e = closed e"
  by (simp add: pool_ok_def)

lemma wait_loop_closed:
  assumes "closed e" "rounds_ok e r ws" "\<exists>w \<in> set ws. \<not> goes_on w"
  shows "\<exists>e' x. wait_loop e r ws = (e', Some (Some x)) \<and> (x = ErrClosed \<or> (\<exists>w \<in> set ws. ctx_err w = Some x))"
  using assms
proof (induction ws arbitrary: e)
  case (Cons w ws)
  have w: "closed (world w e)" "gone (world w e)" "read w \<noteq> ReadToken"
    using Cons.prems(1,2) closed_gone by (auto simp: read_ok_def)
  show ?case
  proof (cases "goes_on w")
    case True
    have "closed (passed r w e)" using w(1) by (simp add: passed_def Let_def)
    from Cons.IH [OF this] Cons.prems(2,3) True
    have "\<exists>e' x. wait_loop (passed r w e) r ws = (e', Some (Some x)) \<and> (x = ErrClosed \<or> (\<exists>w \<in> set ws. ctx_err w = Some x))"
      by simp
    moreover have "wait_loop e r (w # ws) = wait_loop (passed r w e) r ws"
      using True by (auto simp: goes_on_def passed_def Let_def)
    ultimately show ?thesis by auto
  next
    case False
    then obtain rerr where "read w = ReadError rerr" using w(3) by (cases "read w") (auto simp: goes_on_def)
    then show ?thesis using w False by (auto simp: goes_on_def Let_def split: option.splits)
  qed
qed simp



end
