(* ===== verification/Wakeup.thy ===== *)
theory Wakeup
  imports Event
begin

text \<open>
  The handshake between parked senders and a parked receiver: \<open>park\<close>, \<open>wakeReceiver\<close> and
  \<open>wakeSenders\<close> of \<^verbatim>\<open>src/queue.go\<close> around the reads and writes of a ring, with every access to
  the waiter counts, the ring and the pipes a step of its own. The ring is the list of its
  claims in order (sender, size, committed); an attempt may need any size up to the capacity,
  since padding depends on the position. A claim that is aborted is committed as padding, which
  takes the same steps. Beyond the model: a read that passes over nothing but padding, errors of
  the signals (\<open>pipe_err\<close>), and more than \<open>pipeBuf\<close> senders.
\<close>

section \<open>Steps\<close>

text \<open>
  A sender in \<open>SendTyped\<close>: the first attempt of \<open>park\<close>; the increment of \<open>sendWaiters\<close>; the
  second attempt; parked on \<open>notFull\<close>; the decrement after a token; a claim won by the first
  or second attempt, before its commit; the decrement after a second attempt that won; the
  load of \<open>recvWaiters\<close> and the signal of \<open>wakeReceiver\<close>; the decrement after a wait that ended
  with an error, such as that of its context.
\<close>

datatype s_pc = SIdle | STry | SAnnounce | SRetry | SParked | SWoken | SClaimed bool | SWithdraw | SLoad | SSignal | SGiveUp

text \<open>
  The receiver in \<open>RecvInto\<close> in the same way: a read that moved the head is followed by the
  load of \<open>sendWaiters\<close> and the signal of \<open>wakeSenders\<close>.
\<close>

datatype r_pc = RIdle | RTry | RAnnounce | RRetry | RParked | RWoken | RLoad bool | RSignal bool nat | RWithdraw | RGiveUp

record wclaim =
  cl_by :: nat
  cl_size :: nat
  cl_done :: bool

record wk =
  claims :: "wclaim list"
  r_waiters :: nat
  s_waiters :: nat
  ne :: nat
  nf :: nat
  receiver :: r_pc
  senders :: "s_pc list"

definition wk_init :: "nat \<Rightarrow> wk" where
  "wk_init n = \<lparr>claims = [], r_waiters = 0, s_waiters = 0, ne = 0, nf = 0, receiver = RIdle, senders = replicate n SIdle\<rparr>"

definition used :: "wclaim list \<Rightarrow> nat" where
  "used cs = sum_list (map cl_size cs)"

definition readable :: "wclaim list \<Rightarrow> bool" where
  "readable cs = (case cs of [] \<Rightarrow> False | c # _ \<Rightarrow> cl_done c)"

definition commit_of :: "nat \<Rightarrow> wclaim list \<Rightarrow> wclaim list" where
  "commit_of i = map (\<lambda>c. if cl_by c = i then c\<lparr>cl_done := True\<rparr> else c)"

abbreviation sender :: "wk \<Rightarrow> nat \<Rightarrow> s_pc \<Rightarrow> bool" where
  "sender s i pc \<equiv> i < length (senders s) \<and> senders s ! i = pc"

abbreviation go :: "wk \<Rightarrow> nat \<Rightarrow> s_pc \<Rightarrow> wk" where
  "go s i pc \<equiv> s\<lparr>senders := (senders s)[i := pc]\<rparr>"

inductive wk_step :: "nat \<Rightarrow> nat \<Rightarrow> wk \<Rightarrow> wk \<Rightarrow> bool" for cap pcap where
  s_start: "sender s i SIdle \<Longrightarrow> wk_step cap pcap s (go s i STry)"
| s_claim: "sender s i pc \<Longrightarrow> pc = STry \<or> pc = SRetry \<Longrightarrow> n \<le> cap \<Longrightarrow> used (claims s) + n \<le> cap \<Longrightarrow>
    wk_step cap pcap s (go s i (SClaimed (pc = SRetry))\<lparr>claims := claims s @ [\<lparr>cl_by = i, cl_size = n, cl_done = False\<rparr>]\<rparr>)"
| s_full: "sender s i pc \<Longrightarrow> pc = STry \<or> pc = SRetry \<Longrightarrow> n \<le> cap \<Longrightarrow> cap < used (claims s) + n \<Longrightarrow>
    wk_step cap pcap s (go s i (if pc = SRetry then SParked else SAnnounce))"
| s_announce: "sender s i SAnnounce \<Longrightarrow> wk_step cap pcap s (go s i SRetry\<lparr>s_waiters := s_waiters s + 1\<rparr>)"
| s_wait: "sender s i SParked \<Longrightarrow> 0 < nf s \<Longrightarrow> wk_step cap pcap s (go s i SWoken\<lparr>nf := nf s - 1\<rparr>)"
| s_cancel: "sender s i SParked \<Longrightarrow> wk_step cap pcap s (go s i SGiveUp)"
| s_gave_up: "sender s i SGiveUp \<Longrightarrow> wk_step cap pcap s (go s i SIdle\<lparr>s_waiters := s_waiters s - 1\<rparr>)"
| s_woken: "sender s i SWoken \<Longrightarrow> wk_step cap pcap s (go s i STry\<lparr>s_waiters := s_waiters s - 1\<rparr>)"
| s_commit: "sender s i (SClaimed b) \<Longrightarrow>
    wk_step cap pcap s (go s i (if b then SWithdraw else SLoad)\<lparr>claims := commit_of i (claims s)\<rparr>)"
| s_withdraw: "sender s i SWithdraw \<Longrightarrow> wk_step cap pcap s (go s i SLoad\<lparr>s_waiters := s_waiters s - 1\<rparr>)"
| s_load: "sender s i SLoad \<Longrightarrow> wk_step cap pcap s (go s i (if 0 < r_waiters s then SSignal else SIdle))"
| s_signal: "sender s i SSignal \<Longrightarrow> wk_step cap pcap s (go s i SIdle\<lparr>ne := pipe_write pcap (ne s) 1\<rparr>)"
| r_start: "receiver s = RIdle \<Longrightarrow> wk_step cap pcap s (s\<lparr>receiver := RTry\<rparr>)"
| r_read: "receiver s = pc \<Longrightarrow> pc = RTry \<or> pc = RRetry \<Longrightarrow> claims s = cs @ rest \<Longrightarrow> cs \<noteq> [] \<Longrightarrow>
    list_all cl_done cs \<Longrightarrow> wk_step cap pcap s (s\<lparr>claims := rest, receiver := RLoad (pc = RRetry)\<rparr>)"
| r_empty: "receiver s = pc \<Longrightarrow> pc = RTry \<or> pc = RRetry \<Longrightarrow> \<not> readable (claims s) \<Longrightarrow>
    wk_step cap pcap s (s\<lparr>receiver := if pc = RRetry then RParked else RAnnounce\<rparr>)"
| r_announce: "receiver s = RAnnounce \<Longrightarrow> wk_step cap pcap s (s\<lparr>receiver := RRetry, r_waiters := r_waiters s + 1\<rparr>)"
| r_wait: "receiver s = RParked \<Longrightarrow> 0 < ne s \<Longrightarrow> wk_step cap pcap s (s\<lparr>receiver := RWoken, ne := ne s - 1\<rparr>)"
| r_cancel: "receiver s = RParked \<Longrightarrow> wk_step cap pcap s (s\<lparr>receiver := RGiveUp\<rparr>)"
| r_gave_up: "receiver s = RGiveUp \<Longrightarrow> wk_step cap pcap s (s\<lparr>receiver := RIdle, r_waiters := r_waiters s - 1\<rparr>)"
| r_woken: "receiver s = RWoken \<Longrightarrow> wk_step cap pcap s (s\<lparr>receiver := RTry, r_waiters := r_waiters s - 1\<rparr>)"
| r_load: "receiver s = RLoad b \<Longrightarrow>
    wk_step cap pcap s (s\<lparr>receiver := if 0 < s_waiters s then RSignal b (s_waiters s) else if b then RWithdraw else RIdle\<rparr>)"
| r_signal: "receiver s = RSignal b w \<Longrightarrow>
    wk_step cap pcap s (s\<lparr>receiver := if b then RWithdraw else RIdle, nf := pipe_write pcap (nf s) (min w pipeBuf)\<rparr>)"
| r_withdraw: "receiver s = RWithdraw \<Longrightarrow> wk_step cap pcap s (s\<lparr>receiver := RIdle, r_waiters := r_waiters s - 1\<rparr>)"

abbreviation wk_reach :: "nat \<Rightarrow> nat \<Rightarrow> wk \<Rightarrow> wk \<Rightarrow> bool" where
  "wk_reach cap pcap \<equiv> (wk_step cap pcap)\<^sup>*\<^sup>*"

section \<open>Invariants\<close>

definition announced :: "s_pc \<Rightarrow> bool" where
  "announced pc \<longleftrightarrow> pc \<in> {SRetry, SParked, SWoken, SWithdraw, SGiveUp, SClaimed True}"

definition r_announced :: "r_pc \<Rightarrow> bool" where
  "r_announced pc = (case pc of RRetry \<Rightarrow> True | RParked \<Rightarrow> True | RWoken \<Rightarrow> True | RWithdraw \<Rightarrow> True | RGiveUp \<Rightarrow> True
     | RLoad b \<Rightarrow> b | RSignal b _ \<Rightarrow> b | _ \<Rightarrow> False)"

definition to_wake :: "s_pc \<Rightarrow> bool" where
  "to_wake pc \<longleftrightarrow> pc \<in> {SWithdraw, SLoad, SSignal}"

lemma pc_simps [simp]:
  "\<not> announced SIdle" "\<not> announced STry" "\<not> announced SAnnounce" "announced SRetry" "announced SParked"
  "announced SWoken" "announced (SClaimed b) = b" "announced SWithdraw" "announced SGiveUp" "\<not> to_wake SGiveUp" "\<not> announced SLoad" "\<not> announced SSignal"
  "\<not> to_wake SIdle" "\<not> to_wake STry" "\<not> to_wake SAnnounce" "\<not> to_wake SRetry" "\<not> to_wake SParked"
  "\<not> to_wake SWoken" "\<not> to_wake (SClaimed b)" "to_wake SWithdraw" "to_wake SLoad" "to_wake SSignal"
  by (simp_all add: announced_def to_wake_def)

lemma used_simps [simp]: "used [] = 0"
  by (simp add: used_def)

lemma readable_simps [simp]:
  "\<not> readable []" "readable (cs @ [\<lparr>cl_by = i, cl_size = n, cl_done = False\<rparr>]) = readable cs"
  by (auto simp: readable_def split: list.splits)

text \<open>The waiter counts are the announced waiters, and an uncommitted claim has its sender.\<close>

definition wk_count :: "wk \<Rightarrow> bool" where
  "wk_count s \<longleftrightarrow> s_waiters s = count_if announced (senders s) \<and>
     r_waiters s = of_bool (r_announced (receiver s)) \<and>
     (\<forall>c \<in> set (claims s). \<not> cl_done c \<longrightarrow> cl_by c < length (senders s) \<and>
        (\<exists>b. senders s ! cl_by c = SClaimed b))"

lemma wk_count_sender:
  assumes "wk_count s" "i < length (senders s)" "s' = s\<lparr>senders := (senders s)[i := pc], s_waiters := w, claims := cs\<rparr>"
    and "w + of_bool (announced (senders s ! i)) = s_waiters s + of_bool (announced pc)"
    and "\<forall>c \<in> set cs. \<not> cl_done c \<longrightarrow> cl_by c = i \<and> (\<exists>b. pc = SClaimed b) \<or> cl_by c \<noteq> i \<and> c \<in> set (claims s)"
  shows "wk_count s'"
proof -
  have "w = count_if announced ((senders s)[i := pc])"
    using assms(1,4) count_if_update [OF assms(2), of announced pc] by (simp add: wk_count_def)
  moreover have "cl_by c < length (senders s) \<and> (\<exists>b. (senders s)[i := pc] ! cl_by c = SClaimed b)"
    if "c \<in> set cs" "\<not> cl_done c" for c
    using assms(1,2,5) that by (cases "cl_by c = i") (auto simp: wk_count_def)
  ultimately show ?thesis using assms(1) by (simp add: wk_count_def assms(3))
qed

text \<open>A step of a sender that holds no claim leaves the claims to their senders.\<close>

lemma wk_count_sender':
  assumes "wk_count s" "i < length (senders s)" "\<forall>b. senders s ! i \<noteq> SClaimed b"
    and "w + of_bool (announced (senders s ! i)) = s_waiters s + of_bool (announced pc)"
  shows "wk_count (s\<lparr>senders := (senders s)[i := pc], s_waiters := w\<rparr>)"
  by (rule wk_count_sender [OF assms(1,2) _ assms(4), where cs = "claims s"])
    (use assms(1,3) in \<open>auto simp: wk_count_def\<close>)

lemma wk_count_pos: "wk_count s \<Longrightarrow> i < length (senders s) \<Longrightarrow> announced (senders s ! i) \<Longrightarrow> 0 < s_waiters s"
  by (simp add: wk_count_def count_if_pos [OF nth_mem])

lemma wk_count_step:
  assumes "wk_step cap pcap s s'" "wk_count s"
  shows "wk_count s'"
  using assms
proof (induction rule: wk_step.induct)
  case (s_start s i)
  then show ?case using wk_count_sender' [where s = s and i = i and w = "s_waiters s" and pc = STry] by simp
next
  case (s_claim s i pc n)
  show ?case
    by (rule wk_count_sender [where s = s and i = i and pc = "SClaimed (pc = SRetry)" and w = "s_waiters s"
      and cs = "claims s @ [\<lparr>cl_by = i, cl_size = n, cl_done = False\<rparr>]"]) (use s_claim in \<open>auto simp: wk_count_def\<close>)
next
  case (s_full s i pc n)
  then show ?case using wk_count_sender' [where s = s and i = i and w = "s_waiters s" and pc = "if pc = SRetry then SParked else SAnnounce"] by auto
next
  case (s_announce s i)
  then show ?case using wk_count_sender' [where s = s and i = i and w = "s_waiters s + 1" and pc = SRetry] by simp
next
  case (s_wait s i)
  then show ?case using wk_count_sender' [where s = s and i = i and w = "s_waiters s" and pc = SWoken] by (simp add: wk_count_def)
next
  case (s_cancel s i)
  then show ?case using wk_count_sender' [where s = s and i = i and w = "s_waiters s" and pc = SGiveUp] by simp
next
  case (s_gave_up s i)
  then show ?case using wk_count_sender' [where s = s and i = i and w = "s_waiters s - 1" and pc = SIdle] wk_count_pos [of s i] by simp
next
  case (s_woken s i)
  then show ?case using wk_count_sender' [where s = s and i = i and w = "s_waiters s - 1" and pc = STry] wk_count_pos [of s i] by simp
next
  case (s_commit s i b)
  show ?case
    by (rule wk_count_sender [where s = s and i = i and pc = "if b then SWithdraw else SLoad" and w = "s_waiters s"
      and cs = "commit_of i (claims s)"]) (use s_commit in \<open>auto simp: commit_of_def\<close>)
next
  case (s_withdraw s i)
  then show ?case using wk_count_sender' [where s = s and i = i and w = "s_waiters s - 1" and pc = SLoad] wk_count_pos [of s i] by simp
next
  case (s_load s i)
  then show ?case using wk_count_sender' [where s = s and i = i and w = "s_waiters s" and pc = "if 0 < r_waiters s then SSignal else SIdle"] by auto
next
  case (s_signal s i)
  then show ?case using wk_count_sender' [where s = s and i = i and w = "s_waiters s" and pc = SIdle] by (simp add: wk_count_def)
qed (auto simp: wk_count_def r_announced_def)

text \<open>
  A parked receiver in front of a committed record has a token, or a sender that is about to
  look at the waiter count and signal.
\<close>

definition wk_recv :: "wk \<Rightarrow> bool" where
  "wk_recv s \<longleftrightarrow> (receiver s = RParked \<and> readable (claims s) \<longrightarrow> 0 < ne s \<or> (\<exists>pc \<in> set (senders s). to_wake pc))"

lemma to_wake_update:
  "i < length xs \<Longrightarrow> \<exists>pc \<in> set xs. to_wake pc \<Longrightarrow> \<not> to_wake (xs ! i) \<or> to_wake pc' \<Longrightarrow> \<exists>pc \<in> set (xs[i := pc']). to_wake pc"
  by (metis mem_update_other mem_update_same)

lemma wk_recv_sender:
  assumes "wk_recv s" "i < length (senders s)" "\<not> to_wake (senders s ! i) \<or> to_wake pc"
    and "senders s' = (senders s)[i := pc]" "receiver s' = receiver s" "ne s' = ne s"
    and "readable (claims s') \<longrightarrow> readable (claims s) \<or> to_wake pc"
  shows "wk_recv s'"
  using assms to_wake_update [OF assms(2), of pc] mem_update_same [OF assms(2), of pc] by (auto simp: wk_recv_def)

lemma pipe_write_pos: "0 < pcap \<Longrightarrow> 0 < pipe_write pcap t 1"
  by (auto simp: pipe_write_def)

lemma wk_recv_step:
  assumes "wk_step cap pcap s s'" "wk_count s" "wk_recv s" "0 < pcap"
  shows "wk_recv s'"
  using assms
proof (induction rule: wk_step.induct)
  case (s_load s i)
  show ?case
  proof (cases "receiver s = RParked")
    case True
    then have "0 < r_waiters s" using s_load by (simp add: wk_count_def r_announced_def)
    then show ?thesis using s_load mem_update_same [of i "senders s" SSignal] by (force simp: wk_recv_def)
  qed (simp add: wk_recv_def)
next
  case (s_signal s i)
  then show ?case using pipe_write_pos [of pcap "ne s"] by (simp add: wk_recv_def)
next
  case (s_commit s i b)
  show ?case by (rule wk_recv_sender [OF s_commit(3), where i = i and pc = "if b then SWithdraw else SLoad"]) (use s_commit in \<open>simp_all\<close>)
next
  case (s_claim s i pc n)
  show ?case by (rule wk_recv_sender [OF s_claim(6), where i = i and pc = "SClaimed (pc = SRetry)"]) (use s_claim in \<open>auto\<close>)
next
  case (s_full s i pc n)
  show ?case by (rule wk_recv_sender [OF s_full(6), where i = i and pc = "if pc = SRetry then SParked else SAnnounce"]) (use s_full in \<open>auto\<close>)
next
  case (s_withdraw s i)
  show ?case by (rule wk_recv_sender [OF s_withdraw(3), where i = i and pc = SLoad]) (use s_withdraw in \<open>simp_all\<close>)
qed (auto simp: wk_recv_def dest: mem_update_other intro!: to_wake_update)

text \<open>
  While the ring is empty, the receiver is about to wake the parked senders or there is a
  token for each of them: no sender parks on an empty ring, since every attempt fits it.
\<close>

abbreviation parked :: "s_pc list \<Rightarrow> nat" where
  "parked \<equiv> count_if (\<lambda>pc. pc = SParked)"

definition wk_send :: "wk \<Rightarrow> bool" where
  "wk_send s \<longleftrightarrow> length (senders s) \<le> pipeBuf \<and> (claims s = [] \<longrightarrow>
     (case receiver s of RLoad _ \<Rightarrow> True | RSignal _ w \<Rightarrow> parked (senders s) \<le> min w pipeBuf | _ \<Rightarrow> parked (senders s) \<le> nf s))"

lemma parked_update:
  "i < length xs \<Longrightarrow> parked (xs[i := pc]) + of_bool (xs ! i = SParked) = parked xs + of_bool (pc = SParked)"
  by (rule count_if_update)

lemma parked_same [simp]:
  "i < length xs \<Longrightarrow> xs ! i \<noteq> SParked \<Longrightarrow> pc \<noteq> SParked \<Longrightarrow> parked (xs[i := pc]) = parked xs"
  using parked_update [of i xs pc] by simp

lemma wk_send_sender:
  assumes "wk_send s" "i < length (senders s)" "senders s' = (senders s)[i := pc]" "receiver s' = receiver s"
    and "claims s' = [] \<longrightarrow> claims s = [] \<and> pc \<noteq> SParked \<and>
      nf s \<le> nf s' + of_bool (senders s ! i = SParked)"
  shows "wk_send s'"
  using assms parked_update [OF assms(2), of pc] by (auto simp: wk_send_def split: r_pc.splits)

lemma parked_le_waiters: "wk_count s \<Longrightarrow> parked (senders s) \<le> s_waiters s"
  by (auto simp: wk_count_def intro: count_if_mono)

lemma wk_send_step:
  assumes "wk_step cap pcap s s'" "wk_count s" "wk_send s" "2 * pipeBuf \<le> pcap"
  shows "wk_send s'"
  using assms
proof (induction rule: wk_step.induct)
  case (s_claim s i pc n)
  show ?case by (rule wk_send_sender [OF s_claim(6), where i = i and pc = "SClaimed (pc = SRetry)"]) (use s_claim in auto)
next
  case (s_full s i pc n)
  show ?case by (rule wk_send_sender [OF s_full(6), where i = i and pc = "if pc = SRetry then SParked else SAnnounce"])
      (use s_full in auto)
next
  case (s_wait s i)
  show ?case by (rule wk_send_sender [OF s_wait(4), where i = i and pc = SWoken]) (use s_wait in auto)
next
  case (s_cancel s i)
  show ?case by (rule wk_send_sender [OF s_cancel(3), where i = i and pc = SGiveUp]) (use s_cancel in auto)
next
  case (s_commit s i b)
  show ?case by (rule wk_send_sender [OF s_commit(3), where i = i and pc = "if b then SWithdraw else SLoad"])
      (use s_commit in \<open>auto simp: commit_of_def\<close>)
next
  case (s_load s i)
  show ?case by (rule wk_send_sender [OF s_load(3), where i = i and pc = "if 0 < r_waiters s then SSignal else SIdle"])
      (use s_load in auto)
next
  case (r_load s b)
  have "parked (senders s) \<le> s_waiters s" "s_waiters s \<le> length (senders s)"
    using r_load(2) parked_le_waiters count_if_length [of announced "senders s"] by (auto simp: wk_count_def)
  then show ?case using r_load by (auto simp: wk_send_def)
next
  case (r_signal s b w)
  have "min w pipeBuf \<le> pipe_write pcap (nf s) (min w pipeBuf)"
    using pipe_write_bounds(3) [of "min w pipeBuf" pipeBuf pcap "nf s"] r_signal(4) by simp
  then show ?case using r_signal by (auto simp: wk_send_def)
qed (auto simp: wk_send_def split: r_pc.splits)

lemma wk_inv_init: "n \<le> pipeBuf \<Longrightarrow> wk_count (wk_init n) \<and> wk_recv (wk_init n) \<and> wk_send (wk_init n)"
  by (simp add: wk_count_def wk_recv_def wk_send_def wk_init_def r_announced_def count_if_def)

lemma wk_reach_inv:
  assumes "wk_reach cap pcap (wk_init n) s" "n \<le> pipeBuf" "2 * pipeBuf \<le> pcap"
  shows "wk_count s \<and> wk_recv s \<and> wk_send s"
  using assms(1)
proof (induction rule: rtranclp_induct)
  case base
  show ?case by (rule wk_inv_init [OF assms(2)])
next
  case (step s s')
  then show ?case
    using wk_count_step [OF step(2)] wk_recv_step [OF step(2)] wk_send_step [OF step(2)] assms(3)
    by (auto simp: pipeBuf_def)
qed

lemma asleep_empty:
  assumes inv: "wk_count s" "wk_recv s" and "receiver s = RParked" "ne s = 0"
    and "\<forall>pc \<in> set (senders s). \<not> to_wake pc \<and> (\<forall>b. pc \<noteq> SClaimed b)"
  shows "claims s = []"
proof (cases "claims s")
  case (Cons c cs)
  show ?thesis
  proof (cases "cl_done c")
    case True
    then show ?thesis using assms Cons by (auto simp: wk_recv_def readable_def)
  next
    case False
    then obtain b where "SClaimed b \<in> set (senders s)"
      using inv(1) Cons unfolding wk_count_def by (metis list.set_intros(1) nth_mem)
    then show ?thesis using assms(5) by blast
  qed
qed

lemma wk_then: "wk_reach cap pcap a s \<Longrightarrow> wk_step cap pcap s t' \<Longrightarrow> t = t' \<Longrightarrow> wk_reach cap pcap a t"
  by (auto intro: rtranclp.rtrancl_into_rtrancl)

text \<open>
  A run for the witnesses: sender 0 fills the ring, sender 1 parks, and the receiver takes the
  message, signals and parks.
\<close>

definition parked_pair :: wk where
  "parked_pair = \<lparr>claims = [], r_waiters = 1, s_waiters = 1, ne = 0, nf = 1, receiver = RParked, senders = [SIdle, SParked]\<rparr>"

lemma both_parked: "wk_reach 64 65536 (wk_init 2) parked_pair"
proof -
  let ?c = "\<lambda>d. \<lparr>cl_by = 0, cl_size = 64, cl_done = d\<rparr>"
  let ?s = "\<lambda>cs rw sw n r pcs. \<lparr>claims = cs, r_waiters = rw, s_waiters = sw, ne = 0, nf = n, receiver = r, senders = pcs\<rparr>"
  let ?R = "wk_reach 64 65536 (wk_init 2)"
  have "?R (?s [] 0 0 0 RIdle [STry, SIdle])"
    by (rule wk_then [OF rtranclp.rtrancl_refl s_start [where i = 0]]) (simp_all add: wk_init_def numeral_2_eq_2)
  then have "?R (?s [?c False] 0 0 0 RIdle [SClaimed False, SIdle])"
    by (rule wk_then [OF _ s_claim [where i = 0 and pc = STry and n = 64]]) (simp_all add: used_def)
  then have "?R (?s [?c True] 0 0 0 RIdle [SLoad, SIdle])"
    by (rule wk_then [OF _ s_commit [where i = 0 and b = False]]) (simp_all add: commit_of_def)
  then have "?R (?s [?c True] 0 0 0 RIdle [SIdle, SIdle])"
    by (rule wk_then [OF _ s_load [where i = 0]]) simp_all
  then have "?R (?s [?c True] 0 0 0 RIdle [SIdle, STry])"
    by (rule wk_then [OF _ s_start [where i = 1]]) simp_all
  then have "?R (?s [?c True] 0 0 0 RIdle [SIdle, SAnnounce])"
    by (rule wk_then [OF _ s_full [where i = 1 and pc = STry and n = 8]]) (simp_all add: used_def)
  then have "?R (?s [?c True] 0 1 0 RIdle [SIdle, SRetry])"
    by (rule wk_then [OF _ s_announce [where i = 1]]) simp_all
  then have "?R (?s [?c True] 0 1 0 RIdle [SIdle, SParked])"
    by (rule wk_then [OF _ s_full [where i = 1 and pc = SRetry and n = 8]]) (simp_all add: used_def)
  then have "?R (?s [?c True] 0 1 0 RTry [SIdle, SParked])"
    by (rule wk_then [OF _ r_start]) simp_all
  then have "?R (?s [] 0 1 0 (RLoad False) [SIdle, SParked])"
    by (rule wk_then [OF _ r_read [where pc = RTry and cs = "[?c True]" and rest = "[]"]]) simp_all
  then have "?R (?s [] 0 1 0 (RSignal False 1) [SIdle, SParked])"
    by (rule wk_then [OF _ r_load [where b = False]]) simp_all
  then have "?R (?s [] 0 1 1 RIdle [SIdle, SParked])"
    by (rule wk_then [OF _ r_signal [where b = False and w = 1]]) (simp_all add: pipe_write_def pipeBuf_def)
  then have "?R (?s [] 0 1 1 RTry [SIdle, SParked])"
    by (rule wk_then [OF _ r_start]) simp_all
  then have "?R (?s [] 0 1 1 RAnnounce [SIdle, SParked])"
    by (rule wk_then [OF _ r_empty [where pc = RTry]]) simp_all
  then have "?R (?s [] 1 1 1 RRetry [SIdle, SParked])"
    by (rule wk_then [OF _ r_announce]) simp_all
  then show ?thesis
    unfolding parked_pair_def by (rule wk_then [OF _ r_empty [where pc = RRetry]]) simp_all
qed

section \<open>Properties\<close>

text \<open>
  C16: No wakeup of the receiver is lost: when the receiver is parked with no token in its
  pipe and no sender is between its claim and its signal, the ring is empty. Waits of either
  side may be cancelled at any time.
\<close>

theorem no_lost_receive:
  assumes "wk_reach cap pcap (wk_init n) s" "n \<le> pipeBuf" "2 * pipeBuf \<le> pcap"
    and "receiver s = RParked" "ne s = 0"
    and "\<forall>pc \<in> set (senders s). pc \<in> {SIdle, STry, SAnnounce, SRetry, SParked, SWoken, SGiveUp}"
  shows "claims s = []"
  using asleep_empty [of s] wk_reach_inv [OF assms(1-3)] assms(4-6) by fastforce

theorem no_lost_receive_witness:
  "\<exists>s. wk_reach 64 65536 (wk_init 2) s \<and> receiver s = RParked \<and> senders s = [SIdle, SParked] \<and> claims s = []"
  using no_lost_receive [OF both_parked] both_parked by (fastforce simp: parked_pair_def pipeBuf_def)

text \<open>
  C17: The two sides never sleep at once for want of a signal: when the receiver is parked
  with no token and every sender is idle or parked, the ring is empty and the pipe of the
  senders holds a token for every parked sender, so that any of them goes on.
\<close>

theorem no_deadlock:
  assumes "wk_reach cap pcap (wk_init n) s" "n \<le> pipeBuf" "2 * pipeBuf \<le> pcap"
    and "receiver s = RParked" "ne s = 0" "\<forall>pc \<in> set (senders s). pc = SIdle \<or> pc = SParked"
  shows "claims s = [] \<and> parked (senders s) \<le> nf s \<and>
    (\<forall>i < length (senders s). senders s ! i = SParked \<longrightarrow> wk_step cap pcap s (go s i SWoken\<lparr>nf := nf s - 1\<rparr>))"
proof -
  note inv = wk_reach_inv [OF assms(1-3)]
  have cs: "claims s = []" using asleep_empty [of s] inv assms(4-6) by fastforce
  have le: "parked (senders s) \<le> nf s" using inv assms(4) cs by (simp add: wk_send_def)
  have "wk_step cap pcap s (go s i SWoken\<lparr>nf := nf s - 1\<rparr>)" if "sender s i SParked" for i
    using that le count_if_pos [OF at_mem, of i "senders s" SParked "\<lambda>pc. pc = SParked"]
    by (intro s_wait) auto
  then show ?thesis using cs le by blast
qed

theorem no_deadlock_witness:
  "\<exists>s. wk_reach 64 65536 (wk_init 2) s \<and> senders s = [SIdle, SParked] \<and> receiver s = RParked \<and> nf s = 1 \<and>
     wk_step 64 65536 s (go s 1 SWoken\<lparr>nf := nf s - 1\<rparr>)"
proof -
  have "\<forall>i < length (senders parked_pair). senders parked_pair ! i = SParked \<longrightarrow>
      wk_step 64 65536 parked_pair (go parked_pair i SWoken\<lparr>nf := nf parked_pair - 1\<rparr>)"
    using no_deadlock [OF both_parked] by (simp add: parked_pair_def pipeBuf_def)
  from this [rule_format, of 1] both_parked show ?thesis
    by (intro exI [of _ parked_pair]) (simp add: parked_pair_def)
qed

end
