(* ===== verification/Recover.thy ===== *)
theory Recover
  imports Ring_Props
begin

text \<open>
  The claim slots of \<^verbatim>\<open>src/recover.go\<close>: finding the claim that stops the reader, turning the
  claim of a dead producer into padding, and taking and returning slots. Whether a process is
  dead is asked of a life socket, so it is a parameter.
\<close>

section \<open>Operations\<close>

record stall =
  st_at :: u64
  st_length :: int
  st_slots :: "nat list"

definition covers :: "claimSlot \<Rightarrow> u64 \<Rightarrow> bool" where
  "covers s h \<longleftrightarrow> slot_at s \<noteq> noIntent \<and> slot_at s \<le> h \<and> h < add64 (slot_at s) (slot_size s)"

definition stalled :: "Ring \<Rightarrow> stall option" where
  "stalled r =
     (let h = head (hdr r) in
      if h = tail (hdr r) then None
      else
        let len = loadLength r (h AND rmask r) in
        if len > 0 then None
        else Some \<lparr>st_at = h, st_length = len,
                   st_slots = filter (\<lambda>i. covers (slots (hdr r) ! i) h) [0..<length (slots (hdr r))]\<rparr>)"

definition clear_intent :: "Ring \<Rightarrow> nat \<Rightarrow> Ring" where
  "clear_intent r i = upd_slot r i (slot_at_update (\<lambda>_. noIntent))"

definition reclaim :: "Ring \<Rightarrow> stall \<Rightarrow> u64 \<Rightarrow> nat list \<Rightarrow> Ring \<times> bool" where
  "reclaim r st stop dead =
     (let index = st_at st AND rmask r;
          toEnd = Capacity r - index;
          n = (let n = sub64 stop (st_at st) in if n > toEnd then toEnd else n)
      in case casLength r index (st_length st) (i32 (int n)) of
           (r', False) \<Rightarrow> (r', False)
         | (r', True) \<Rightarrow>
             let r'' = storeType r' index TypePadding in
             (if add64 (st_at st) n = stop then fold (\<lambda>i r. clear_intent r i) dead r'' else r'', True))"

text \<open>
  The two passes of \<open>acquireSlot\<close>: the first slot without an owner, then the first slot of
  a dead owner whose claim the reader has passed. Without interference each
  compare-and-swap on the owner succeeds.
\<close>

definition stale_slot :: "u64 \<Rightarrow> (u64 \<Rightarrow> bool) \<Rightarrow> u64 \<Rightarrow> claimSlot \<Rightarrow> bool" where
  "stale_slot self dead h s \<longleftrightarrow>
     slot_owner s \<noteq> noProc \<and> slot_owner s \<noteq> self \<and>
     \<not> (slot_at s \<noteq> noIntent \<and> add64 (slot_at s) (slot_size s) > h) \<and>
     dead (slot_owner s)"

definition take_slot :: "Ring \<Rightarrow> nat \<Rightarrow> u64 \<Rightarrow> Ring" where
  "take_slot r i self = upd_slot r i (\<lambda>s. s\<lparr>slot_owner := self, slot_at := noIntent\<rparr>)"

definition acquireSlot :: "Ring \<Rightarrow> u64 \<Rightarrow> (u64 \<Rightarrow> bool) \<Rightarrow> Ring \<times> nat result" where
  "acquireSlot r self dead =
     (let ss = slots (hdr r) in
      case find (\<lambda>i. slot_owner (ss ! i) = 0) [0..<length ss] of
        Some i \<Rightarrow> (take_slot r i self, Inr i)
      | None \<Rightarrow>
          (case find (\<lambda>i. stale_slot self dead (head (hdr r)) (ss ! i)) [0..<length ss] of
             Some i \<Rightarrow> (take_slot r i self, Inr i)
           | None \<Rightarrow> (r, Inl ErrTooManyClaims)))"

definition dropSlot :: "Ring \<Rightarrow> u64 \<Rightarrow> nat \<Rightarrow> Ring" where
  "dropSlot r self slot =
     upd_slot r slot (\<lambda>s. let s' = s\<lparr>slot_at := noIntent\<rparr> in
       if slot_owner s' = self then s'\<lparr>slot_owner := 0\<rparr> else s')"

section \<open>Slots and the invariant\<close>

lemma ring_inv_upd_slot [simp]: "ring_inv (upd_slot r i f) es = ring_inv r es"
  by (simp add: ring_inv_def ring_ok_def Capacity_def)

lemma ring_inv_slot_ops [simp]:
  "ring_inv (clear_intent r i) es = ring_inv r es" "ring_inv (take_slot r i p) es = ring_inv r es"
  "ring_inv (dropSlot r p i) es = ring_inv r es"
  by (simp_all add: clear_intent_def take_slot_def dropSlot_def)

lemma ring_inv_fold_clear [simp]: "ring_inv (fold (\<lambda>i r. clear_intent r i) is r) es = ring_inv r es"
  by (induction "is" arbitrary: r) simp_all

lemma slots_upd_slot:
  "i < length (slots (hdr r)) \<Longrightarrow>
    slots (hdr (upd_slot r i f)) ! j = (if j = i then f (slots (hdr r) ! i) else slots (hdr r) ! j)"
  by (simp add: upd_slot_def)

lemma find_Some_iff_nth:
  "find P [0..<n] = Some i \<Longrightarrow> i < n \<and> P i \<and> (\<forall>j<i. \<not> P j)"
  by (auto simp: find_Some_iff)

lemma find_None_upt: "find P [0..<n] = None \<longleftrightarrow> (\<forall>i<n. \<not> P i)"
  by (auto simp: find_None_iff)

section \<open>Reclaiming\<close>

lemma stalled_at_claim:
  assumes "ring_inv r (e # es)" "\<not> ready_entry e"
  shows "\<exists>st. stalled r = Some st \<and> st_at st = head (hdr r) \<and>
    st_length st = loadLength r (head (hdr r) mod Capacity r)"
proof -
  note D = ring_invD [OF assms(1)]
  have ent: "entry_at (data r) (Capacity r) (head (hdr r) mod Capacity r) e" using D(3) by simp
  have "0 < esize e" using esize_bounds [OF ent] by simp
  then have "head (hdr r) \<noteq> tail (hdr r)" using D(2) by simp
  moreover have "loadLength r (head (hdr r) mod Capacity r) \<le> 0"
    using ent assms(2) by (cases e) (auto simp: loadLength_len_at)
  ultimately show ?thesis using ring_ok_capacity(6) [OF D(1)] by (simp add: stalled_def Let_def)
qed

lemma stalled_ready:
  assumes "ring_inv r es" "es = [] \<or> ready_entry (hd es)"
  shows "stalled r = None"
proof (cases es)
  case Nil
  then show ?thesis using ring_invD(2) [OF assms(1)] by (simp add: stalled_def)
next
  case (Cons e es')
  then have "0 < loadLength r (head (hdr r) mod Capacity r)"
    using assms(2) ring_invD(3) [OF assms(1)]
    by (cases e) (auto simp: loadLength_len_at)
  then show ?thesis using ring_ok_capacity(6) [OF ring_invD(1) [OF assms(1)]] by (simp add: stalled_def Let_def)
qed

text \<open>Reclaiming turns the stalled segment at the head into padding of the same size.\<close>

lemma reclaim_inv:
  assumes inv: "ring_inv r (e # es)" and nr: "\<not> ready_entry e" and st: "stalled r = Some st"
    and n: "esize e + 7 < 2 ^ 31" and stop: "head (hdr r) + esize e \<le> stop" "stop < 2 ^ 64"
    and seg: "stop = head (hdr r) + esize e \<or> head (hdr r) mod Capacity r + esize e = Capacity r"
  shows "snd (reclaim r st stop dead) \<and> ring_inv (fst (reclaim r st stop dead)) (Padding (esize e) # es)"
proof -
  let ?h = "head (hdr r)" and ?cap = "Capacity r"
  let ?i = "?h mod ?cap"
  note D = ring_invD [OF inv]
  have ent: "entry_at (data r) ?cap ?i e" using D(3) by simp
  note sz = esize_bounds [OF ent]
  have st': "st_at st = ?h" "st_length st = loadLength r ?i"
    using stalled_at_claim [OF inv nr] st by auto
  have idx: "?h AND rmask r = ?i" using ring_ok_capacity(6) [OF D(1)] .
  have i_lt: "?i < ?cap" using ring_ok_capacity(1) [OF D(1)] by simp
  have sub: "sub64 stop ?h = stop - ?h" using stop by simp
  have size: "(if stop - ?h > ?cap - ?i then ?cap - ?i else stop - ?h) = esize e"
    using seg stop sz i_lt by auto
  define r1 where "r1 = storeType (storeLength r ?i (int (esize e))) ?i TypePadding"
  have i32n: "i32 (int (esize e)) = int (esize e)" using n by (intro i32_small) simp
  have rec: "reclaim r st stop dead =
      (if add64 ?h (esize e) = stop then fold (\<lambda>i r. clear_intent r i) dead r1 else r1, True)"
    by (simp add: reclaim_def Let_def st' idx sub size casLength_def i32n r1_def)
  have d1: "data r1 = put_type (put_len (data r) ?i (int (esize e))) ?i TypePadding"
    by (simp add: r1_def)
  have "ring_inv r1 ([] @ Padding (esize e) # es)"
  proof (rule ring_inv_replace)
    show "ring_inv r ([] @ e # es)" using inv by simp
    show "only (data r) (data r1) ((?h + span []) mod ?cap) (esize e)"
      unfolding d1 using sz by (simp add: only_trans [OF only_put(1) only_put(2)])
    show "entry_at (data r1) ?cap ((?h + span []) mod ?cap) (Padding (esize e))"
      unfolding d1 using sz n by (simp add: i32n pad8_dvd)
  qed (simp_all add: r1_def)
  then show ?thesis by (simp add: rec)
qed

lemma reclaim_head: "reclaim r st stop dead = (r', ok) \<Longrightarrow> head (hdr r') = head (hdr r)"
proof -
  have "head (hdr (fold (\<lambda>i r. clear_intent r i) dead r)) = head (hdr r)" for r
    by (induction dead arbitrary: r) (simp_all add: clear_intent_def upd_slot_def)
  then show "reclaim r st stop dead = (r', ok) \<Longrightarrow> head (hdr r') = head (hdr r)"
    by (auto simp: reclaim_def casLength_def Let_def storeLength_def storeType_def split: if_splits)
qed

section \<open>Properties\<close>

text \<open>
  The reader is reported stalled exactly when the entry at its head is a claim that is
  not committed, and the stall names exactly the slots whose recorded range covers the head.
\<close>

theorem stalled_iff:
  assumes "ring_inv r es"
  shows "(stalled r \<noteq> None \<longleftrightarrow> es \<noteq> [] \<and> \<not> ready_entry (hd es)) \<and>
    (\<forall>st. stalled r = Some st \<longrightarrow>
       set (st_slots st) = {i. i < ClaimSlots \<and> covers (slots (hdr r) ! i) (head (hdr r))})"
proof
  show "stalled r \<noteq> None \<longleftrightarrow> es \<noteq> [] \<and> \<not> ready_entry (hd es)"
  proof (cases es)
    case Nil
    then show ?thesis using stalled_ready [OF assms] by simp
  next
    case (Cons e es')
    then show ?thesis using stalled_ready [OF assms] stalled_at_claim [of r e es'] assms by auto
  qed
  have "length (slots (hdr r)) = ClaimSlots" using ring_invD(1) [OF assms] by (simp add: ring_ok_def)
  then show "\<forall>st. stalled r = Some st \<longrightarrow>
       set (st_slots st) = {i. i < ClaimSlots \<and> covers (slots (hdr r) ! i) (head (hdr r))}"
    by (auto simp: stalled_def Let_def split: if_splits)
qed

theorem stalled_iff_witness: "stalled demo_ring = None"
  using stalled_iff [OF demo_inv] by simp

text \<open>
  Reclaiming a stalled claim succeeds, turns it (or its part before the wrap point) into
  padding of the same size, and leaves every other entry as it was; the reader is then no
  longer stalled and the next read delivers the messages behind the claim.
\<close>

theorem reclaim_unblocks:
  assumes "ring_inv r (e # es)" "\<not> ready_entry e" "stalled r = Some st" "esize e + 7 < 2 ^ 31"
    and "head (hdr r) + esize e \<le> stop" "stop < 2 ^ 64"
    and "stop = head (hdr r) + esize e \<or> head (hdr r) mod Capacity r + esize e = Capacity r"
    and "reclaim r st stop dead = (r', ok)"
  shows "ok \<and> ring_inv r' (Padding (esize e) # es) \<and> stalled r' = None \<and>
    (\<exists>r''. Read r' limit = (r'', messages (take_ready (nat limit) es), None))"
proof -
  have inv: "ok" "ring_inv r' (Padding (esize e) # es)"
    using reclaim_inv [OF assms(1-7), of dead] assms(8) by simp_all
  have "messages (take_ready n (Padding k # es)) = messages (take_ready n es)" for n k
    by (cases n) simp_all
  then show ?thesis
    using inv stalled_ready [OF inv(2)] Read_spec [OF inv(2), of limit] by (metis list.sel(1) ready_entry.simps(2))
qed

theorem reclaim_unblocks_witness:
  "\<exists>r st r'. tryClaim demo_ring 0 5 3 = Some (r, Inr \<lparr>claim_index = 0, claim_total = 11, claim_slot = 0\<rparr>) \<and>
     stalled r = Some st \<and> reclaim r st 16 [0] = (r', True) \<and> stalled r' = None"
proof -
  obtain r where r: "tryClaim demo_ring 0 5 (int 3) =
      Some (r, Inr \<lparr>claim_index = (head (hdr demo_ring) + span ([] @ claim_pad demo_ring 3)) mod Capacity demo_ring,
        claim_total = int (8 + 3), claim_slot = 0\<rparr>)"
    "ring_inv r ([] @ claim_entries demo_ring 5 3)" "head (hdr r) = head (hdr demo_ring)"
    by (rule tryClaim_ok [OF demo_inv, of 5 3 0])
      (simp_all add: TypePadding_def claim_entries_def claim_pad_def pad8_def)
  have inv: "ring_inv r (Claimed 5 3 # [])" using r(2) by (simp add: claim_entries_def claim_pad_def pad8_def)
  obtain st where st: "stalled r = Some st" using stalled_at_claim [OF inv] by auto
  obtain r' ok where r': "reclaim r st 16 [0] = (r', ok)" by force
  have "ok \<and> stalled r' = None"
    using reclaim_unblocks [OF inv _ st _ _ _ _ r', of 1] r(3) by (simp add: pad8_def)
  then show ?thesis using r(1) st r' by (simp add: claim_pad_def pad8_def)
qed

text \<open>
  A slot handed out is owned by the caller and carries no intent; it was free, or its
  owner was another process reported dead whose claim lies behind the reader. No other slot
  changes, and the call fails only when there is no such slot.
\<close>

theorem acquireSlot_spec:
  assumes "acquireSlot r self dead = (r', res)"
  shows "case res of
      Inr i \<Rightarrow> i < length (slots (hdr r)) \<and>
        slots (hdr r') ! i = (slots (hdr r) ! i)\<lparr>slot_owner := self, slot_at := noIntent\<rparr> \<and>
        (\<forall>j. j \<noteq> i \<longrightarrow> slots (hdr r') ! j = slots (hdr r) ! j) \<and>
        (slot_owner (slots (hdr r) ! i) = 0 \<or> stale_slot self dead (head (hdr r)) (slots (hdr r) ! i))
    | Inl err \<Rightarrow> err = ErrTooManyClaims \<and> r' = r \<and>
        (\<forall>i<length (slots (hdr r)). slot_owner (slots (hdr r) ! i) \<noteq> 0 \<and>
          \<not> stale_slot self dead (head (hdr r)) (slots (hdr r) ! i))"
proof -
  have "i < length (slots (hdr r)) \<Longrightarrow> slots (hdr (take_slot r i self)) ! j =
      (if j = i then (slots (hdr r) ! i)\<lparr>slot_owner := self, slot_at := noIntent\<rparr>
       else slots (hdr r) ! j)" for i j
    by (simp add: take_slot_def slots_upd_slot)
  then show ?thesis
    using assms unfolding acquireSlot_def Let_def
    by (auto simp: find_None_upt split: option.splits dest!: find_Some_iff_nth)
qed

theorem acquireSlot_spec_witness:
  "\<exists>r'. acquireSlot demo_ring 77 (\<lambda>_. False) = (r', Inr 0) \<and> slot_owner (slots (hdr r') ! 0) = 77"
proof -
  have f: "find (\<lambda>i. slot_owner (slots (hdr demo_ring) ! i) = 0) [0..<length (slots (hdr demo_ring))] = Some 0"
    by (simp add: demo_ring_def ClaimSlots_def find_Some_iff exI [of _ "0::nat"])
  then have a: "acquireSlot demo_ring 77 (\<lambda>_. False) = (take_slot demo_ring 0 77, Inr 0)"
    by (simp add: acquireSlot_def Let_def)
  from acquireSlot_spec [OF this] a show ?thesis by simp
qed

text \<open>Returning a slot undoes taking it; another process does not free it.\<close>

lemma acquire_drop:
  assumes "acquireSlot r self dead = (r', Inr i)" "i < length (slots (hdr r))"
  shows "slot_owner (slots (hdr (dropSlot r' self i)) ! i) = 0 \<and>
    slot_at (slots (hdr (dropSlot r' self i)) ! i) = noIntent \<and>
    (other \<noteq> self \<longrightarrow> slot_owner (slots (hdr (dropSlot r' other i)) ! i) = self)"
proof -
  have r': "r' = take_slot r i self"
    using assms(1) by (auto simp: acquireSlot_def Let_def split: option.splits)
  show ?thesis using assms(2) by (simp add: r' dropSlot_def take_slot_def upd_slot_def Let_def)
qed

end
