(* ===== verification/Identity.thy ===== *)
theory Identity
  imports Ipc_Prelude "HOL-Library.Multiset"
begin

text \<open>
  Process identities and exit watches, \<^verbatim>\<open>src/identity.go\<close>. A process is alive while its life
  socket accepts a connection. What a dial of that socket returns is decided by the kernel,
  so it is the parameter \<open>dial\<close> (\<open>None\<close> for a connection). A callback is a value of the
  type variable \<open>'f\<close>; an operation returns the callbacks it runs.
\<close>

section \<open>Identities\<close>

type_synonym procID = u64
type_synonym dial = "procID \<Rightarrow> ipc_error option"

definition pendingProc :: procID where "pendingProc = 1"

definition watchableBit :: procID where "watchableBit = 2 ^ 63"

definition anyProc :: procID where "anyProc = 2 ^ 62"

definition watchable :: "procID \<Rightarrow> bool" where
  "watchable pid \<longleftrightarrow> pid AND watchableBit \<noteq> 0"

definition randomID :: "bytes \<Rightarrow> procID" where
  "randomID raw = le_val raw OR watchableBit OR anyProc"

text \<open>
  \<open>selfID\<close> runs once in a process: it keeps the random identity when its life socket listens
  and clears the watchable bit when it does not.
\<close>

record self =
  self_id :: procID
  self_err :: "ipc_error option"
  self_live :: bool

definition selfID :: "self option \<Rightarrow> bytes \<Rightarrow> (procID \<Rightarrow> ipc_error option) \<Rightarrow> self" where
  "selfID once raw listenLife =
     (case once of
        Some s \<Rightarrow> s
      | None \<Rightarrow>
          (let pid = randomID raw in
           case listenLife pid of
             Some e \<Rightarrow> \<lparr>self_id = nat (int pid AND NOT (int watchableBit)), self_err = Some e, self_live = False\<rparr>
           | None \<Rightarrow> \<lparr>self_id = pid, self_err = None, self_live = True\<rparr>))"

definition Release :: "self option \<Rightarrow> (procID \<Rightarrow> ipc_error option) \<Rightarrow> ipc_error option" where
  "Release once remove =
     (case once of
        None \<Rightarrow> None
      | Some s \<Rightarrow>
          if \<not> self_live s then None
          else case remove (self_id s) of
                 Some e \<Rightarrow> if errors_is e ErrNotExist then None else Some e
               | None \<Rightarrow> None)"

definition isRefused :: "ipc_error \<Rightarrow> bool" where
  "isRefused e = errors_is e ErrRefused"

definition lifeGone :: "ipc_error \<Rightarrow> bool" where
  "lifeGone e \<longleftrightarrow> errors_is e ErrNotExist \<or> isRefused e"

text \<open>\<open>sweepLife\<close> removes a life socket that refuses a dial; the result says whether it does.\<close>

definition sweepLife :: "ipc_error option \<Rightarrow> bool" where
  "sweepLife dialled = (case dialled of None \<Rightarrow> False | Some e \<Rightarrow> isRefused e)"

section \<open>Watches\<close>

text \<open>
  A watch is an object that its callers and its own goroutine share, so watches live in a
  store and \<open>byID\<close> holds addresses. \<open>w_proc\<close> is the identity the goroutine and the cancel
  functions of the watch carry; \<open>w_open\<close> says whether its waiter is still open.
\<close>

record 'f watch =
  w_proc :: procID
  fns :: "(nat \<times> 'f) list"
  stopped :: bool
  w_open :: bool

record 'f watches =
  objs :: "'f watch list"
  byID :: "procID \<Rightarrow> nat option"
  next_key :: nat
  exited :: "procID \<Rightarrow> bool"

definition no_watches :: "'f watches" where
  "no_watches = \<lparr>objs = [], byID = (\<lambda>_. None), next_key = 0, exited = (\<lambda>_. False)\<rparr>"

definition isDead :: "dial \<Rightarrow> (procID \<Rightarrow> bool) \<Rightarrow> procID \<Rightarrow> bool" where
  "isDead dial ex pid \<longleftrightarrow>
     watchable pid \<and> (ex pid \<or> (case dial pid of None \<Rightarrow> False | Some e \<Rightarrow> lifeGone e))"

definition openExit :: "dial \<Rightarrow> procID \<Rightarrow> unit result" where
  "openExit dial pid =
     (if \<not> watchable pid then Inl ErrNotWatchable
      else case dial pid of
             None \<Rightarrow> Inr ()
           | Some e \<Rightarrow> if lifeGone e then Inl ErrProcGone else Inl e)"

text \<open>
  The function \<open>onExit\<close> returns: it does nothing for a process that was already gone, and
  otherwise names the watch object and the key of the callback.
\<close>

datatype cancel = NoCancel | Cancel nat nat

definition add_fn :: "'f watches \<Rightarrow> nat \<Rightarrow> 'f \<Rightarrow> 'f watches \<times> cancel" where
  "add_fn ws a f =
     (let key = next_key ws + 1; w = objs ws ! a in
      (ws\<lparr>next_key := key, objs := (objs ws)[a := w\<lparr>fns := fns w @ [(key, f)]\<rparr>]\<rparr>, Cancel a key))"

definition onExit :: "dial \<Rightarrow> 'f watches \<Rightarrow> procID \<Rightarrow> 'f \<Rightarrow> 'f watches \<times> ('f \<times> ipc_error option) list \<times> cancel result" where
  "onExit dial ws pid f =
     (case byID ws pid of
        Some a \<Rightarrow> (case add_fn ws a f of (ws', c) \<Rightarrow> (ws', [], Inr c))
      | None \<Rightarrow>
          (case openExit dial pid of
             Inl e \<Rightarrow> if errors_is e ErrProcGone then (ws, [(f, None)], Inr NoCancel) else (ws, [], Inl e)
           | Inr _ \<Rightarrow>
               (let a = length (objs ws);
                    w = \<lparr>w_proc = pid, fns = [], stopped = False, w_open = True\<rparr>;
                    ws' = ws\<lparr>objs := objs ws @ [w], byID := (byID ws)(pid \<mapsto> a)\<rparr>
                in case add_fn ws' a f of (ws'', c) \<Rightarrow> (ws'', [], Inr c))))"

fun cancel_exit :: "'f watches \<Rightarrow> cancel \<Rightarrow> 'f watches" where
  "cancel_exit ws NoCancel = ws"
| "cancel_exit ws (Cancel a key) =
     (let w = objs ws ! a; w' = w\<lparr>fns := filter (\<lambda>(k, _). k \<noteq> key) (fns w)\<rparr> in
      if fns w' = [] \<and> \<not> stopped w
      then ws\<lparr>objs := (objs ws)[a := w'\<lparr>stopped := True, w_open := False\<rparr>], byID := (byID ws)(w_proc w := None)\<rparr>
      else ws\<lparr>objs := (objs ws)[a := w']\<rparr>)"

text \<open>\<open>run\<close> once the waiter of watch \<open>a\<close> has returned \<open>err\<close>.\<close>

definition run :: "dial \<Rightarrow> 'f watches \<Rightarrow> nat \<Rightarrow> ipc_error option \<Rightarrow> 'f watches \<times> ('f \<times> ipc_error option) list" where
  "run dial ws a err =
     (let w = objs ws ! a; pid = w_proc w in
      if stopped w then (ws, [])
      else
        let ws' = ws\<lparr>objs := (objs ws)[a := w\<lparr>stopped := True, w_open := False\<rparr>], byID := (byID ws)(pid := None)\<rparr>;
            err' = (if err \<noteq> None \<and> isDead dial (exited ws') pid then None else err);
            ws'' = (if err' = None then ws'\<lparr>exited := (exited ws')(pid := True)\<rparr> else ws')
        in (ws'', map (\<lambda>(_, f). (f, err')) (fns w)))"

section \<open>Invariant\<close>

text \<open>
  \<open>byID\<close> names exactly the watches that have not stopped, each under its own process; a
  watch that has not stopped has a callback, and keys are unique and not reused.
\<close>

definition watch_ok :: "nat \<Rightarrow> 'f watch \<Rightarrow> bool" where
  "watch_ok n w \<longleftrightarrow> (\<not> stopped w \<longrightarrow> fns w \<noteq> []) \<and> w_open w = (\<not> stopped w) \<and>
     distinct (map fst (fns w)) \<and> (\<forall>(k, f) \<in> set (fns w). k \<le> n)"

definition watches_ok :: "'f watches \<Rightarrow> bool" where
  "watches_ok ws \<longleftrightarrow>
     (\<forall>pid a. byID ws pid = Some a \<longleftrightarrow> a < length (objs ws) \<and> \<not> stopped (objs ws ! a) \<and> w_proc (objs ws ! a) = pid) \<and>
     (\<forall>w \<in> set (objs ws). watch_ok (next_key ws) w)"

text \<open>The callbacks that wait for an exit.\<close>

definition pending :: "'f watch \<Rightarrow> 'f multiset" where
  "pending w = (if stopped w then {#} else mset (map snd (fns w)))"

definition pending_all :: "'f watches \<Rightarrow> 'f multiset" where
  "pending_all ws = sum_list (map pending (objs ws))"

datatype 'f watch_op = OnExit procID 'f | CancelOp cancel | Exit nat "ipc_error option"

text \<open>One operation, with the callbacks it registers, runs and cancels.\<close>

definition cancelled :: "'f watches \<Rightarrow> cancel \<Rightarrow> 'f list" where
  "cancelled ws c =
     (case c of
        NoCancel \<Rightarrow> []
      | Cancel a key \<Rightarrow> if stopped (objs ws ! a) then [] else map snd (filter (\<lambda>(k, _). k = key) (fns (objs ws ! a))))"

fun op_valid :: "'f watches \<Rightarrow> 'f watch_op \<Rightarrow> bool" where
  "op_valid ws (OnExit pid f) = True"
| "op_valid ws (CancelOp NoCancel) = True"
| "op_valid ws (CancelOp (Cancel a key)) = (a < length (objs ws))"
| "op_valid ws (Exit a err) = (a < length (objs ws))"

fun do_watch_op :: "dial \<Rightarrow> 'f watches \<Rightarrow> 'f watch_op \<Rightarrow> 'f watches \<times> 'f list \<times> 'f list \<times> 'f list" where
  "do_watch_op dial ws (OnExit pid f) =
     (case onExit dial ws pid f of
        (ws', calls, Inl _) \<Rightarrow> (ws', [], map fst calls, [])
      | (ws', calls, Inr _) \<Rightarrow> (ws', [f], map fst calls, []))"
| "do_watch_op dial ws (CancelOp c) = (cancel_exit ws c, [], [], cancelled ws c)"
| "do_watch_op dial ws (Exit a err) = (case run dial ws a err of (ws', calls) \<Rightarrow> (ws', [], map fst calls, []))"

fun watch_ops :: "dial \<Rightarrow> 'f watches \<Rightarrow> 'f watch_op list \<Rightarrow> 'f watches \<times> 'f list \<times> 'f list \<times> 'f list" where
  "watch_ops dial ws [] = (ws, [], [], [])"
| "watch_ops dial ws (x # xs) =
     (case do_watch_op dial ws x of (ws', reg, called, canc) \<Rightarrow>
      case watch_ops dial ws' xs of (ws'', reg', called', canc') \<Rightarrow>
        (ws'', reg @ reg', called @ called', canc @ canc'))"

text \<open>A sequence of operations names only watches that exist when its turn comes.\<close>

fun ops_valid :: "dial \<Rightarrow> 'f watches \<Rightarrow> 'f watch_op list \<Rightarrow> bool" where
  "ops_valid dial ws [] = True"
| "ops_valid dial ws (x # xs) \<longleftrightarrow> op_valid ws x \<and> ops_valid dial (fst (do_watch_op dial ws x)) xs"

lemma sum_list_update_mset:
  fixes f :: "'a \<Rightarrow> 'b multiset"
  assumes "a < length xs"
  shows "sum_list (map f (xs[a := y])) + f (xs ! a) = sum_list (map f xs) + f y"
  using assms
proof (induction xs arbitrary: a)
  case (Cons x xs)
  then show ?case by (cases a) (simp_all add: ac_simps)
qed simp

lemma pending_update:
  assumes "a < length (objs ws)"
  shows "sum_list (map pending ((objs ws)[a := w])) + pending (objs ws ! a) = pending_all ws + pending w"
  using sum_list_update_mset [OF assms, of pending w] by (simp add: pending_all_def)

lemma watches_okD:
  assumes "watches_ok ws" "a < length (objs ws)"
  shows "\<not> stopped (objs ws ! a) \<Longrightarrow> byID ws (w_proc (objs ws ! a)) = Some a"
    and "\<not> stopped (objs ws ! a) \<Longrightarrow> fns (objs ws ! a) \<noteq> []"
    and "distinct (map fst (fns (objs ws ! a)))"
    and "(k, f) \<in> set (fns (objs ws ! a)) \<Longrightarrow> k \<le> next_key ws"
    and "w_open (objs ws ! a) = (\<not> stopped (objs ws ! a))"
  using assms nth_mem [OF assms(2)] unfolding watches_ok_def watch_ok_def by fastforce+

lemma watch_ok_mono: "watch_ok n w \<Longrightarrow> n \<le> m \<Longrightarrow> watch_ok m w"
  by (fastforce simp: watch_ok_def)

lemma byID_iff:
  "watches_ok ws \<Longrightarrow> byID ws pid = Some a \<longleftrightarrow>
    a < length (objs ws) \<and> \<not> stopped (objs ws ! a) \<and> w_proc (objs ws ! a) = pid"
  by (simp add: watches_ok_def)

lemma byID_live:
  "watches_ok ws \<Longrightarrow> byID ws pid = Some a \<Longrightarrow>
    a < length (objs ws) \<and> \<not> stopped (objs ws ! a) \<and> w_proc (objs ws ! a) = pid"
  by (simp add: watches_ok_def)

lemma watches_ok_empty: "watches_ok no_watches"
  by (simp add: watches_ok_def no_watches_def)

text \<open>Replacing one watch object keeps the invariant when the new object and \<open>byID\<close> agree.\<close>

lemma watches_ok_update:
  assumes ok: "watches_ok ws" and a: "a < length (objs ws)"
    and proc: "w_proc w = w_proc (objs ws ! a)" and stop: "stopped (objs ws ! a) \<longrightarrow> stopped w"
    and w: "watch_ok n w" and n: "next_key ws \<le> n"
    and b: "b = (if stopped w \<and> \<not> stopped (objs ws ! a) then (byID ws)(w_proc w := None) else byID ws)"
  shows "watches_ok (ws\<lparr>next_key := n, objs := (objs ws)[a := w], byID := b\<rparr>)"
proof -
  have "watch_ok n v" if "v \<in> set ((objs ws)[a := w])" for v
  proof -
    have "v = w \<or> v \<in> set (objs ws)" using that set_update_subset_insert by fastforce
    then show ?thesis using w ok watch_ok_mono [OF _ n] by (auto simp: watches_ok_def)
  qed
  moreover have "c = a" if "c < length (objs ws)" "\<not> stopped (objs ws ! c)" "\<not> stopped (objs ws ! a)"
    "w_proc (objs ws ! c) = w_proc (objs ws ! a)" for c
    using watches_okD(1) [OF ok that(1) that(2)] watches_okD(1) [OF ok a that(3)]
    unfolding that(4) by (metis option.inject)
  then have "b pid = Some c \<longleftrightarrow> c < length (objs ws) \<and> \<not> stopped ((objs ws)[a := w] ! c) \<and>
      w_proc ((objs ws)[a := w] ! c) = pid" for pid c
    using byID_iff [OF ok] a proc stop watches_okD(1) [OF ok a]
    by (cases "c = a") (auto simp: b split: if_splits)
  ultimately show ?thesis by (simp add: watches_ok_def)
qed

lemma add_fn_ok:
  assumes "watches_ok ws" "a < length (objs ws)" "\<not> stopped (objs ws ! a)" "add_fn ws a f = (ws', c)"
  shows "watches_ok ws'" "pending_all ws' = add_mset f (pending_all ws)"
proof -
  let ?w = "objs ws ! a"
  let ?v = "?w\<lparr>fns := fns ?w @ [(next_key ws + 1, f)]\<rparr>"
  have ws': "ws' = ws\<lparr>next_key := next_key ws + 1, objs := (objs ws)[a := ?v], byID := byID ws\<rparr>"
    using assms(4) by (auto simp: add_fn_def Let_def)
  note D = watches_okD [OF assms(1,2)]
  have "next_key ws + 1 \<notin> fst ` set (fns ?w)" using D(4) by fastforce
  then show "watches_ok ws'" unfolding ws' using D(3,4,5) assms(3)
    by (intro watches_ok_update [OF assms(1,2)]) (fastforce simp: watch_ok_def)+
  have "pending ?v = add_mset f (pending ?w)" using assms(3) by (simp add: pending_def)
  then show "pending_all ws' = add_mset f (pending_all ws)"
    using pending_update [OF assms(2), of ?v] by (simp add: ws' pending_all_def)
qed

lemma new_watch_fn_ok:
  fixes ws :: "'f watches"
  assumes ok: "watches_ok ws" and none: "byID ws pid = None"
    and ws1: "ws1 = ws\<lparr>objs := objs ws @ [w], byID := (byID ws)(pid \<mapsto> length (objs ws))\<rparr>"
    and w: "w = \<lparr>w_proc = pid, fns = [], stopped = False, w_open = True\<rparr>"
    and ws': "add_fn ws1 (length (objs ws)) f = (ws', c)"
  shows "watches_ok ws'" "pending_all ws' = add_mset f (pending_all ws)"
proof -
  have nb: "\<not> (c < length (objs ws) \<and> \<not> stopped (objs ws ! c) \<and> w_proc (objs ws ! c) = pid)" for c
    using ok none unfolding watches_ok_def by (metis option.distinct(1))
  have ws'_eq: "ws' = ws1\<lparr>next_key := next_key ws + 1, objs := objs ws @ [w\<lparr>fns := [(next_key ws + 1, f)]\<rparr>]\<rparr>"
    using ws' by (auto simp: add_fn_def Let_def ws1 w nth_append list_update_append)
  show "watches_ok ws'"
    unfolding watches_ok_def
  proof (intro conjI allI ballI)
    fix q b
    show "byID ws' q = Some b \<longleftrightarrow> b < length (objs ws') \<and> \<not> stopped (objs ws' ! b) \<and> w_proc (objs ws' ! b) = q"
      using ok nb unfolding watches_ok_def by (auto simp: ws'_eq ws1 w nth_append less_Suc_eq)
  next
    fix v assume "v \<in> set (objs ws')"
    then show "watch_ok (next_key ws') v"
      using ok watch_ok_mono [of "next_key ws" v "next_key ws + 1"]
      by (auto simp: ws'_eq ws1 w watches_ok_def watch_ok_def )
  qed
  show "pending_all ws' = add_mset f (pending_all ws)"
    by (simp add: ws'_eq ws1 w pending_all_def pending_def)
qed

lemma onExit_ok:
  assumes "watches_ok ws" "onExit dial ws pid f = (ws', calls, res)"
  shows "watches_ok ws'"
    and "pending_all ws' + mset (map fst calls) =
      pending_all ws + (case res of Inl _ \<Rightarrow> {#} | Inr _ \<Rightarrow> {#f#})"
proof -
  have "watches_ok ws' \<and> pending_all ws' + mset (map fst calls) =
      pending_all ws + (case res of Inl _ \<Rightarrow> {#} | Inr _ \<Rightarrow> {#f#})"
  proof (cases "byID ws pid")
    case (Some a)
    obtain v c where v: "add_fn ws a f = (v, c)" by force
    show ?thesis
      using assms(2) add_fn_ok [OF assms(1) _ _ v] byID_live [OF assms(1) Some]
      by (auto simp: onExit_def Some v)
  next
    case None
    let ?w = "\<lparr>w_proc = pid, fns = [], stopped = False, w_open = True\<rparr>"
    let ?ws = "ws\<lparr>objs := objs ws @ [?w], byID := (byID ws)(pid \<mapsto> length (objs ws))\<rparr>"
    obtain v c where v: "add_fn ?ws (length (objs ws)) f = (v, c)" by force
    show ?thesis
      using assms new_watch_fn_ok [OF assms(1) None refl refl v]
      by (auto simp: onExit_def None v Let_def split: sum.splits if_splits)
  qed
  then show "watches_ok ws'" "pending_all ws' + mset (map fst calls) =
      pending_all ws + (case res of Inl _ \<Rightarrow> {#} | Inr _ \<Rightarrow> {#f#})" by simp_all
qed

lemma mset_filter_key:
  "mset (map snd xs) = mset (map snd (filter (\<lambda>(k, _). k \<noteq> key) xs)) + mset (map snd (filter (\<lambda>(k, _). k = key) xs))"
  by (induction xs) auto

lemma cancel_exit_ok:
  assumes ok: "watches_ok ws" and v: "op_valid ws (CancelOp c)"
  shows "watches_ok (cancel_exit ws c)" "pending_all (cancel_exit ws c) + mset (cancelled ws c) = pending_all ws"
proof -
  have "watches_ok (cancel_exit ws c) \<and> pending_all (cancel_exit ws c) + mset (cancelled ws c) = pending_all ws"
  proof (cases c)
    case (Cancel a key)
    let ?w = "objs ws ! a" and ?keep = "filter (\<lambda>(k, _). k \<noteq> key) (fns (objs ws ! a))"
    define stop where "stop \<longleftrightarrow> ?keep = [] \<or> stopped ?w"
    define v where "v = ?w\<lparr>fns := ?keep, stopped := stop, w_open := (\<not> stop)\<rparr>"
    have a: "a < length (objs ws)" using v Cancel by simp
    note D = watches_okD [OF ok a]
    let ?b = "if stopped v \<and> \<not> stopped ?w then (byID ws)(w_proc v := None) else byID ws"
    have eq: "cancel_exit ws c = ws\<lparr>next_key := next_key ws, objs := (objs ws)[a := v], byID := ?b\<rparr>"
      using D(5) by (cases ?w) (auto simp: Cancel Let_def v_def stop_def)
    have "watches_ok (cancel_exit ws c)" unfolding eq using D(3,4)
      by (intro watches_ok_update [OF ok a]) (auto simp: v_def stop_def watch_ok_def distinct_map inj_on_def)
    moreover have "pending v + mset (cancelled ws c) = pending ?w"
    proof (cases "stopped ?w")
      case False
      have "pending v = mset (map snd ?keep)"
        by (cases "?keep = []") (simp_all add: pending_def v_def stop_def False)
      then show ?thesis
        using mset_filter_key [of "fns ?w" key] by (simp add: pending_def cancelled_def Cancel False del: mset_map mset_filter)
    qed (simp add: pending_def v_def stop_def cancelled_def Cancel)
    then have "pending v + (mset (cancelled ws c) + sum_list (map pending ((objs ws)[a := v]))) = pending v + pending_all ws"
      using pending_update [OF a, of v] by (metis add.assoc add.commute)
    ultimately show ?thesis by (simp add: eq pending_all_def ac_simps)
  qed (use ok in \<open>simp add: cancelled_def\<close>)
  then show "watches_ok (cancel_exit ws c)" "pending_all (cancel_exit ws c) + mset (cancelled ws c) = pending_all ws"
    by simp_all
qed

lemma run_ok:
  assumes ok: "watches_ok ws" and a: "a < length (objs ws)" and run: "run dial ws a err = (ws', calls)"
  shows "watches_ok ws'" "pending_all ws' + mset (map fst calls) = pending_all ws"
proof -
  let ?w = "objs ws ! a"
  let ?v = "?w\<lparr>stopped := True, w_open := False\<rparr>"
  note D = watches_okD [OF ok a]
  have "watches_ok ws' \<and> pending_all ws' + mset (map fst calls) = pending_all ws"
  proof (cases "stopped ?w")
    case False
    let ?ws = "ws\<lparr>next_key := next_key ws, objs := (objs ws)[a := ?v], byID := (byID ws)(w_proc ?v := None)\<rparr>"
    have ws: "watches_ok ?ws" using D(3,4) False
      by (intro watches_ok_update [OF ok a]) (auto simp: watch_ok_def)
    have same: "objs ws' = objs ?ws" "byID ws' = byID ?ws" "next_key ws' = next_key ?ws"
      and calls: "map fst calls = map snd (fns ?w)"
      using run False by (auto simp: run_def Let_def split: if_splits)
    have "watches_ok ws'" using ws by (simp add: watches_ok_def same)
    moreover have "pending_all ws' + mset (map fst calls) = pending_all ws"
      using pending_update [OF a, of ?v] False by (simp add: pending_all_def same calls pending_def)
    ultimately show ?thesis by blast
  qed (use ok run in \<open>auto simp: run_def\<close>)
  then show "watches_ok ws'" "pending_all ws' + mset (map fst calls) = pending_all ws" by simp_all
qed

lemma do_watch_op_ok:
  assumes "watches_ok ws" "op_valid ws x" "do_watch_op dial ws x = (ws', reg, called, canc)"
  shows "watches_ok ws' \<and> pending_all ws' + mset called + mset canc = pending_all ws + mset reg"
proof (cases x)
  case (OnExit pid f)
  obtain v calls res where v: "onExit dial ws pid f = (v, calls, res)" by (cases "onExit dial ws pid f") auto
  show ?thesis using assms(3) onExit_ok [OF assms(1) v] by (auto simp: OnExit v split: sum.splits)
next
  case (CancelOp c)
  then show ?thesis using assms cancel_exit_ok [OF assms(1), of c] by auto
next
  case (Exit a err)
  obtain v calls where v: "run dial ws a err = (v, calls)" by force
  show ?thesis using assms run_ok [OF assms(1) _ v] by (auto simp: Exit v)
qed

lemma watch_ops_ok:
  assumes "watches_ok ws" "ops_valid dial ws xs" "watch_ops dial ws xs = (ws', reg, called, canc)"
  shows "watches_ok ws' \<and> pending_all ws' + mset called + mset canc = pending_all ws + mset reg"
  using assms
proof (induction xs arbitrary: ws reg called canc)
  case (Cons x xs)
  obtain v r1 c1 k1 where v: "do_watch_op dial ws x = (v, r1, c1, k1)" by (cases "do_watch_op dial ws x") auto
  obtain r2 c2 k2 where v': "watch_ops dial v xs = (ws', r2, c2, k2)"
    using Cons.prems(3) by (auto simp: v split: prod.splits)
  have one: "watches_ok v" "pending_all v + mset c1 + mset k1 = pending_all ws + mset r1"
    using do_watch_op_ok [OF Cons.prems(1) _ v] Cons.prems(2) by auto
  have two: "watches_ok ws'" "pending_all ws' + mset c2 + mset k2 = pending_all v + mset r2"
    using Cons.IH [OF one(1) _ v'] Cons.prems(2) by (simp_all add: v)
  have eqs: "reg = r1 @ r2" "called = c1 @ c2" "canc = k1 @ k2" using Cons.prems(3) by (simp_all add: v v')
  have "pending_all ws' + mset called + mset canc = (pending_all ws' + mset c2 + mset k2) + (mset c1 + mset k1)"
    by (simp add: eqs)
  also have "\<dots> = (pending_all v + mset c1 + mset k1) + mset r2" using two(2) by simp
  finally show ?case using one(2) two(1) by (simp add: eqs)
qed simp

lemma watchable_2_63 [simp]: "watchable 9223372036854775808"
proof -
  have "(9223372036854775808 :: nat) = 2 ^ 63" by simp
  then show ?thesis unfolding watchable_def watchableBit_def by (metis and.idem power_not_zero zero_neq_numeral)
qed

section \<open>Properties\<close>

text \<open>
  C23: Whatever sequence of registrations, cancellations and exits runs in a process, each
  callback given to onExit is run once, or was cancelled before its run, or still waits for
  an exit, and never two of these; and there is at most one open watch for a process.
\<close>

theorem onExit_exactly_once:
  assumes "ops_valid dial no_watches xs" "watch_ops dial no_watches xs = (ws, reg, called, canc)"
  shows "mset reg = mset called + mset canc + pending_all ws \<and>
    (\<forall>a b. a < length (objs ws) \<longrightarrow> b < length (objs ws) \<longrightarrow> w_open (objs ws ! a) \<longrightarrow> w_open (objs ws ! b) \<longrightarrow>
       w_proc (objs ws ! a) = w_proc (objs ws ! b) \<longrightarrow> a = b)"
proof -
  have ok: "watches_ok ws" "pending_all ws + mset called + mset canc = mset reg"
    using watch_ops_ok [OF watches_ok_empty assms] by (simp_all add: no_watches_def pending_all_def)
  have "a = b" if "a < length (objs ws)" "b < length (objs ws)" "w_open (objs ws ! a)" "w_open (objs ws ! b)"
    "w_proc (objs ws ! a) = w_proc (objs ws ! b)" for a b
    using watches_okD(1,5) [OF ok(1) that(1)] watches_okD(1,5) [OF ok(1) that(2)] that(3-5)
    by (metis option.inject)
  moreover have "mset reg = mset called + mset canc + pending_all ws"
    unfolding ok(2) [symmetric] by simp
  ultimately show ?thesis by blast
qed

theorem onExit_exactly_once_witness:
  "\<exists>ws. watch_ops (\<lambda>_. None) no_watches [OnExit (2 ^ 63) ''a'', OnExit (2 ^ 63) ''b'', CancelOp (Cancel 0 1), Exit 0 None] =
     (ws, [''a'', ''b''], [''b''], [''a'']) \<and> pending_all ws = {#}"
proof -
  let ?xs = "[OnExit (2 ^ 63) ''a'', OnExit (2 ^ 63) ''b'', CancelOp (Cancel 0 1), Exit 0 None]"
  have v: "ops_valid (\<lambda>_. None) no_watches ?xs"
    by (simp add: no_watches_def onExit_def openExit_def add_fn_def Let_def)
  obtain ws where ws: "watch_ops (\<lambda>_. None) no_watches ?xs = (ws, [''a'', ''b''], [''b''], [''a''])"
    by (simp add: no_watches_def onExit_def openExit_def add_fn_def Let_def cancelled_def run_def)
  from onExit_exactly_once [OF v ws] ws show ?thesis by simp
qed

text \<open>
  A process counts as dead only when it has a life socket and that socket is gone or
  refuses, or an exit was seen; once an exit has reached the callbacks of a watch with no
  error, the process stays dead whatever a later dial returns.
\<close>

theorem run_marks_dead:
  assumes "a < length (objs ws)" "\<not> stopped (objs ws ! a)" "watchable (w_proc (objs ws ! a))"
    and "run dial ws a err = (ws', calls)"
  shows "(err = None \<longrightarrow> isDead dial' (exited ws') (w_proc (objs ws ! a))) \<and>
    (\<forall>(f, e) \<in> set calls. e = None \<longrightarrow> isDead dial' (exited ws') (w_proc (objs ws ! a))) \<and>
    (\<forall>(f, e) \<in> set calls. e \<noteq> None \<longrightarrow> e = err \<and> \<not> isDead dial (exited ws) (w_proc (objs ws ! a)))"
  using assms by (auto simp: run_def Let_def isDead_def split: if_splits)

theorem run_marks_dead_witness:
  "isDead (\<lambda>_. None) (exited (fst (run (\<lambda>_. Some ErrRefused)
     (fst (onExit (\<lambda>_. None) no_watches (2 ^ 63) ())) 0 (Some ErrEOF)))) (2 ^ 63)"
proof -
  let ?ws = "fst (onExit (\<lambda>_. None) no_watches (2 ^ 63) ())"
  have ws: "objs ?ws = [\<lparr>w_proc = 2 ^ 63, fns = [(1, ())], stopped = False, w_open = True\<rparr>]" "exited ?ws = (\<lambda>_. False)"
    by (simp_all add: no_watches_def onExit_def openExit_def add_fn_def Let_def)
  obtain ws' where r: "run (\<lambda>_. Some ErrRefused) ?ws 0 (Some ErrEOF) = (ws', [((), None)])"
    using ws by (simp add: run_def Let_def isDead_def lifeGone_def isRefused_def)
  from run_marks_dead [OF _ _ _ r, of "\<lambda>_. None"] ws r show ?thesis by simp
qed

lemma bit_randomID: "bit (randomID raw) n = (bit (le_val raw) n \<or> n = 63 \<or> n = 62)"
  unfolding randomID_def watchableBit_def anyProc_def bit_or_iff bit_exp_iff by auto

lemma bit_ge: "bit (m::nat) n \<Longrightarrow> 2 ^ n \<le> m"
  by (metis bit_iff_odd div_less even_zero not_le)

lemma bit_62_gt: "bit (m::nat) 62 \<Longrightarrow> 1 < m"
  using bit_ge [of m 62] by simp

lemma watchable_iff: "watchable pid = bit pid 63"
  unfolding watchable_def watchableBit_def by (simp only: and_exp_eq_0_iff_not_bit not_not)

text \<open>
  The identity a process gets is never one of the reserved values; it carries the
  watchable bit exactly when the life socket of the process listens, and every later call
  returns the same identity.
\<close>

theorem selfID_not_reserved:
  "let s = selfID None raw listenLife in
     noProc < self_id s \<and> pendingProc < self_id s \<and>
     watchable (self_id s) = (listenLife (randomID raw) = None) \<and> self_live s = watchable (self_id s) \<and>
     selfID (Some s) raw' listenLife' = s"
proof -
  define off where "off = nat (int (randomID raw) AND NOT (int watchableBit))"
  have bits: "bit off n = (bit (randomID raw) n \<and> n \<noteq> 63)" for n
    unfolding off_def watchableBit_def of_nat_power of_nat_numeral
    by (simp only: bit_nat_iff bit_and_iff bit_not_iff bit_of_nat_iff bit_exp_iff) (auto simp: bit_of_nat_iff)
  have "1 < randomID raw" "1 < off" by (rule bit_62_gt, simp add: bits bit_randomID)+
  then show ?thesis
    using bits [of 63] bit_randomID [of raw 63]
    by (simp add: selfID_def Let_def watchable_iff off_def [symmetric] noProc_def pendingProc_def split: option.split)
qed

end
