(* ===== verification/Queue.thy ===== *)
theory Queue
  imports Recover Event Identity
begin

text \<open>
  The queue of \<^verbatim>\<open>src/queue.go\<close> and \<^verbatim>\<open>src/queue_peer.go\<close>: a ring with its two events, as one handle
  of one process sees it. Each operation is a function on the handle. What other goroutines
  and processes do meanwhile enters where the code lets it in: at a wait of \<open>park\<close>.
\<close>

section \<open>Configuration\<close>

record config =
  cfg_capacity :: int

type_synonym option_fn = "config \<Rightarrow> config"

definition DefaultCapacity :: int where "DefaultCapacity = 2 ^ 20"

definition defaultConfig :: config where
  "defaultConfig = \<lparr>cfg_capacity = DefaultCapacity\<rparr>"

definition apply_opts :: "config \<Rightarrow> option_fn list \<Rightarrow> config \<times> ipc_error option" where
  "apply_opts c opts =
     (let c' = fold (\<lambda>f c. f c) opts c in
      (c', if cfg_capacity c' < int MinCapacity \<or> cfg_capacity c' AND (cfg_capacity c' - 1) \<noteq> 0
           then Some ErrInvalidCapacity else None))"

definition WithCapacity :: "int \<Rightarrow> option_fn" where
  "WithCapacity n = (\<lambda>c. c\<lparr>cfg_capacity := n\<rparr>)"

section \<open>State\<close>

text \<open>A callback a queue hands to \<open>onExit\<close>.\<close>

datatype callback = PeerExited procID | ProducerExited procID

record peerWatch =
  pw_id :: procID
  pw_gone :: bool
  pw_failed :: "ipc_error option"
  pw_cancel :: "cancel option"

record producerWatch =
  cancels :: "(procID \<times> cancel) list"
  pr_closed :: bool
  pr_failed :: "ipc_error option"

text \<open>
  The handle. \<open>watching\<close> holds the exit watches of the process and \<open>spawned\<close> the callbacks
  that \<open>onExit\<close> starts at once; \<open>mapped\<close> says whether the segment is mapped.
\<close>

record Queue =
  ring :: Ring
  notEmpty :: eventImpl
  notFull :: eventImpl
  q_self :: procID
  reader :: bool
  q_idle :: "int list"
  owned :: "nat list"
  peer :: peerWatch
  producers :: producerWatch
  q_closing :: bool
  q_active :: int
  q_drained :: bool
  mapped :: bool
  watching :: "callback watches"
  spawned :: "(callback \<times> ipc_error option) list"

text \<open>
  What the kernel answers: dials of life sockets, the stat of the name, writes to a FIFO, and
  the closes of the files of the two events. The answers stay the same during one operation.
\<close>

record env =
  dial_of :: dial
  name_gone :: bool
  pipe_of :: pipe
  ne_close :: close_errs
  nf_close :: close_errs

definition upd_ring :: "(Ring \<Rightarrow> Ring) \<Rightarrow> Queue \<Rightarrow> Queue" where
  "upd_ring f q = q\<lparr>ring := f (ring q)\<rparr>"

section \<open>The gate\<close>

definition leave :: "Queue \<Rightarrow> Queue" where
  "leave q =
     (let a = q_active q - 1 in
      q\<lparr>q_active := a, q_drained := q_drained q \<or> a = 0 \<and> q_closing q\<rparr>)"

definition enter :: "Queue \<Rightarrow> Queue \<times> bool" where
  "enter q =
     (let q = q\<lparr>q_active := q_active q + 1\<rparr> in
      if q_closing q then (leave q, False) else (q, True))"

section \<open>Waking\<close>

definition wakeReceiver :: "env \<Rightarrow> Queue \<Rightarrow> Queue" where
  "wakeReceiver v q =
     (if recvWaiters (hdr (ring q)) > 0 then q\<lparr>notEmpty := fst (Signal (pipe_of v) (notEmpty q))\<rparr> else q)"

definition wakeSenders :: "env \<Rightarrow> Queue \<Rightarrow> Queue" where
  "wakeSenders v q =
     (let w = sendWaiters (hdr (ring q)) in
      if w > 0 then q\<lparr>notFull := fst (SignalN (pipe_of v) (notFull q) w)\<rparr> else q)"

section \<open>The receiver of the queue\<close>

definition peer_state :: "peerWatch \<Rightarrow> ipc_error option" where
  "peer_state w =
     (if \<not> pw_gone w then None
      else case pw_failed w of
             Some e \<Rightarrow> Some (Wrap ''ipc: cannot watch the receiver'' e)
           | None \<Rightarrow> Some ErrPeerGone)"

definition peer_stop :: "Queue \<Rightarrow> Queue" where
  "peer_stop q =
     (case pw_cancel (peer q) of
        Some c \<Rightarrow> q\<lparr>watching := cancel_exit (watching q) c, peer := (peer q)\<lparr>pw_cancel := None\<rparr>\<rparr>
      | None \<Rightarrow> q)"

definition q_isDead :: "env \<Rightarrow> Queue \<Rightarrow> procID \<Rightarrow> bool" where
  "q_isDead v q pid = isDead (dial_of v) (exited (watching q)) pid"

definition watchPeer :: "env \<Rightarrow> Queue \<Rightarrow> procID \<Rightarrow> Queue \<times> ipc_error option" where
  "watchPeer v q pid =
     (if pw_id (peer q) = pid then (q, peer_state (peer q))
      else
        let q = peer_stop q;
            dead = q_isDead v q pid;
            w = (peer q)\<lparr>pw_failed := None, pw_gone := dead, pw_id := pid\<rparr>
        in if dead then (q\<lparr>peer := w\<rparr>, Some ErrPeerGone)
           else case onExit (dial_of v) (watching q) pid (PeerExited pid) of
                  (ws, calls, Inl e) \<Rightarrow>
                    (q\<lparr>watching := ws, spawned := spawned q @ calls, peer := w\<lparr>pw_id := 0\<rparr>\<rparr>,
                     Some (Wrap ''ipc: cannot watch the receiver'' e))
                | (ws, calls, Inr c) \<Rightarrow>
                    (q\<lparr>watching := ws, spawned := spawned q @ calls, peer := w\<lparr>pw_cancel := Some c\<rparr>\<rparr>, None))"

definition checkPeer :: "env \<Rightarrow> Queue \<Rightarrow> Queue \<times> ipc_error option" where
  "checkPeer v q =
     (let pid = consumer (hdr (ring q)) in
      if pid = noProc then (q, Some ErrPeerGone)
      else if pid = pendingProc \<or> pid = q_self q then (q, None)
      else if \<not> watchable pid then (q, None)
      else if pw_id (peer q) = pid then (q, peer_state (peer q))
      else watchPeer v q pid)"

definition receiverUnlinked :: "env \<Rightarrow> bool" where
  "receiverUnlinked v = name_gone v"

definition sawPeerGone :: "Queue \<Rightarrow> ipc_error \<Rightarrow> Queue \<times> ipc_error" where
  "sawPeerGone q e =
     (let e = (if errors_is e ErrNotExist then Wrap ''file does not exist'' ErrPeerGone else e) in
      (if errors_is e ErrPeerGone then q\<lparr>peer := (peer q)\<lparr>pw_gone := True\<rparr>\<rparr> else q, e))"

text \<open>\<open>peerExited\<close> also says whether it ran the functions of \<open>onPeerGone\<close>.\<close>

definition peerExited :: "env \<Rightarrow> Queue \<Rightarrow> procID \<Rightarrow> ipc_error option \<Rightarrow> Queue \<times> bool" where
  "peerExited v q pid err =
     (case enter q of
        (q, False) \<Rightarrow> (q, False)
      | (q, True) \<Rightarrow>
          if pw_id (peer q) \<noteq> pid then (leave q, False)
          else
            let failed = (case err of Some e \<Rightarrow> Some e | None \<Rightarrow> pw_failed (peer q));
                q = q\<lparr>peer := (peer q)\<lparr>pw_failed := failed, pw_gone := True\<rparr>\<rparr>
            in (leave (wakeSenders v q), True))"

section \<open>The producers of the queue\<close>

definition producers_stop :: "Queue \<Rightarrow> Queue" where
  "producers_stop q =
     q\<lparr>watching := fold (\<lambda>(_, c) ws. cancel_exit ws c) (cancels (producers q)) (watching q),
       producers := (producers q)\<lparr>pr_closed := True, cancels := []\<rparr>\<rparr>"

definition watchProducer :: "env \<Rightarrow> Queue \<Rightarrow> procID \<Rightarrow> Queue \<times> ipc_error option" where
  "watchProducer v q pid =
     (let w = producers q in
      if pr_closed w then (q, None)
      else case pr_failed w of
             Some e \<Rightarrow> (q, Some e)
           | None \<Rightarrow>
               if map_of (cancels w) pid \<noteq> None then (q, None)
               else case onExit (dial_of v) (watching q) pid (ProducerExited pid) of
                      (ws, calls, Inl e) \<Rightarrow>
                        (q\<lparr>watching := ws, spawned := spawned q @ calls\<rparr>,
                         Some (Wrap ''ipc: cannot watch a producer'' e))
                    | (ws, calls, Inr c) \<Rightarrow>
                        (q\<lparr>watching := ws, spawned := spawned q @ calls,
                           producers := w\<lparr>cancels := (pid, c) # cancels w\<rparr>\<rparr>, None))"

definition producerExited :: "env \<Rightarrow> Queue \<Rightarrow> procID \<Rightarrow> ipc_error option \<Rightarrow> Queue" where
  "producerExited v q pid err =
     (case enter q of
        (q, False) \<Rightarrow> q
      | (q, True) \<Rightarrow>
          let w = producers q;
              failed = (case err of
                  Some e \<Rightarrow> if pr_failed w = None then Some (Wrap ''ipc: cannot watch a producer'' e) else pr_failed w
                | None \<Rightarrow> pr_failed w);
              w = w\<lparr>cancels := filter (\<lambda>(p, _). p \<noteq> pid) (cancels w), pr_failed := failed\<rparr>
          in leave (q\<lparr>producers := w, notEmpty := fst (Signal (pipe_of v) (notEmpty q))\<rparr>))"

text \<open>The loop of \<open>unstall\<close> over the slots that cover the stall.\<close>

fun unstall_slots :: "env \<Rightarrow> Queue \<Rightarrow> stall \<Rightarrow> nat list \<Rightarrow> nat list \<Rightarrow> u64 \<Rightarrow> Queue \<times> bool result" where
  "unstall_slots v q st [] dead stop =
     (if dead = [] then (q, Inr False)
      else case reclaim (ring q) st stop dead of (r, ok) \<Rightarrow> (q\<lparr>ring := r\<rparr>, Inr ok))"
| "unstall_slots v q st (i # is) dead stop =
     (let s = slots (hdr (ring q)) ! i in
      if slot_owner s = noProc \<or> \<not> covers s (st_at st) then unstall_slots v q st is dead stop
      else if slot_owner s = q_self q \<or> \<not> watchable (slot_owner s) then (q, Inr False)
      else if \<not> q_isDead v q (slot_owner s) then
        (case watchProducer v q (slot_owner s) of
           (q, Some e) \<Rightarrow> (q, Inl e)
         | (q, None) \<Rightarrow> (q, Inr False))
      else if dead \<noteq> [] \<and> add64 (slot_at s) (slot_size s) \<noteq> stop then
        (q, Inl (Wrap ''dead producers disagree on a claim'' ErrCorrupt))
      else unstall_slots v q st is (dead @ [i]) (add64 (slot_at s) (slot_size s)))"

definition unstall :: "env \<Rightarrow> Queue \<Rightarrow> Queue \<times> bool result" where
  "unstall v q =
     (case stalled (ring q) of
        None \<Rightarrow> (q, Inr False)
      | Some st \<Rightarrow> unstall_slots v q st (st_slots st) [] 0)"

section \<open>Claim slots of the handle\<close>

definition takeSlot :: "env \<Rightarrow> Queue \<Rightarrow> Queue \<times> int result" where
  "takeSlot v q =
     (if q_idle q \<noteq> [] then (q\<lparr>q_idle := butlast (q_idle q)\<rparr>, Inr (last (q_idle q)))
      else case acquireSlot (ring q) (q_self q) (q_isDead v q) of
             (r, Inl e) \<Rightarrow> (q\<lparr>ring := r\<rparr>, Inl e)
           | (r, Inr i) \<Rightarrow> (q\<lparr>ring := r, owned := owned q @ [i]\<rparr>, Inr (int i)))"

definition putSlot :: "Queue \<Rightarrow> int \<Rightarrow> Queue" where
  "putSlot q slot = q\<lparr>q_idle := q_idle q @ [slot]\<rparr>"

section \<open>Sending\<close>

text \<open>
  The claim loop of the ring may go on for ever in theory, so an operation that claims
  returns an option; on a ring that keeps its invariant it always returns.
\<close>

definition q_write :: "env \<Rightarrow> Queue \<Rightarrow> u32 \<Rightarrow> bytes \<Rightarrow> (Queue \<times> unit result) option" where
  "q_write v q ty payload =
     (case checkPeer v q of
        (q, Some e) \<Rightarrow> Some (q, Inl e)
      | (q, None) \<Rightarrow>
          (case takeSlot v q of
             (q, Inl e) \<Rightarrow> Some (q, Inl e)
           | (q, Inr slot) \<Rightarrow>
               (case tryWrite (ring q) slot ty payload of
                  None \<Rightarrow> None
                | Some (r, res) \<Rightarrow> Some (putSlot (q\<lparr>ring := r\<rparr>) slot, res))))"

definition q_claim :: "env \<Rightarrow> Queue \<Rightarrow> u32 \<Rightarrow> int \<Rightarrow> (Queue \<times> Claim result) option" where
  "q_claim v q ty len =
     (case checkPeer v q of
        (q, Some e) \<Rightarrow> Some (q, Inl e)
      | (q, None) \<Rightarrow>
          (case takeSlot v q of
             (q, Inl e) \<Rightarrow> Some (q, Inl e)
           | (q, Inr slot) \<Rightarrow>
               (case tryClaim (ring q) slot ty len of
                  None \<Rightarrow> None
                | Some (r, Inl e) \<Rightarrow> Some (putSlot (q\<lparr>ring := r\<rparr>) slot, Inl e)
                | Some (r, Inr c) \<Rightarrow> Some (q\<lparr>ring := r\<rparr>, Inr c))))"

definition TrySendTyped :: "env \<Rightarrow> Queue \<Rightarrow> u32 \<Rightarrow> bytes \<Rightarrow> (Queue \<times> unit result) option" where
  "TrySendTyped v q ty payload =
     (case enter q of
        (q, False) \<Rightarrow> Some (q, Inl ErrClosed)
      | (q, True) \<Rightarrow>
          (case q_write v q ty payload of
             None \<Rightarrow> None
           | Some (q, Inl e) \<Rightarrow> Some (leave q, Inl e)
           | Some (q, Inr _) \<Rightarrow> Some (leave (wakeReceiver v q), Inr ())))"

definition TrySend :: "env \<Rightarrow> Queue \<Rightarrow> bytes \<Rightarrow> (Queue \<times> unit result) option" where
  "TrySend v q payload = TrySendTyped v q 0 payload"

text \<open>
  \<open>park\<close> over an attempt. A round is one turn of its loop that blocks: what the world does
  between the two attempts, what it does during the wait, and what the wait returns. The
  result is \<open>None\<close> while the rounds run out before the loop ends.
\<close>

record 's park_round =
  gap :: "'s \<Rightarrow> 's"
  during :: "'s \<Rightarrow> 's"
  wait_err :: "ipc_error option"

fun park :: "('s \<Rightarrow> int \<Rightarrow> 's) \<Rightarrow> ipc_error \<Rightarrow> ('s \<Rightarrow> ('s \<times> 'r result) option) \<Rightarrow> 's park_round list \<Rightarrow> 's \<Rightarrow> ('s \<times> 'r result) option" where
  "park waiters blocked attempt ws s =
     (case attempt s of
        None \<Rightarrow> None
      | Some (s, Inr r) \<Rightarrow> Some (s, Inr r)
      | Some (s, Inl e) \<Rightarrow>
          if e \<noteq> blocked then Some (s, Inl e)
          else case ws of
                 [] \<Rightarrow> None
               | w # ws' \<Rightarrow>
                   (case attempt (gap w (waiters s 1)) of
                      None \<Rightarrow> None
                    | Some (s, Inr r) \<Rightarrow> Some (waiters s (-1), Inr r)
                    | Some (s, Inl e) \<Rightarrow>
                        if e \<noteq> blocked then Some (waiters s (-1), Inl e)
                        else
                          let s = waiters (during w s) (-1) in
                          case wait_err w of
                            None \<Rightarrow> park waiters blocked attempt ws' s
                          | Some e \<Rightarrow>
                              if errors_is e ErrPeerGone then
                                (case attempt s of
                                   None \<Rightarrow> None
                                 | Some (s, Inr r) \<Rightarrow> Some (s, Inr r)
                                 | Some (s, Inl e') \<Rightarrow> if e' \<noteq> blocked then Some (s, Inl e') else Some (s, Inl e))
                              else Some (s, Inl e)))"

declare park.simps [simp del]

definition add_sendWaiters :: "Queue \<Rightarrow> int \<Rightarrow> Queue" where
  "add_sendWaiters q n = upd_ring (\<lambda>r. r\<lparr>hdr := (hdr r)\<lparr>sendWaiters := i32 (sendWaiters (hdr r) + n)\<rparr>\<rparr>) q"

definition add_recvWaiters :: "Queue \<Rightarrow> int \<Rightarrow> Queue" where
  "add_recvWaiters q n = upd_ring (\<lambda>r. r\<lparr>hdr := (hdr r)\<lparr>recvWaiters := i32 (recvWaiters (hdr r) + n)\<rparr>\<rparr>) q"

text \<open>A full ring with no name behind it has no receiver left to drain it.\<close>

definition or_unlinked :: "env \<Rightarrow> (Queue \<times> 'r result) option \<Rightarrow> (Queue \<times> 'r result) option" where
  "or_unlinked v x =
     (case x of
        Some (q, Inl e) \<Rightarrow> if errors_is e ErrFull \<and> receiverUnlinked v then Some (q, Inl ErrPeerGone) else Some (q, Inl e)
      | x \<Rightarrow> x)"

definition SendTyped :: "env \<Rightarrow> Queue park_round list \<Rightarrow> Queue \<Rightarrow> u32 \<Rightarrow> bytes \<Rightarrow> (Queue \<times> unit result) option" where
  "SendTyped v ws q ty payload =
     (case enter q of
        (q, False) \<Rightarrow> Some (q, Inl ErrClosed)
      | (q, True) \<Rightarrow>
          (case park add_sendWaiters ErrFull (\<lambda>q. or_unlinked v (q_write v q ty payload)) ws q of
             None \<Rightarrow> None
           | Some (q, Inl e) \<Rightarrow> (case sawPeerGone q e of (q, e) \<Rightarrow> Some (leave q, Inl e))
           | Some (q, Inr _) \<Rightarrow> Some (leave (wakeReceiver v q), Inr ())))"

definition Send :: "env \<Rightarrow> Queue park_round list \<Rightarrow> Queue \<Rightarrow> bytes \<Rightarrow> (Queue \<times> unit result) option" where
  "Send v ws q payload = SendTyped v ws q 0 payload"

definition Queue_Claim :: "env \<Rightarrow> Queue park_round list \<Rightarrow> Queue \<Rightarrow> u32 \<Rightarrow> int \<Rightarrow> (Queue \<times> Claim result) option" where
  "Queue_Claim v ws q ty len =
     (case enter q of
        (q, False) \<Rightarrow> Some (q, Inl ErrClosed)
      | (q, True) \<Rightarrow>
          (case park add_sendWaiters ErrFull (\<lambda>q. or_unlinked v (q_claim v q ty len)) ws q of
             None \<Rightarrow> None
           | Some (q, Inl e) \<Rightarrow> (case sawPeerGone q e of (q, e) \<Rightarrow> Some (leave q, Inl e))
           | Some (q, Inr c) \<Rightarrow> Some (leave q, Inr c)))"

definition Queue_Commit :: "env \<Rightarrow> Queue \<Rightarrow> Claim \<Rightarrow> Queue" where
  "Queue_Commit v q c =
     (case enter q of
        (q, False) \<Rightarrow> q
      | (q, True) \<Rightarrow> leave (wakeReceiver v (putSlot (upd_ring (\<lambda>r. Commit r c) q) (claim_slot c))))"

definition Queue_Abort :: "env \<Rightarrow> Queue \<Rightarrow> Claim \<Rightarrow> Queue" where
  "Queue_Abort v q c =
     (case enter q of
        (q, False) \<Rightarrow> q
      | (q, True) \<Rightarrow> leave (wakeReceiver v (putSlot (upd_ring (\<lambda>r. Abort r c) q) (claim_slot c))))"

section \<open>Receiving\<close>

text \<open>
  One turn of the loop of \<open>receive\<close>: return what the read gave, go round again after a
  reclaim, or leave the loop. The argument \<open>perr\<close> of \<open>receive\<close> is what \<open>peerErr\<close> gave before
  the first read; a queue that is not part of a channel has none.
\<close>

datatype recv_turn = Return "(u32 \<times> bytes) list" "ipc_error option" | Turn | Break

definition receive_turn :: "env \<Rightarrow> int \<Rightarrow> Queue \<Rightarrow> Queue \<times> recv_turn" where
  "receive_turn v limit q =
     (let before = head (hdr (ring q)) in
      case Read (ring q) limit of (r, msgs, err) \<Rightarrow>
        let q = q\<lparr>ring := r\<rparr>;
            q = (if head (hdr r) \<noteq> before then wakeSenders v q else q)
        in if err \<noteq> None \<or> msgs \<noteq> [] then (q, Return msgs err)
           else case unstall v q of
                  (q, Inl e) \<Rightarrow> (q, Return [] (Some e))
                | (q, Inr reclaimed) \<Rightarrow> (q, if reclaimed then Turn else Break))"

partial_function (option) receive_loop :: "env \<Rightarrow> int \<Rightarrow> Queue \<Rightarrow> (Queue \<times> recv_turn) option" where
  "receive_loop v limit q =
     (case receive_turn v limit q of
        (q, Turn) \<Rightarrow> receive_loop v limit q
      | (q, t) \<Rightarrow> Some (q, t))"

definition receive :: "env \<Rightarrow> ipc_error option \<Rightarrow> int \<Rightarrow> Queue \<Rightarrow> (Queue \<times> (u32 \<times> bytes) list \<times> ipc_error option) option" where
  "receive v perr limit q =
     (case receive_loop v limit q of
        None \<Rightarrow> None
      | Some (q, Return msgs err) \<Rightarrow> Some (q, msgs, err)
      | Some (q, _) \<Rightarrow> Some (q, [], Some (case perr of Some g \<Rightarrow> g | None \<Rightarrow> ErrEmpty)))"

definition recvOne :: "env \<Rightarrow> ipc_error option \<Rightarrow> Queue \<Rightarrow> (Queue \<times> (u32 \<times> bytes) result) option" where
  "recvOne v perr q =
     (case receive v perr 1 q of
        None \<Rightarrow> None
      | Some (q, msgs, Some e) \<Rightarrow> Some (q, Inl e)
      | Some (q, msgs, None) \<Rightarrow> Some (q, Inr (if msgs = [] then (0, []) else last msgs)))"

definition Queue_TryRecv :: "env \<Rightarrow> Queue \<Rightarrow> (Queue \<times> (u32 \<times> bytes) result) option" where
  "Queue_TryRecv v q =
     (case enter q of
        (q, False) \<Rightarrow> Some (q, Inl ErrClosed)
      | (q, True) \<Rightarrow>
          if \<not> reader q then Some (leave q, Inl ErrNotConsumer)
          else map_option (\<lambda>(q, res). (leave q, res)) (recvOne v None q))"

definition RecvInto :: "env \<Rightarrow> Queue park_round list \<Rightarrow> Queue \<Rightarrow> (Queue \<times> (u32 \<times> bytes) result) option" where
  "RecvInto v ws q =
     (case enter q of
        (q, False) \<Rightarrow> Some (q, Inl ErrClosed)
      | (q, True) \<Rightarrow>
          if \<not> reader q then Some (leave q, Inl ErrNotConsumer)
          else map_option (\<lambda>(q, res). (leave q, res))
                 (park add_recvWaiters ErrEmpty (recvOne v None) ws q))"

definition Recv :: "env \<Rightarrow> Queue park_round list \<Rightarrow> Queue \<Rightarrow> (Queue \<times> (u32 \<times> bytes) result) option" where
  "Recv v ws q = RecvInto v ws q"

text \<open>\<open>ReadBatch\<close> keeps the messages it passes to its function.\<close>

definition batch_attempt :: "env \<Rightarrow> int \<Rightarrow>
    Queue \<times> (u32 \<times> bytes) list \<Rightarrow> ((Queue \<times> (u32 \<times> bytes) list) \<times> unit result) option" where
  "batch_attempt v limit qs =
     (case receive v None limit (fst qs) of
        None \<Rightarrow> None
      | Some (q, msgs, Some e) \<Rightarrow> Some ((q, snd qs @ msgs), Inl e)
      | Some (q, msgs, None) \<Rightarrow> Some ((q, snd qs @ msgs), Inr ()))"

definition ReadBatch :: "env \<Rightarrow> (Queue \<times> (u32 \<times> bytes) list) park_round list \<Rightarrow> int \<Rightarrow>
    Queue \<Rightarrow> (Queue \<times> (u32 \<times> bytes) list \<times> ipc_error option) option" where
  "ReadBatch v ws limit q =
     (case enter q of
        (q, False) \<Rightarrow> Some (q, [], Some ErrClosed)
      | (q, True) \<Rightarrow>
          if \<not> reader q then Some (leave q, [], Some ErrNotConsumer)
          else (case park (\<lambda>(q, ms) n. (add_recvWaiters q n, ms)) ErrEmpty (batch_attempt v limit) ws (q, []) of
                  None \<Rightarrow> None
                | Some ((q, msgs), Inl e) \<Rightarrow> Some (leave q, msgs, Some e)
                | Some ((q, msgs), Inr _) \<Rightarrow> Some (leave q, msgs, None)))"

section \<open>Closing\<close>

text \<open>
  \<open>Close\<close> up to its wait, and from its wait on. The segment and the name lock may report an
  error of their own. The wait itself, with operations in flight, is the subject of \<open>Gate\<close>.
\<close>

definition close_begin :: "env \<Rightarrow> Queue \<Rightarrow> Queue \<times> ipc_error option" where
  "close_begin v q =
     (let q = q\<lparr>q_closing := True\<rparr>;
          q = (if reader q then
                 wakeSenders v (if consumer (hdr (ring q)) = q_self q
                   then upd_ring (\<lambda>r. r\<lparr>hdr := (hdr r)\<lparr>consumer := noProc\<rparr>\<rparr>) q else q)
               else q);
          q = producers_stop (peer_stop q)
      in case Event_Close (ne_close v) (notEmpty q) of (ne, e1) \<Rightarrow>
         case Event_Close (nf_close v) (notFull q) of (nf, e2) \<Rightarrow>
           (q\<lparr>notEmpty := ne, notFull := nf\<rparr>, first_err e1 e2))"

definition close_end :: "ipc_error option \<Rightarrow> ipc_error option \<Rightarrow> Queue \<Rightarrow> ipc_error option \<Rightarrow> Queue \<times> ipc_error option" where
  "close_end seg_err lock_err q err =
     (q\<lparr>q_drained := False, ring := fold (\<lambda>i r. dropSlot r (q_self q) i) (owned q) (ring q),
        owned := [], q_idle := [], mapped := False\<rparr>,
      first_err (first_err err seg_err) lock_err)"

definition Close :: "env \<Rightarrow> ipc_error option \<Rightarrow> ipc_error option \<Rightarrow> Queue \<Rightarrow> (Queue \<times> ipc_error option) option" where
  "Close v seg_err lock_err q =
     (if q_closing q then Some (q, Some ErrClosed)
      else case close_begin v q of (q, err) \<Rightarrow>
        if q_active q > 0 \<and> \<not> q_drained q then None
        else Some (close_end seg_err lock_err q err))"

end
