(* ===== verification/Queue_Spec.thy ===== *)
theory Queue_Spec
  imports Queue
begin

text \<open>
  The lemmas of the queue: what each operation keeps of the ring's control fields, the
  discipline of the claim slots of a handle, and the behaviour of a write and of a receive
  on a ring that keeps its invariant.
\<close>

section \<open>Control fields\<close>

text \<open>What the queue layer reads of the header, apart from the cursors.\<close>

definition owners :: "Ring \<Rightarrow> u64 list" where
  "owners r = map slot_owner (slots (hdr r))"

definition ctl :: "Ring \<Rightarrow> u64 \<times> int \<times> int \<times> u64 list" where
  "ctl r = (consumer (hdr r), recvWaiters (hdr r), sendWaiters (hdr r), owners r)"

lemma ctl_eqD:
  assumes "ctl r = ctl r'"
  shows "consumer (hdr r) = consumer (hdr r')" "recvWaiters (hdr r) = recvWaiters (hdr r')"
    "sendWaiters (hdr r) = sendWaiters (hdr r')" "owners r = owners r'"
  using assms by (simp_all add: ctl_def)

lemma ctl_data [simp]: "ctl (r\<lparr>data := d\<rparr>) = ctl r"
  by (simp add: ctl_def owners_def)

lemma ctl_stores [simp]:
  "ctl (storeLength r i x) = ctl r" "ctl (storeType r i t) = ctl r" "ctl (fill r c bs) = ctl r"
  by (simp_all add: storeLength_def storeType_def fill_def)

lemma owners_upd_slot:
  "(\<And>s. slot_owner (f s) = slot_owner s) \<Longrightarrow> owners (upd_slot r i f) = owners r"
  by (simp add: owners_def upd_slot_def map_update list_update_same_conv nth_map)
    (metis length_map list_update_beyond list_update_id not_le nth_map)

lemma ctl_upd_slot: "(\<And>s. slot_owner (f s) = slot_owner s) \<Longrightarrow> ctl (upd_slot r i f) = ctl r"
  by (simp add: ctl_def owners_upd_slot) (simp add: upd_slot_def)

lemma ctl_slots [simp]:
  "ctl (release r sl) = ctl r" "ctl (clear_intent r i) = ctl r" "ctl (set_intent r sl t n) = ctl r"
  by (simp_all add: release_def clear_intent_def set_intent_def ctl_upd_slot)

lemma ctl_cursors [simp]:
  "ctl (set_tail r t) = ctl r" "ctl (set_head r t) = ctl r" "ctl (set_headCache r t) = ctl r"
  by (simp_all add: ctl_def owners_def set_tail_def set_head_def set_headCache_def)

lemma ctl_Commit [simp]: "ctl (Commit r c) = ctl r" "ctl (Abort r c) = ctl r"
  by (simp_all add: Commit_def Abort_def)

lemma ctl_round:
  "tryClaim_round r sl a = Won r' t \<Longrightarrow> ctl r' = ctl r" "tryClaim_round r sl a = NoRoom r' \<Longrightarrow> ctl r' = ctl r"
  by (auto simp: tryClaim_round_def Let_def split: if_splits)

lemma ctl_loop:
  assumes "tryClaim_loop r sl a = Some x"
  shows "case x of Won r' t \<Rightarrow> ctl r' = ctl r | NoRoom r' \<Rightarrow> ctl r' = ctl r | Again \<Rightarrow> True"
proof (rule tryClaim_loop.raw_induct [OF _ assms], goal_cases)
  case (1 loop r sl a x)
  show ?case
  proof (cases "tryClaim_round r sl a")
    case Again
    then have "loop r sl a = Some x" using "1"(2) by simp
    then show ?thesis by (rule "1"(1))
  qed (use "1"(2) in \<open>auto split: claim_round.splits dest: ctl_round\<close>)
qed

lemma ctl_tryClaim: "tryClaim r sl ty n = Some (r', res) \<Longrightarrow> ctl r' = ctl r"
  by (auto simp: tryClaim_def place_claim_def open_record_def Let_def
      split: if_splits option.splits claim_round.splits sum.splits dest!: ctl_loop)

lemma ctl_tryWrite: "tryWrite r sl ty p = Some (r', res) \<Longrightarrow> ctl r' = ctl r"
  by (auto simp: tryWrite_def split: option.splits sum.splits dest!: ctl_tryClaim)

lemma ctl_read_loop: "read_loop r h av limit c acc = (r', c', acc', err) \<Longrightarrow> ctl r' = ctl r"
proof (induction r h av limit c acc rule: read_loop.induct)
  case (1 r h av limit c acc)
  show ?case
    using "1.prems" "1.IH" [OF _ refl refl _ refl _ refl refl refl]
    unfolding read_loop.simps [of r h av limit c acc]
    by (auto simp: Let_def clear_record_def split: if_splits)
qed

lemma ctl_Read: "Read r limit = (r', msgs, err) \<Longrightarrow> ctl r' = ctl r"
  by (auto simp: Read_def Let_def split: if_splits prod.splits option.splits dest: ctl_read_loop)

lemma ctl_reclaim: "reclaim r st stop dead = (r', ok) \<Longrightarrow> ctl r' = ctl r"
proof -
  have "ctl (fold (\<lambda>i r. clear_intent r i) dead r) = ctl r" for r
    by (induction dead arbitrary: r) simp_all
  then show "reclaim r st stop dead = (r', ok) \<Longrightarrow> ctl r' = ctl r"
    by (auto simp: reclaim_def casLength_def Let_def split: if_splits)
qed

section \<open>Frames of the handle\<close>

text \<open>The peer checks and watches leave everything but the watches alone.\<close>

definition core :: "Queue \<Rightarrow> Queue" where
  "core q = q\<lparr>peer := undefined, producers := undefined, watching := undefined, spawned := undefined\<rparr>"

lemma core_simps [simp]:
  "core (q\<lparr>peer := x1\<rparr>) = core q" "core (q\<lparr>producers := x2\<rparr>) = core q"
  "core (q\<lparr>watching := x3\<rparr>) = core q" "core (q\<lparr>spawned := x4\<rparr>) = core q"
  by (simp_all add: core_def)

lemma core_eqD:
  assumes "core q = core q'"
  shows "ring q = ring q'" "notEmpty q = notEmpty q'" "notFull q = notFull q'" "q_self q = q_self q'"
    "reader q = reader q'" "q_idle q = q_idle q'" "owned q = owned q'" "q_closing q = q_closing q'"
    "q_active q = q_active q'" "q_drained q = q_drained q'" "mapped q = mapped q'"
  using assms by (cases q; cases q'; simp add: core_def)+

lemma core_peer_stop [simp]: "core (peer_stop q) = core q"
  by (simp add: peer_stop_def split: option.splits)

lemma core_watchPeer: "watchPeer v q pid = (q', err) \<Longrightarrow> core q' = core q"
  by (auto simp: watchPeer_def Let_def split: if_splits prod.splits sum.splits)

lemma core_checkPeer: "checkPeer v q = (q', err) \<Longrightarrow> core q' = core q"
  by (auto simp: checkPeer_def Let_def split: if_splits dest: core_watchPeer)

lemma core_watchProducer: "watchProducer v q pid = (q', err) \<Longrightarrow> core q' = core q"
  by (auto simp: watchProducer_def Let_def split: if_splits prod.splits sum.splits option.splits)

section \<open>Claim slots\<close>

text \<open>
  A handle owns each of its slots in the ring under its own identity, and every idle slot is
  one of them, once.
\<close>

definition slots_ok :: "Queue \<Rightarrow> bool" where
  "slots_ok q \<longleftrightarrow> q_self q \<noteq> noProc \<and> length (owners (ring q)) = ClaimSlots \<and>
     distinct (owned q) \<and> (\<forall>i \<in> set (owned q). i < ClaimSlots \<and> owners (ring q) ! i = q_self q) \<and>
     distinct (q_idle q) \<and> set (q_idle q) \<subseteq> int ` set (owned q)"

text \<open>The slots of claims that are still open.\<close>

definition in_use :: "Queue \<Rightarrow> int set" where
  "in_use q = int ` set (owned q) - set (q_idle q)"

lemma slots_ok_cong:
  "owners (ring q) = owners (ring q') \<Longrightarrow> q_self q = q_self q' \<Longrightarrow> owned q = owned q' \<Longrightarrow> q_idle q = q_idle q' \<Longrightarrow>
    slots_ok q = slots_ok q' \<and> in_use q = in_use q'"
  by (simp add: slots_ok_def in_use_def)

lemma acquireSlot_frame:
  assumes "acquireSlot r self dead = (r', res)"
  shows "case res of Inl e \<Rightarrow> r' = r \<and> e = ErrTooManyClaims \<and> 0 \<notin> set (owners r)
    | Inr i \<Rightarrow> r' = take_slot r i self \<and> i < length (owners r) \<and>
        (owners r ! i = 0 \<or> owners r ! i \<noteq> self)"
  using assms
  by (auto simp: acquireSlot_def Let_def owners_def stale_slot_def find_None_upt in_set_conv_nth
      split: option.splits dest!: find_Some_iff_nth) (metis less_irrefl)

lemma ctl_take_slot:
  "consumer (hdr (take_slot r i p)) = consumer (hdr r)" "recvWaiters (hdr (take_slot r i p)) = recvWaiters (hdr r)"
  "sendWaiters (hdr (take_slot r i p)) = sendWaiters (hdr r)"
  "owners (take_slot r i p) = (owners r)[i := p]" "Capacity (take_slot r i p) = Capacity r" "rmask (take_slot r i p) = rmask r"
  "tail (hdr (take_slot r i p)) = tail (hdr r)" "head (hdr (take_slot r i p)) = head (hdr r)"
  by (simp_all add: take_slot_def upd_slot_def owners_def map_update Capacity_def)

lemma take_slot_room [simp]:
  "ring_room (take_slot r i p) = ring_room r" "claim_pad (take_slot r i p) l = claim_pad r l"
  "MaxMessageSize (take_slot r i p) = MaxMessageSize r" "claim_entries (take_slot r i p) t l = claim_entries r t l"
  by (simp_all add: ring_room_def claim_pad_def MaxMessageSize_def claim_entries_def ctl_take_slot)

lemma takeSlot_ok:
  assumes ok: "slots_ok q" and t: "takeSlot v q = (q', res)"
  shows "slots_ok q'"
    and "case res of
        Inl e \<Rightarrow> e = ErrTooManyClaims \<and> q' = q \<and> 0 \<notin> set (owners (ring q))
      | Inr s \<Rightarrow> s \<notin> in_use q \<and> in_use q' = insert s (in_use q) \<and> s \<notin> set (q_idle q') \<and> s \<in> int ` set (owned q') \<and>
          (ring q' = ring q \<or> (\<exists>i. ring q' = take_slot (ring q) i (q_self q))) \<and>
          q' = q\<lparr>ring := ring q', owned := owned q', q_idle := q_idle q'\<rparr>"
proof -
  have "slots_ok q' \<and> (case res of
        Inl e \<Rightarrow> e = ErrTooManyClaims \<and> q' = q \<and> 0 \<notin> set (owners (ring q))
      | Inr s \<Rightarrow> s \<notin> in_use q \<and> in_use q' = insert s (in_use q) \<and> s \<notin> set (q_idle q') \<and> s \<in> int ` set (owned q') \<and>
          (ring q' = ring q \<or> (\<exists>i. ring q' = take_slot (ring q) i (q_self q))) \<and>
          q' = q\<lparr>ring := ring q', owned := owned q', q_idle := q_idle q'\<rparr>)"
  proof (cases "q_idle q = []")
    case True
    obtain r x where r: "acquireSlot (ring q) (q_self q) (q_isDead v q) = (r, x)" by force
    show ?thesis
    proof (cases x)
      case (Inl e)
      then show ?thesis
        using t ok True r acquireSlot_frame [OF r] by (auto simp: takeSlot_def)
    next
      case (Inr i)
      have i: "r = take_slot (ring q) i (q_self q)" "i < ClaimSlots" "i \<notin> set (owned q)"
        using acquireSlot_frame [OF r] ok by (auto simp: Inr slots_ok_def noProc_def)
      have q': "q' = q\<lparr>ring := r, owned := owned q @ [i]\<rparr>" "res = Inr (int i)"
        using t True r Inr by (auto simp: takeSlot_def)
      have "slots_ok q'" using ok i by (auto simp: q' slots_ok_def ctl_take_slot nth_list_update)
      moreover have "in_use q' = insert (int i) (in_use q)" "int i \<notin> in_use q"
        using i True by (auto simp: q' in_use_def)
      moreover have "q' = q\<lparr>ring := ring q', owned := owned q', q_idle := q_idle q'\<rparr>" by (cases q) (simp add: q')
      ultimately show ?thesis using True i by (auto simp: q')
    qed
  next
    case False
    then have q': "q' = q\<lparr>q_idle := butlast (q_idle q)\<rparr>" "res = Inr (last (q_idle q))"
      using t by (auto simp: takeSlot_def)
    note b = butlast_last [OF False]
    show ?thesis using ok b False by (auto simp: q' slots_ok_def in_use_def)
  qed
  then show "slots_ok q'" and "case res of
        Inl e \<Rightarrow> e = ErrTooManyClaims \<and> q' = q \<and> 0 \<notin> set (owners (ring q))
      | Inr s \<Rightarrow> s \<notin> in_use q \<and> in_use q' = insert s (in_use q) \<and> s \<notin> set (q_idle q') \<and> s \<in> int ` set (owned q') \<and>
          (ring q' = ring q \<or> (\<exists>i. ring q' = take_slot (ring q) i (q_self q))) \<and>
          q' = q\<lparr>ring := ring q', owned := owned q', q_idle := q_idle q'\<rparr>" by blast+
qed

section \<open>Writing\<close>

text \<open>What an operation on the ring leaves of the rest of the handle.\<close>

definition same_handle :: "Queue \<Rightarrow> Queue \<Rightarrow> bool" where
  "same_handle q q' \<longleftrightarrow> q_self q' = q_self q \<and> reader q' = reader q \<and> q_closing q' = q_closing q \<and>
     q_active q' = q_active q \<and> q_drained q' = q_drained q \<and> mapped q' = mapped q \<and>
     notEmpty q' = notEmpty q \<and> notFull q' = notFull q \<and>
     consumer (hdr (ring q')) = consumer (hdr (ring q)) \<and>
     recvWaiters (hdr (ring q')) = recvWaiters (hdr (ring q)) \<and>
     sendWaiters (hdr (ring q')) = sendWaiters (hdr (ring q)) \<and> rmask (ring q') = rmask (ring q)"

lemma same_handle_core: "core q' = core q \<Longrightarrow> same_handle q q'"
  by (simp add: same_handle_def core_eqD [of q' q])

lemma same_handle_trans: "same_handle q q' \<Longrightarrow> same_handle q' q'' \<Longrightarrow> same_handle q q''"
  by (simp add: same_handle_def)

lemma putSlot_ok:
  assumes "slots_ok q" "s \<in> int ` set (owned q)" "s \<notin> set (q_idle q)"
  shows "slots_ok (putSlot q s)" "in_use (putSlot q s) = in_use q - {s}"
  using assms by (auto simp: slots_ok_def putSlot_def in_use_def)

text \<open>A write through a slot the handle has just taken, which it then returns.\<close>

lemma write_slot:
  assumes ok: "slots_ok q1" and t: "takeSlot v q1 = (q2, Inr s)"
    and inv: "ring_inv (ring q1) es" and room: "0 < ring_room (ring q1)"
  obtains r res where "tryWrite (ring q2) s ty p = Some (r, res)" "slots_ok (putSlot (q2\<lparr>ring := r\<rparr>) s)"
    "in_use (putSlot (q2\<lparr>ring := r\<rparr>) s) = in_use q1" "same_handle q1 (putSlot (q2\<lparr>ring := r\<rparr>) s)"
    "write_post (ring q1) es ty p res r"
proof -
  note T = takeSlot_ok [OF ok t]
  have rest: "q2 = q1\<lparr>ring := ring q2, owned := owned q2, q_idle := q_idle q2\<rparr>"
    and r2: "ring q2 = ring q1 \<or> (\<exists>i. ring q2 = take_slot (ring q1) i (q_self q1))"
    and s: "s \<notin> in_use q1" "in_use q2 = insert s (in_use q1)" "s \<notin> set (q_idle q2)" "s \<in> int ` set (owned q2)"
    using T(2) by simp_all
  have inv2: "ring_inv (ring q2) es" "0 < ring_room (ring q2)"
    and eqs: "write_post (ring q2) es ty p res r = write_post (ring q1) es ty p res r" for res r
    using r2 inv room by (auto simp: write_post_def refused_def ctl_take_slot split: sum.splits)
  obtain r res where r: "tryWrite (ring q2) s ty p = Some (r, res)" "write_post (ring q2) es ty p res r"
    by (rule tryWrite_total [OF inv2])
  note ctl = ctl_eqD [OF ctl_tryWrite [OF r(1)]]
  let ?q = "putSlot (q2\<lparr>ring := r\<rparr>) s"
  have ok3: "slots_ok (q2\<lparr>ring := r\<rparr>)" "in_use (q2\<lparr>ring := r\<rparr>) = in_use q2"
    using slots_ok_cong [of "q2\<lparr>ring := r\<rparr>" q2] T(1) ctl(4) by simp_all
  have "slots_ok ?q" "in_use ?q = in_use q1"
    using putSlot_ok [OF ok3(1), of s] s ok3(2) by auto
  moreover have "consumer (hdr r) = consumer (hdr (ring q1))" "recvWaiters (hdr r) = recvWaiters (hdr (ring q1))"
    "sendWaiters (hdr r) = sendWaiters (hdr (ring q1))" "rmask r = rmask (ring q1)"
    using r2 ctl r(2) by (auto simp: ctl_take_slot write_post_def)
  then have "same_handle q1 ?q" by (subst rest) (simp add: same_handle_def putSlot_def)
  ultimately show thesis using that r eqs by blast
qed

lemma q_write_ok:
  assumes inv: "ring_inv (ring q) es" and ok: "slots_ok q" and room: "0 < ring_room (ring q)"
  obtains q' res where "q_write v q ty p = Some (q', res)" "slots_ok q'" "in_use q' = in_use q" "same_handle q q'"
    "write_post (ring q) es ty p res (ring q') \<or>
      ring_inv (ring q') es \<and> ring_room (ring q') = ring_room (ring q) \<and>
        (res = Inl ErrTooManyClaims \<and> 0 \<notin> set (owners (ring q)) \<or> (\<exists>e. res = Inl e \<and> snd (checkPeer v q) = Some e))"
proof -
  obtain q1 err where q1: "checkPeer v q = (q1, err)" by force
  note c1 = core_eqD [OF core_checkPeer [OF q1]]
  have same1: "same_handle q q1" by (rule same_handle_core [OF core_checkPeer [OF q1]])
  have ok1: "slots_ok q1" "in_use q1 = in_use q" using slots_ok_cong [of q1 q] ok by (simp_all add: c1)
  show thesis
  proof (cases err)
    case (Some e)
    then show thesis using that [of q1 "Inl e"] q1 ok1 same1 inv by (simp add: q_write_def c1)
  next
    case None
    obtain q2 x where q2: "takeSlot v q1 = (q2, x)" by force
    show thesis
    proof (cases x)
      case (Inl e)
      then show thesis
        using that [of q1 "Inl e"] takeSlot_ok [OF ok1(1) q2] q1 q2 None ok1 same1 inv by (simp add: q_write_def c1)
    next
      case (Inr s)
      obtain r res where r: "tryWrite (ring q2) s ty p = Some (r, res)" "slots_ok (putSlot (q2\<lparr>ring := r\<rparr>) s)"
        "in_use (putSlot (q2\<lparr>ring := r\<rparr>) s) = in_use q1" "same_handle q1 (putSlot (q2\<lparr>ring := r\<rparr>) s)"
        "write_post (ring q1) es ty p res r"
        by (rule write_slot [OF ok1(1) q2 [unfolded Inr]]) (use inv room in \<open>simp_all add: c1\<close>)
      have "q_write v q ty p = Some (putSlot (q2\<lparr>ring := r\<rparr>) s, res)" using q1 q2 None Inr r(1) by (simp add: q_write_def)
      then show thesis
        using that r ok1(2) same_handle_trans [OF same1 r(4)] by (simp add: putSlot_def c1)
    qed
  qed
qed

end
