(* ===== verification/Queue_Recv.thy ===== *)
theory Queue_Recv
  imports Queue_Spec
begin

text \<open>
  The receiving side of the queue: which slots let \<open>unstall\<close> reclaim a claim, and that
  \<open>receive\<close> returns, loses nothing and is never stuck behind a dead producer.
\<close>

section \<open>Slots over a stall\<close>

definition slot_of :: "Queue \<Rightarrow> nat \<Rightarrow> claimSlot" where
  "slot_of q i = slots (hdr (ring q)) ! i"

text \<open>A slot that names a process and covers the stalled position.\<close>

definition claimant :: "Queue \<Rightarrow> u64 \<Rightarrow> nat \<Rightarrow> bool" where
  "claimant q pos i \<longleftrightarrow> slot_owner (slot_of q i) \<noteq> noProc \<and> covers (slot_of q i) pos"

definition dead_claimant :: "env \<Rightarrow> Queue \<Rightarrow> u64 \<Rightarrow> nat \<Rightarrow> bool" where
  "dead_claimant v q pos i \<longleftrightarrow> claimant q pos i \<and> slot_owner (slot_of q i) \<noteq> q_self q \<and>
     watchable (slot_owner (slot_of q i)) \<and> q_isDead v q (slot_owner (slot_of q i))"

definition slot_end :: "Queue \<Rightarrow> nat \<Rightarrow> u64" where
  "slot_end q i = add64 (slot_at (slot_of q i)) (slot_size (slot_of q i))"

text \<open>
  The two ways \<open>unstall\<close> ends: it leaves the ring alone, or it reclaims with the slots
  \<open>dead'\<close>, which are all the claimants, all dead and all with the same end.
\<close>

definition unstall_kept :: "env \<Rightarrow> Queue \<Rightarrow> u64 \<Rightarrow> nat list \<Rightarrow> nat list \<Rightarrow> Queue \<Rightarrow> bool result \<Rightarrow> bool" where
  "unstall_kept v q pos is dead q' res \<longleftrightarrow> core q' = core q \<and> res \<noteq> Inr True \<and>
     (res = Inr False \<longrightarrow>
        (\<exists>i \<in> set is. claimant q pos i \<and> \<not> dead_claimant v q pos i) \<or> dead = [] \<and> (\<forall>i \<in> set is. \<not> claimant q pos i))"

definition unstall_reclaims :: "env \<Rightarrow> Queue \<Rightarrow> stall \<Rightarrow> nat list \<Rightarrow> nat list \<Rightarrow> Queue \<Rightarrow> bool result \<Rightarrow> nat list \<Rightarrow> u64 \<Rightarrow> bool" where
  "unstall_reclaims v q st is dead q' res dead' stop \<longleftrightarrow>
     q' = q\<lparr>ring := fst (reclaim (ring q) st stop dead')\<rparr> \<and> res = Inr (snd (reclaim (ring q) st stop dead')) \<and>
     dead' \<noteq> [] \<and> set dead \<subseteq> set dead' \<and> (\<forall>i \<in> set dead'. i \<in> set dead \<union> set is \<and> dead_claimant v q (st_at st) i \<and> slot_end q i = stop) \<and>
     (\<forall>i \<in> set is. claimant q (st_at st) i \<longrightarrow> i \<in> set dead')"

lemma unstall_slots_cases:
  assumes "unstall_slots v q st is dead stop = (q', res)"
    and "\<forall>i \<in> set dead. dead_claimant v q (st_at st) i \<and> slot_end q i = stop"
  shows "unstall_kept v q (st_at st) is dead q' res \<or> (\<exists>dead' stop'. unstall_reclaims v q st is dead q' res dead' stop')"
  using assms
proof (induction "is" arbitrary: dead stop)
  case Nil
  show ?case
  proof (cases "dead = []")
    case True
    then show ?thesis using Nil by (auto simp: unstall_kept_def)
  next
    case False
    then have "unstall_reclaims v q st [] dead q' res dead stop"
      using Nil by (auto simp: unstall_reclaims_def split: prod.splits)
    then show ?thesis by blast
  qed
next
  case (Cons i "is")
  let ?s = "slots (hdr (ring q)) ! i"
  note run = Cons.prems(1) and dead = Cons.prems(2)
  consider (none) "\<not> claimant q (st_at st) i"
    | (own) "claimant q (st_at st) i" "slot_owner ?s = q_self q \<or> \<not> watchable (slot_owner ?s)"
    | (live) "claimant q (st_at st) i" "slot_owner ?s \<noteq> q_self q" "watchable (slot_owner ?s)" "\<not> q_isDead v q (slot_owner ?s)"
    | (dead) "dead_claimant v q (st_at st) i"
    by (auto simp: dead_claimant_def slot_of_def)
  then show ?case
  proof cases
    case none
    then have "unstall_slots v q st is dead stop = (q', res)"
      using run by (auto simp: claimant_def slot_of_def Let_def)
    from Cons.IH [OF this dead] none show ?thesis
      by (auto simp: unstall_kept_def unstall_reclaims_def)
  next
    case own
    then show ?thesis using run by (auto simp: unstall_kept_def claimant_def dead_claimant_def slot_of_def Let_def)
  next
    case live
    obtain q1 e where w: "watchProducer v q (slot_owner ?s) = (q1, e)" by force
    have "q' = q1" "res \<noteq> Inr True" using run live w by (auto simp: claimant_def slot_of_def Let_def split: option.splits)
    then show ?thesis using core_watchProducer [OF w] live by (auto simp: unstall_kept_def dead_claimant_def slot_of_def)
  next
    case d: dead
    show ?thesis
    proof (cases "dead \<noteq> [] \<and> slot_end q i \<noteq> stop")
      case True
      then have "q' = q" "\<exists>e. res = Inl e"
        using run d by (auto simp: dead_claimant_def claimant_def slot_of_def slot_end_def Let_def)
      then show ?thesis by (auto simp: unstall_kept_def)
    next
      case False
      then have "unstall_slots v q st is (dead @ [i]) (slot_end q i) = (q', res)"
        using run d by (auto simp: dead_claimant_def claimant_def slot_of_def slot_end_def Let_def split: if_splits)
      moreover have "\<forall>j \<in> set (dead @ [i]). dead_claimant v q (st_at st) j \<and> slot_end q j = slot_end q i"
        using dead False d by auto
      ultimately consider "unstall_kept v q (st_at st) is (dead @ [i]) q' res"
        | dead' stop' where "unstall_reclaims v q st is (dead @ [i]) q' res dead' stop'"
        using Cons.IH by blast
      then show ?thesis
      proof cases
        case 1
        then show ?thesis by (auto simp: unstall_kept_def)
      next
        case 2
        then have "unstall_reclaims v q st (i # is) dead q' res dead' stop'" by (auto simp: unstall_reclaims_def)
        then show ?thesis by blast
      qed
    qed
  qed
qed

section \<open>What the slots say of the claims\<close>

text \<open>
  \<open>tryClaim\<close> writes its intent, the range it is about to claim, into its slot before it moves
  the tail, and clears it after the commit. So a slot that covers an open claim ends where
  that claim ends; or, for the part of a claim before the wrap point, at or behind that part.
\<close>

definition end_fits :: "Ring \<Rightarrow> u64 \<Rightarrow> nat \<Rightarrow> claimSlot \<Rightarrow> bool" where
  "end_fits r pos n s \<longleftrightarrow> (covers s pos \<longrightarrow>
     (let stop = add64 (slot_at s) (slot_size s) in
      pos + n \<le> stop \<and> (stop = pos + n \<or> pos mod Capacity r + n = Capacity r)))"

fun slots_truth :: "Ring \<Rightarrow> u64 \<Rightarrow> entry list \<Rightarrow> bool" where
  "slots_truth r pos [] = True"
| "slots_truth r pos (e # es) \<longleftrightarrow>
     (\<not> ready_entry e \<longrightarrow> esize e + 7 < 2 ^ 31 \<and> (\<forall>s \<in> set (slots (hdr r)). end_fits r pos (esize e) s)) \<and>
     slots_truth r (pos + esize e) es"

lemma slots_truth_append: "slots_truth r pos (xs @ ys) \<longleftrightarrow> slots_truth r pos xs \<and> slots_truth r (pos + span xs) ys"
  by (induction xs arbitrary: pos) (simp_all add: add.assoc)

lemma slots_truth_mono:
  assumes "slots_truth r pos es" "Capacity r' = Capacity r"
    and "\<forall>s' \<in> set (slots (hdr r')). \<exists>s \<in> set (slots (hdr r)). \<forall>p. covers s' p \<longrightarrow> s' = s"
  shows "slots_truth r' pos es"
  using assms(1)
proof (induction es arbitrary: pos)
  case (Cons e es)
  have "end_fits r' pos (esize e) s'" if e: "\<not> ready_entry e" and s': "s' \<in> set (slots (hdr r'))" for s'
  proof -
    obtain s where "s \<in> set (slots (hdr r))" "\<forall>p. covers s' p \<longrightarrow> s' = s" using assms(3) s' by blast
    then show ?thesis using Cons.prems e assms(2) by (auto simp: end_fits_def)
  qed
  then show ?case using Cons by auto
qed simp

lemma noIntent_covers [simp]: "\<not> covers (s\<lparr>slot_at := noIntent\<rparr>) p"
  by (simp add: covers_def)

lemma clear_intent_slots:
  "s' \<in> set (slots (hdr (clear_intent r i))) \<Longrightarrow> \<exists>s \<in> set (slots (hdr r)). \<forall>p. covers s' p \<longrightarrow> s' = s"
proof (cases "i < length (slots (hdr r))")
  case True
  assume "s' \<in> set (slots (hdr (clear_intent r i)))"
  then have "s' = (slots (hdr r) ! i)\<lparr>slot_at := noIntent\<rparr> \<or> s' \<in> set (slots (hdr r))"
    using set_update_cases [OF True] by (simp add: clear_intent_def upd_slot_def)
  then show ?thesis using True by (auto intro: bexI [of _ "slots (hdr r) ! i"])
qed (auto simp: clear_intent_def upd_slot_def list_update_beyond)

lemma Capacity_clear_intent [simp]: "Capacity (clear_intent r i) = Capacity r" "Capacity (upd_slot r i f) = Capacity r"
  by (simp_all add: clear_intent_def Capacity_def upd_slot_def)

lemma slots_truth_clear: "slots_truth r pos es \<Longrightarrow> slots_truth (fold (\<lambda>i r. clear_intent r i) is r) pos es"
proof (induction "is" arbitrary: r)
  case (Cons i "is")
  then show ?case using slots_truth_mono [OF Cons.prems, of "clear_intent r i"] clear_intent_slots by auto
qed simp

lemma slots_truth_reclaim:
  assumes "slots_truth r pos es" "reclaim r st stop dead = (r', ok)"
  shows "slots_truth r' pos es"
proof -
  have "slots_truth (storeType (storeLength r i x) i t) pos es" for i x t
    by (rule slots_truth_mono [OF assms(1)]) (auto simp: storeType_def storeLength_def Capacity_def)
  then show ?thesis
    using assms by (auto simp: reclaim_def casLength_def Let_def split: if_splits intro: slots_truth_clear)
qed

lemma add64_bound: "add64 a b < 2 ^ 64"
  by (simp add: add64_def)

text \<open>On an honest ring a reclaim that \<open>unstall\<close> starts always succeeds.\<close>

lemma reclaim_honest:
  assumes inv: "ring_inv (ring q) (e # es)" and nr: "\<not> ready_entry e" and st: "stalled (ring q) = Some st"
    and truth: "slots_truth (ring q) (head (hdr (ring q))) (e # es)"
    and un: "unstall_reclaims v q st (st_slots st) [] q' res dead stop"
  shows "res = Inr True \<and> ring_inv (ring q') (Padding (esize e) # es) \<and>
    slots_truth (ring q') (head (hdr (ring q'))) (Padding (esize e) # es)"
proof -
  let ?r = "ring q"
  obtain r' ok where r': "reclaim ?r st stop dead = (r', ok)" by force
  have q': "ring q' = r'" "res = Inr ok" using un r' by (auto simp: unstall_reclaims_def)
  have pos: "st_at st = head (hdr ?r)" using stalled_at_claim [OF inv nr] st by auto
  obtain i where i: "i \<in> set dead" "i \<in> set (st_slots st)" "covers (slot_of q i) (head (hdr ?r))" "slot_end q i = stop"
    using un by (cases dead) (auto simp: unstall_reclaims_def dead_claimant_def claimant_def pos)
  have mem: "slot_of q i \<in> set (slots (hdr ?r))"
    using i(2) st by (auto simp: slot_of_def stalled_def Let_def split: if_splits)
  have n: "esize e + 7 < 2 ^ 31" and "end_fits ?r (head (hdr ?r)) (esize e) (slot_of q i)"
    using truth nr mem by auto
  then have stop: "head (hdr ?r) + esize e \<le> stop"
    "stop = head (hdr ?r) + esize e \<or> head (hdr ?r) mod Capacity ?r + esize e = Capacity ?r"
    using i(3,4) by (auto simp: end_fits_def slot_end_def Let_def)
  have "stop < 2 ^ 64" using i(4) add64_bound by (auto simp: slot_end_def)
  from reclaim_inv [OF inv nr st n stop(1) this stop(2), of dead]
  have "ok" "ring_inv r' (Padding (esize e) # es)" by (simp_all add: r')
  moreover have "head (hdr r') = head (hdr ?r)" using reclaim_head [OF r'] .
  moreover have "slots_truth r' (head (hdr ?r)) (e # es)" by (rule slots_truth_reclaim [OF truth r'])
  ultimately show ?thesis by (simp add: q')
qed

section \<open>The receive loop\<close>

lemma ring_wake [simp]: "ring (wakeSenders v q) = ring q" "ring (wakeReceiver v q) = ring q"
  by (simp_all add: wakeSenders_def wakeReceiver_def Let_def)

lemma slots_of_wake [simp]:
  "q_self (wakeSenders v q) = q_self q" "owned (wakeSenders v q) = owned q" "q_idle (wakeSenders v q) = q_idle q"
  "watching (wakeSenders v q) = watching q" "reader (wakeSenders v q) = reader q"
  by (simp_all add: wakeSenders_def Let_def)

lemma q_isDead_cong: "exited (watching q) = exited (watching q') \<Longrightarrow> q_isDead v q = q_isDead v q'"
  by (rule ext) (simp add: q_isDead_def)

lemma claimant_cong:
  "ring q = ring q' \<Longrightarrow> claimant q = claimant q'"
  "ring q = ring q' \<Longrightarrow> q_self q = q_self q' \<Longrightarrow> exited (watching q) = exited (watching q') \<Longrightarrow>
    dead_claimant v q = dead_claimant v q'"
  by (rule ext, rule ext, simp add: claimant_def dead_claimant_def slot_of_def q_isDead_def)+

lemma onExit_exited: "onExit d ws pid f = (ws', calls, res) \<Longrightarrow> exited ws' = exited ws"
  by (auto simp: onExit_def add_fn_def Let_def split: option.splits sum.splits if_splits)

lemma watchProducer_exited: "watchProducer v q pid = (q', err) \<Longrightarrow> exited (watching q') = exited (watching q)"
  by (auto simp: watchProducer_def Let_def split: if_splits prod.splits sum.splits option.splits dest: onExit_exited)

lemma unstall_exited: "unstall v q = (q', res) \<Longrightarrow> exited (watching q') = exited (watching q)"
proof -
  have "unstall_slots v q st is dead stop = (q', res) \<Longrightarrow> exited (watching q') = exited (watching q)" for st "is" dead stop
    by (induction "is" arbitrary: dead stop)
      (auto simp: Let_def split: if_splits prod.splits option.splits dest: watchProducer_exited)
  then show "unstall v q = (q', res) \<Longrightarrow> exited (watching q') = exited (watching q)"
    by (auto simp: unstall_def split: option.splits)
qed

text \<open>
  A receiver may rest before a claim only when some process that is not known to be dead
  stands behind it, or none does.
\<close>

definition may_rest :: "env \<Rightarrow> Queue \<Rightarrow> bool" where
  "may_rest v q \<longleftrightarrow> (let pos = head (hdr (ring q)) in
     (\<exists>i < ClaimSlots. claimant q pos i \<and> \<not> dead_claimant v q pos i) \<or> (\<forall>i < ClaimSlots. \<not> claimant q pos i))"

definition honest :: "Queue \<Rightarrow> entry list \<Rightarrow> bool" where
  "honest q es \<longleftrightarrow> ring_inv (ring q) es \<and> slots_truth (ring q) (head (hdr (ring q))) es"

lemma stalled_slots:
  assumes "ring_inv r es" "stalled r = Some st"
  shows "set (st_slots st) = {i. i < ClaimSlots \<and> covers (slots (hdr r) ! i) (head (hdr r))}" "st_at st = head (hdr r)"
proof -
  have "length (slots (hdr r)) = ClaimSlots" using ring_invD(1) [OF assms(1)] by (simp add: ring_ok_def)
  then show "set (st_slots st) = {i. i < ClaimSlots \<and> covers (slots (hdr r) ! i) (head (hdr r))}" "st_at st = head (hdr r)"
    using assms(2) by (auto simp: stalled_def Let_def split: if_splits)
qed

text \<open>One call of \<open>unstall\<close> on an honest ring.\<close>

lemma unstall_honest:
  assumes h: "honest q es" and u: "unstall v q = (q', res)"
  shows "case res of
      Inl e \<Rightarrow> core q' = core q
    | Inr False \<Rightarrow> core q' = core q \<and> (es \<noteq> [] \<and> \<not> ready_entry (hd es) \<longrightarrow> may_rest v q)
    | Inr True \<Rightarrow> es \<noteq> [] \<and> \<not> ready_entry (hd es) \<and> honest q' (Padding (esize (hd es)) # tl es)"
proof (cases "es \<noteq> [] \<and> \<not> ready_entry (hd es)")
  case False
  then have "stalled (ring q) = None" using stalled_ready h by (auto simp: honest_def)
  then show ?thesis using u False by (auto simp: unstall_def)
next
  case True
  then obtain e es' where es: "es = e # es'" "\<not> ready_entry e" by (cases es) auto
  have inv: "ring_inv (ring q) (e # es')" and truth: "slots_truth (ring q) (head (hdr (ring q))) (e # es')"
    using h es(1) by (simp_all add: honest_def)
  obtain st where st: "stalled (ring q) = Some st" using stalled_at_claim [OF inv es(2)] by auto
  note slots = stalled_slots [OF inv st]
  have "unstall_slots v q st (st_slots st) [] 0 = (q', res)" using u st by (simp add: unstall_def)
  from unstall_slots_cases [OF this] consider
      "unstall_kept v q (st_at st) (st_slots st) [] q' res"
    | dead stop where "unstall_reclaims v q st (st_slots st) [] q' res dead stop" by auto
  then show ?thesis
  proof cases
    case 1
    then have "res = Inr False \<longrightarrow> may_rest v q"
      by (auto simp: unstall_kept_def may_rest_def Let_def slots claimant_def slot_of_def)
    then show ?thesis using 1 by (auto simp: unstall_kept_def split: sum.splits bool.splits)
  next
    case 2
    then show ?thesis using reclaim_honest [OF inv es(2) st truth 2] by (simp add: honest_def es)
  qed
qed

lemma honest_core: "core q' = core q \<Longrightarrow> honest q' es = honest q es"
  by (simp add: honest_def core_eqD [of q' q])

text \<open>One turn of the loop: the messages it returns and those that stay are the ones there were.\<close>

definition unready :: "entry list \<Rightarrow> nat" where
  "unready es = count_if (\<lambda>e. \<not> ready_entry e) es"

lemma Read_honest:
  assumes "honest q es"
  obtains r where "Read (ring q) limit = (r, messages (take_ready (nat limit) es), None)"
    "honest (q\<lparr>ring := r\<rparr>) (drop_ready (nat limit) es)"
proof -
  let ?n = "nat limit"
  obtain r where r: "Read (ring q) limit = (r, messages (take_ready ?n es), None)"
    "ring_inv r (drop_ready ?n es)" "rmask r = rmask (ring q)"
    "hdr r = (hdr (ring q))\<lparr>head := head (hdr (ring q)) + span (take_ready ?n es)\<rparr>"
    by (rule Read_spec [of "ring q" es limit]) (use assms in \<open>simp_all add: honest_def\<close>)
  have "slots_truth (ring q) (head (hdr (ring q))) (take_ready ?n es @ drop_ready ?n es)"
    using assms by (simp add: take_drop_ready honest_def)
  then have "slots_truth (ring q) (head (hdr r)) (drop_ready ?n es)" by (simp add: slots_truth_append r(4))
  then have "slots_truth r (head (hdr r)) (drop_ready ?n es)"
    by (rule slots_truth_mono) (auto simp: r(3,4) Capacity_def)
  then show thesis using that r(1,2) by (simp add: honest_def)
qed

lemma unready_append: "unready (xs @ ys) = unready xs + unready ys"
  by (simp add: unready_def count_if_def)

lemma unready_simps [simp]: "unready [] = 0" "unready (e # es) = of_bool (\<not> ready_entry e) + unready es"
  by (simp_all add: unready_def count_if_def)

lemma drop_ready_unready:
  "messages (take_ready n es) = [] \<Longrightarrow> 0 < n \<Longrightarrow> drop_ready n es = [] \<or> \<not> ready_entry (hd (drop_ready n es))"
  by (induction n es rule: take_ready.induct) (auto simp: drop_ready_def)

lemma length_take_ready: "length (messages (take_ready n es)) \<le> n"
  by (induction n es rule: take_ready.induct) (auto simp: messages_def)

lemma may_rest_cong:
  assumes "core q' = core q" "exited (watching q') = exited (watching q)"
  shows "may_rest v q' = may_rest v q"
  using core_eqD [OF assms(1)] claimant_cong(1) [of q' q] claimant_cong(2) [of q' q v] assms(2)
  by (simp add: may_rest_def)

lemma receive_turn_honest:
  assumes h: "honest q es" and t: "receive_turn v limit q = (q', t)"
  shows "case t of
      Return msgs err \<Rightarrow> \<exists>es'. honest q' es' \<and> messages es = msgs @ messages es' \<and>
        (if msgs = [] then err \<noteq> None \<and> (0 < limit \<longrightarrow> es' = [] \<or> \<not> ready_entry (hd es'))
         else err = None \<and> length msgs \<le> nat limit)
    | Turn \<Rightarrow> \<exists>es'. honest q' es' \<and> messages es' = messages es \<and> unready es' < unready es
    | Break \<Rightarrow> \<exists>es'. honest q' es' \<and> messages es' = messages es \<and>
        (0 < limit \<longrightarrow> es' = [] \<or> \<not> ready_entry (hd es') \<and> may_rest v q')"
proof -
  let ?es = "drop_ready (nat limit) es" and ?ms = "messages (take_ready (nat limit) es)"
  obtain r where r: "Read (ring q) limit = (r, ?ms, None)" "honest (q\<lparr>ring := r\<rparr>) ?es"
    by (rule Read_honest [OF h])
  define q1 where "q1 = (if head (hdr r) \<noteq> head (hdr (ring q)) then wakeSenders v (q\<lparr>ring := r\<rparr>) else q\<lparr>ring := r\<rparr>)"
  have q1: "honest q1 ?es" using r(2) by (auto simp: q1_def honest_def)
  have split: "messages es = ?ms @ messages ?es" "unready es = unready (take_ready (nat limit) es) + unready ?es"
    by (metis messages_simps(3) take_drop_ready, metis unready_append take_drop_ready)
  show ?thesis
  proof (cases "?ms = []")
    case False
    then have "q' = q1" "t = Return ?ms None"
      using t r(1) by (simp_all add: receive_turn_def q1_def Let_def)
    then show ?thesis using q1 split(1) length_take_ready [of "nat limit" es] False by auto
  next
    case True
    obtain q2 res where u: "unstall v q1 = (q2, res)" by force
    have t': "q' = q2" "t = (case res of Inl e \<Rightarrow> Return [] (Some e) | Inr b \<Rightarrow> if b then Turn else Break)"
      using t r(1) True u by (auto simp: receive_turn_def q1_def Let_def split: sum.splits)
    note U = unstall_honest [OF q1 u]
    have same: "honest q2 ?es" "may_rest v q2 = may_rest v q1" if "res \<noteq> Inr True"
    proof -
      have core: "core q2 = core q1" using U that by (auto split: sum.splits bool.splits)
      show "honest q2 ?es" using honest_core [OF core] q1 by simp
      show "may_rest v q2 = may_rest v q1" by (rule may_rest_cong [OF core unstall_exited [OF u]])
    qed
    consider e where "res = Inl e" | "res = Inr True" | "res = Inr False" by (metis obj_sumE)
    then show ?thesis
    proof cases
      case 1
      then show ?thesis using t' same(1) split(1) True drop_ready_unready [OF True] by auto
    next
      case 2
      then have es: "?es \<noteq> []" "\<not> ready_entry (hd ?es)" "honest q2 (Padding (esize (hd ?es)) # tl ?es)"
        using U by simp_all
      then have "messages (tl ?es) = messages ?es" "unready (tl ?es) < unready ?es"
        by (cases ?es; cases "hd ?es"; simp)+
      then show ?thesis using es(3) t' 2 split True
        by (auto intro!: exI [of _ "Padding (esize (hd ?es)) # tl ?es"])
    next
      case 3
      have "0 < limit \<longrightarrow> ?es = [] \<or> \<not> ready_entry (hd ?es) \<and> may_rest v q2"
        using drop_ready_unready [OF True] U 3 same(2) by auto
      then show ?thesis using 3 t' same(1) split(1) True by auto
    qed
  qed
qed

lemma receive_loop_honest:
  assumes "honest q es"
  shows "\<exists>q' t es'. receive_loop v limit q = Some (q', t) \<and> honest q' es' \<and>
    (case t of
       Return msgs err \<Rightarrow> messages es = msgs @ messages es' \<and>
         (if msgs = [] then err \<noteq> None \<and> (0 < limit \<longrightarrow> es' = [] \<or> \<not> ready_entry (hd es'))
          else err = None \<and> length msgs \<le> nat limit)
     | Turn \<Rightarrow> False
     | Break \<Rightarrow> messages es' = messages es \<and> (0 < limit \<longrightarrow> es' = [] \<or> \<not> ready_entry (hd es') \<and> may_rest v q'))"
  using assms
proof (induction "unready es" arbitrary: q es rule: less_induct)
  case less
  obtain q1 t where t: "receive_turn v limit q = (q1, t)" by force
  note T = receive_turn_honest [OF less.prems t]
  show ?case
  proof (cases t)
    case (Return msgs err)
    then show ?thesis using T t by (subst receive_loop.simps) auto
  next
    case Turn
    then obtain es1 where es1: "honest q1 es1" "messages es1 = messages es" "unready es1 < unready es"
      using T by auto
    have loop: "receive_loop v limit q = receive_loop v limit q1"
      by (subst receive_loop.simps) (simp add: t Turn)
    show ?thesis unfolding loop using less.hyps [OF es1(3,1)] unfolding es1(2) .
  next
    case Break
    then show ?thesis using T t by (subst receive_loop.simps) auto
  qed
qed

end
