(* ===== verification/Queue_Props.thy ===== *)
theory Queue_Props
  imports Queue_Recv
begin

text \<open>
  The properties of the queue: sending, receiving, recovery from dead producers, the waits,
  and closing. The queue also refines the bounded FIFO of \<open>Fifo\<close>, as the ring does.
\<close>

section \<open>The gate around an operation\<close>

lemma enter_open: "\<not> q_closing q \<Longrightarrow> enter q = (q\<lparr>q_active := q_active q + 1\<rparr>, True)"
  by (simp add: enter_def Let_def)

lemma enter_closed: "q_closing q \<Longrightarrow> \<exists>d. enter q = (q\<lparr>q_drained := d\<rparr>, False)"
  by (cases q) (auto simp: enter_def leave_def Let_def)

lemma leave_fields [simp]:
  "ring (leave q) = ring q" "notEmpty (leave q) = notEmpty q" "notFull (leave q) = notFull q"
  "q_self (leave q) = q_self q" "reader (leave q) = reader q" "q_idle (leave q) = q_idle q"
  "owned (leave q) = owned q" "q_closing (leave q) = q_closing q" "q_active (leave q) = q_active q - 1"
  "watching (leave q) = watching q" "mapped (leave q) = mapped q"
  by (simp_all add: leave_def Let_def)

lemma slots_ok_leave [simp]: "slots_ok (leave q) = slots_ok q" "in_use (leave q) = in_use q"
  by (simp_all add: slots_ok_def in_use_def)

lemma slots_ok_active [simp]:
  "slots_ok (q\<lparr>q_active := a\<rparr>) = slots_ok q" "in_use (q\<lparr>q_active := a\<rparr>) = in_use q"
  by (simp_all add: slots_ok_def in_use_def)

lemma wakeReceiver_fields [simp]:
  "q_self (wakeReceiver v q) = q_self q" "reader (wakeReceiver v q) = reader q"
  "q_closing (wakeReceiver v q) = q_closing q" "q_active (wakeReceiver v q) = q_active q"
  "slots_ok (wakeReceiver v q) = slots_ok q" "in_use (wakeReceiver v q) = in_use q"
  "notEmpty (wakeReceiver v q) =
     (if 0 < recvWaiters (hdr (ring q)) then fst (Signal (pipe_of v) (notEmpty q)) else notEmpty q)"
  by (simp_all add: wakeReceiver_def slots_ok_def in_use_def)

lemma checkPeer_active [simp]: "snd (checkPeer v (q\<lparr>q_active := a\<rparr>)) = snd (checkPeer v q)"
  by (auto simp: checkPeer_def watchPeer_def peer_stop_def q_isDead_def Let_def split: option.splits prod.splits sum.splits)

lemma honest_active [simp]: "honest (q\<lparr>q_active := a\<rparr>) es = honest q es" "honest (leave q) es = honest q es"
  by (simp_all add: honest_def)

section \<open>Sending\<close>

text \<open>A concrete queue, whose creator sends to itself.\<close>

definition demo_env :: env where
  "demo_env = \<lparr>dial_of = (\<lambda>_. None), name_gone = False, pipe_of = \<lparr>pipe_cap = 65536, pipe_err = None\<rparr>, ne_close = (\<lambda>_. None, None), nf_close = (\<lambda>_. None, None)\<rparr>"

definition demo_queue :: Queue where
  "demo_queue =
     \<lparr>ring = demo_ring\<lparr>hdr := (hdr demo_ring)\<lparr>consumer := 7\<rparr>\<rparr>, notEmpty = new_eventImpl 0, notFull = new_eventImpl 0,
      q_self = 7, reader = True, q_idle = [], owned = [],
      peer = \<lparr>pw_id = 0, pw_gone = False, pw_failed = None, pw_cancel = None\<rparr>,
      producers = \<lparr>cancels = [], pr_closed = False, pr_failed = None\<rparr>,
      q_closing = False, q_active = 0, q_drained = False, mapped = True, watching = no_watches, spawned = []\<rparr>"

lemma ring_inv_consumer [simp]:
  "ring_inv (r\<lparr>hdr := (hdr r)\<lparr>consumer := c\<rparr>\<rparr>) es = ring_inv r es"
  "Capacity (r\<lparr>hdr := (hdr r)\<lparr>consumer := c\<rparr>\<rparr>) = Capacity r"
  "ring_room (r\<lparr>hdr := (hdr r)\<lparr>consumer := c\<rparr>\<rparr>) = ring_room r"
  "MaxMessageSize (r\<lparr>hdr := (hdr r)\<lparr>consumer := c\<rparr>\<rparr>) = MaxMessageSize r"
  by (simp_all add: ring_inv_def ring_ok_def Capacity_def ring_room_def MaxMessageSize_def)

lemma demo_queue_ok:
  "ring_inv (ring demo_queue) []" "slots_ok demo_queue" "0 < ring_room (ring demo_queue)" "\<not> q_closing demo_queue"
  "snd (checkPeer v demo_queue) = None"
  by (simp_all add: demo_queue_def demo_inv slots_ok_def owners_def noProc_def checkPeer_def)
    (simp_all add: demo_ring_def)

lemma TrySendTyped_ok:
  assumes "ring_inv (ring q) es" "slots_ok q" "0 < ring_room (ring q)" "\<not> q_closing q"
  obtains q' res where "TrySendTyped v q ty p = Some (q', res)" "slots_ok q'" "in_use q' = in_use q"
    "q_active q' = q_active q" "reader q' = reader q" "\<not> q_closing q'"
    "notEmpty q' = (if isl res \<or> recvWaiters (hdr (ring q)) \<le> 0 then notEmpty q else fst (Signal (pipe_of v) (notEmpty q)))"
    "write_post (ring q) es ty p res (ring q') \<or> ring_inv (ring q') es \<and> ring_room (ring q') = ring_room (ring q) \<and>
      (res = Inl ErrTooManyClaims \<and> 0 \<notin> set (owners (ring q)) \<or> (\<exists>e. res = Inl e \<and> snd (checkPeer v q) = Some e))"
proof -
  let ?q = "q\<lparr>q_active := q_active q + 1\<rparr>"
  obtain q1 res where w: "q_write v ?q ty p = Some (q1, res)" "slots_ok q1" "in_use q1 = in_use ?q" "same_handle ?q q1"
    "write_post (ring ?q) es ty p res (ring q1) \<or> ring_inv (ring q1) es \<and> ring_room (ring q1) = ring_room (ring ?q) \<and>
      (res = Inl ErrTooManyClaims \<and> 0 \<notin> set (owners (ring ?q)) \<or> (\<exists>e. res = Inl e \<and> snd (checkPeer v ?q) = Some e))"
    by (rule q_write_ok [of ?q es]) (use assms in simp_all)
  show thesis
  proof (cases res)
    case (Inl e)
    then have "TrySendTyped v q ty p = Some (leave q1, Inl e)" using w(1) assms(4) by (simp add: TrySendTyped_def enter_open)
    then show thesis using w Inl assms(4) by (intro that [of "leave q1" "Inl e"]) (auto simp: same_handle_def)
  next
    case (Inr u)
    then have "TrySendTyped v q ty p = Some (leave (wakeReceiver v q1), Inr ())"
      using w(1) assms(4) by (simp add: TrySendTyped_def enter_open)
    then show thesis using w Inr assms(4)
      by (intro that [of "leave (wakeReceiver v q1)" "Inr ()"]) (auto simp: same_handle_def)
  qed
qed

text \<open>
  C10: A TrySend on an open handle returns; either the ring holds its messages followed by the
  new one and a waiting receiver is signalled, or the messages are unchanged and the error
  says why: the size or type of the message, a full ring, no free claim slot, or a receiver
  that is gone. Either way the handle has its claim slot back and has left the gate.
\<close>

theorem TrySendTyped_spec:
  assumes "ring_inv (ring q) es" "slots_ok q" "0 < ring_room (ring q)" "\<not> q_closing q"
  shows "\<exists>q' res. TrySendTyped v q ty p = Some (q', res) \<and> slots_ok q' \<and> in_use q' = in_use q \<and>
    q_active q' = q_active q \<and>
    (case res of
       Inr _ \<Rightarrow> ring_inv (ring q') (es @ claim_pad (ring q) (length p) @ [Committed ty p]) \<and>
         notEmpty q' = (if 0 < recvWaiters (hdr (ring q)) then fst (Signal (pipe_of v) (notEmpty q)) else notEmpty q)
     | Inl e \<Rightarrow> ring_inv (ring q') es \<and> notEmpty q' = notEmpty q \<and>
         (refused (ring q) es ty p e \<or> e = ErrTooManyClaims \<and> 0 \<notin> set (owners (ring q)) \<or> snd (checkPeer v q) = Some e))"
proof -
  obtain q' res where w: "TrySendTyped v q ty p = Some (q', res)" "slots_ok q'" "in_use q' = in_use q"
    "q_active q' = q_active q"
    "notEmpty q' = (if isl res \<or> recvWaiters (hdr (ring q)) \<le> 0 then notEmpty q else fst (Signal (pipe_of v) (notEmpty q)))"
    "write_post (ring q) es ty p res (ring q') \<or> ring_inv (ring q') es \<and> ring_room (ring q') = ring_room (ring q) \<and>
      (res = Inl ErrTooManyClaims \<and> 0 \<notin> set (owners (ring q)) \<or> (\<exists>e. res = Inl e \<and> snd (checkPeer v q) = Some e))"
    by (rule TrySendTyped_ok [OF assms, of v ty p])
  show ?thesis using w(5,6) by (intro exI [of _ q'] exI [of _ res], cases res) (auto simp: w(1-4) write_post_def)
qed

lemma demo_queue_accepts_type: "ty \<noteq> TypePadding \<Longrightarrow> \<not> refused (ring demo_queue) [] ty [1, 2, 3] e"
  by (auto simp: refused_def demo_queue_def claim_entries_def claim_pad_def pad8_def)

lemma demo_queue_accepts: "\<not> refused (ring demo_queue) [] 5 [1, 2, 3] e" "0 \<in> set (owners (ring demo_queue))"
  by (simp_all add: demo_queue_accepts_type TypePadding_def) (simp add: demo_queue_def demo_ring_def owners_def ClaimSlots_def)

theorem TrySendTyped_spec_witness:
  "\<exists>q'. TrySendTyped demo_env demo_queue 5 [1, 2, 3] = Some (q', Inr ()) \<and>
     ring_inv (ring q') [Committed 5 [1, 2, 3]] \<and> slots_ok q'"
proof -
  have pad: "claim_pad (ring demo_queue) 3 = []" by (simp add: claim_pad_def pad8_def demo_queue_def)
  show ?thesis
    using TrySendTyped_spec [OF demo_queue_ok(1-4), of demo_env 5 "[1, 2, 3]"]
  proof (elim exE conjE, goal_cases)
    case (1 q' res)
    then show ?thesis
      using demo_queue_accepts demo_queue_ok(5) [of demo_env] pad by (cases res) (simp_all add: numeral_3_eq_3)
  qed
qed

lemma demo_written:
  assumes "ty \<noteq> TypePadding"
  shows "\<exists>r. ring_inv r [Committed ty [1, 2, 3]]"
proof -
  have pad: "claim_pad (ring demo_queue) (length [1, 2, 3 :: 8 word]) = []"
    by (simp add: claim_pad_def pad8_def demo_queue_def)
  obtain q' res where "slots_ok q'"
    "write_post (ring demo_queue) [] ty [1, 2, 3] res (ring q') \<or> ring_inv (ring q') [] \<and> ring_room (ring q') = ring_room (ring demo_queue) \<and>
      (res = Inl ErrTooManyClaims \<and> 0 \<notin> set (owners (ring demo_queue)) \<or> (\<exists>e. res = Inl e \<and> snd (checkPeer demo_env demo_queue) = Some e))"
    by (rule TrySendTyped_ok [OF demo_queue_ok(1-4)])
  then show ?thesis
    using demo_queue_accepts_type [OF assms] demo_queue_accepts(2) demo_queue_ok(5) [of demo_env] pad
    by (cases res) (auto simp: write_post_def)
qed

section \<open>The queue as a bounded FIFO\<close>

definition queue_rel :: "Queue \<Rightarrow> (u32 \<times> bytes) list \<Rightarrow> bool" where
  "queue_rel q ms \<longleftrightarrow> (\<exists>es. ring_inv (ring q) es \<and> quiet es \<and> messages es = ms) \<and> slots_ok q \<and> \<not> q_closing q \<and> reader q"

definition queue_push :: "env \<Rightarrow> Queue \<Rightarrow> u32 \<times> bytes \<Rightarrow> Queue \<times> bool" where
  "queue_push v q m =
     (case TrySendTyped v q (fst m) (snd m) of
        Some (q', Inr _) \<Rightarrow> (q', True)
      | Some (q', Inl _) \<Rightarrow> (q', False)
      | None \<Rightarrow> (q, False))"

definition queue_pop :: "env \<Rightarrow> Queue \<Rightarrow> Queue \<times> (u32 \<times> bytes) option" where
  "queue_pop v q =
     (case Queue_TryRecv v q of
        Some (q', Inr m) \<Rightarrow> (q', Some m)
      | Some (q', Inl _) \<Rightarrow> (q', None)
      | None \<Rightarrow> (q, None))"

definition queue_room :: "Queue \<Rightarrow> nat" where
  "queue_room q = ring_room (ring q)"

text \<open>A receive from a ring without open claims.\<close>

lemma receive_quiet:
  assumes inv: "ring_inv (ring q) es" and "quiet es"
  obtains q' where "receive v perr 1 q =
      Some (q', messages (take_ready 1 es),
        if messages (take_ready 1 es) = [] then Some (case perr of Some g \<Rightarrow> g | None \<Rightarrow> ErrEmpty) else None)"
    "ring_inv (ring q') (drop_ready 1 es)" "ring_room (ring q') = ring_room (ring q)" "owners (ring q') = owners (ring q)"
    "q_self q' = q_self q" "owned q' = owned q" "q_idle q' = q_idle q" "q_closing q' = q_closing q" "reader q' = reader q"
    "rmask (ring q') = rmask (ring q)"
proof -
  obtain r where r: "Read (ring q) 1 = (r, messages (take_ready (nat 1) es), None)"
    "ring_inv r (drop_ready (nat 1) es)" "rmask r = rmask (ring q)"
    "hdr r = (hdr (ring q))\<lparr>head := head (hdr (ring q)) + span (take_ready (nat 1) es)\<rparr>"
    by (rule Read_spec [OF inv])
  define q1 where "q1 = (if head (hdr r) \<noteq> head (hdr (ring q)) then wakeSenders v (q\<lparr>ring := r\<rparr>) else q\<lparr>ring := r\<rparr>)"
  have q1: "ring q1 = r" "q_self q1 = q_self q" "owned q1 = owned q" "q_idle q1 = q_idle q"
    "q_closing q1 = q_closing q" "reader q1 = reader q"
    by (simp_all add: q1_def) (simp add: wakeSenders_def Let_def)
  have room: "ring_room r = ring_room (ring q)" "owners r = owners (ring q)"
    using r(3,4) by (simp_all add: ring_room_def Capacity_def owners_def)
  have "quiet (drop_ready 1 es)" using assms(2) take_drop_ready [of 1 es] by (metis quiet_append)
  then have "stalled r = None"
    using stalled_ready [OF r(2)] by (cases "drop_ready 1 es") (auto simp: quiet_def)
  then have un: "unstall v q1 = (q1, Inr False)" by (simp add: unstall_def q1)
  have turn: "receive_turn v 1 q =
      (q1, if messages (take_ready 1 es) = [] then Break else Return (messages (take_ready 1 es)) None)"
    using r(1) un by (simp add: receive_turn_def q1_def [symmetric] Let_def)
  then have "receive_loop v 1 q =
      Some (q1, if messages (take_ready 1 es) = [] then Break else Return (messages (take_ready 1 es)) None)"
    by (subst receive_loop.simps) simp
  then show thesis
    using r(2,3) q1 room by (intro that [of q1]) (simp_all add: receive_def)
qed

lemma TryRecv_quiet:
  assumes "ring_inv (ring q) es" "quiet es" "slots_ok q" "\<not> q_closing q" "reader q"
  shows "\<exists>q'. Queue_TryRecv v q =
      Some (q', case messages (take_ready 1 es) of [] \<Rightarrow> Inl ErrEmpty | ms \<Rightarrow> Inr (last ms)) \<and>
    ring_inv (ring q') (drop_ready 1 es) \<and> ring_room (ring q') = ring_room (ring q) \<and>
    slots_ok q' \<and> \<not> q_closing q' \<and> reader q'"
proof -
  let ?q = "q\<lparr>q_active := q_active q + 1\<rparr>"
  obtain q1 where q1: "receive v None 1 ?q =
      Some (q1, messages (take_ready 1 es), if messages (take_ready 1 es) = [] then Some (case None of Some g \<Rightarrow> g | None \<Rightarrow> ErrEmpty) else None)"
    "ring_inv (ring q1) (drop_ready 1 es)" "ring_room (ring q1) = ring_room (ring ?q)" "owners (ring q1) = owners (ring ?q)"
    "q_self q1 = q_self ?q" "owned q1 = owned ?q" "q_idle q1 = q_idle ?q" "q_closing q1 = q_closing ?q" "reader q1 = reader ?q"
    by (rule receive_quiet [of ?q es v None]) (use assms in simp_all)
  have "slots_ok q1" using slots_ok_cong [OF q1(4-7)] assms(3) by simp
  then show ?thesis
    using q1 assms(4,5)
    by (simp add: Queue_TryRecv_def enter_open recvOne_def split: list.split)
qed

interpretation queue_fifo: fifo queue_rel "queue_push v" "queue_pop v" queue_room for v
proof
  fix q ms m q' ok
  assume rel: "queue_rel q ms" and room: "0 < queue_room q" and p: "queue_push v q m = (q', ok)"
  obtain es where es: "ring_inv (ring q) es" "quiet es" "messages es = ms" "slots_ok q" "\<not> q_closing q" "reader q"
    using rel by (auto simp: queue_rel_def)
  obtain q1 res where w: "TrySendTyped v q (fst m) (snd m) = Some (q1, res)" "slots_ok q1" "reader q1 = reader q" "\<not> q_closing q1"
    "write_post (ring q) es (fst m) (snd m) res (ring q1) \<or> ring_inv (ring q1) es \<and> ring_room (ring q1) = ring_room (ring q) \<and>
      (res = Inl ErrTooManyClaims \<and> 0 \<notin> set (owners (ring q)) \<or> (\<exists>e. res = Inl e \<and> snd (checkPeer v q) = Some e))"
    by (rule TrySendTyped_ok [OF es(1,4) _ es(5)]) (use room in \<open>simp_all add: queue_room_def\<close>)
  have q1: "q' = q1" "ok \<longleftrightarrow> \<not> isl res" using p w(1) by (auto simp: queue_push_def split: sum.splits)
  show "queue_rel q' (if ok then ms @ [m] else ms)"
  proof (cases res)
    case (Inl e)
    then have "ring_inv (ring q1) es" using w(5) by (auto simp: write_post_def)
    then show ?thesis using w es q1 Inl by (auto simp: queue_rel_def)
  next
    case (Inr u)
    let ?es = "es @ claim_pad (ring q) (length (snd m)) @ [Committed (fst m) (snd m)]"
    have "ring_inv (ring q') ?es" "quiet ?es" "messages ?es = ms @ [m]"
      using w(5) es q1 Inr by (simp_all add: write_post_def)
    then show ?thesis using w es q1 Inr unfolding queue_rel_def by auto
  qed
  show "queue_room q \<le> Suc (queue_room q')" using w(5) q1 by (auto simp: queue_room_def write_post_def split: sum.splits)
next
  fix q m ms assume "queue_rel q (m # ms)"
  then obtain es where es: "ring_inv (ring q) es" "quiet es" "messages es = m # ms" "slots_ok q" "\<not> q_closing q" "reader q"
    by (auto simp: queue_rel_def)
  note qt = quiet_take_ready [OF es(2,3)]
  show "\<exists>q'. queue_pop v q = (q', Some m) \<and> queue_rel q' ms \<and> queue_room q' = queue_room q"
    using TryRecv_quiet [OF es(1,2,4,5,6), of v] qt by (auto simp: queue_pop_def queue_rel_def queue_room_def)
next
  fix q assume "queue_rel q []"
  then obtain es where es: "ring_inv (ring q) es" "quiet es" "messages es = []" "slots_ok q" "\<not> q_closing q" "reader q"
    by (auto simp: queue_rel_def)
  note qt = quiet_take_ready_Nil [OF es(2,3)]
  show "\<exists>q'. queue_pop v q = (q', None) \<and> queue_rel q' [] \<and> queue_room q' = queue_room q"
    using TryRecv_quiet [OF es(1,2,4,5,6), of v] qt by (auto simp: queue_pop_def queue_rel_def queue_room_def)
qed

text \<open>
  C11: Through any sequence of TrySend and TryRecv on an open handle without open claims, what
  the sends accepted behind what the queue held is what the receives delivered, in order,
  followed by what the queue still holds.
\<close>

theorem queue_fifo_order:
  assumes "queue_rel q ms" "length xs \<le> queue_room q"
    and "run_ops (queue_push v) (queue_pop v) q xs = (q', accepted, delivered)"
  shows "\<exists>ms'. queue_rel q' ms' \<and> ms @ accepted = delivered @ ms'"
  by (rule queue_fifo.run_fifo [OF assms])

theorem queue_fifo_order_witness:
  "\<exists>q' accepted delivered ms'. run_ops (queue_push demo_env) (queue_pop demo_env) demo_queue [Push (5, [1]), Pop, Pop] =
     (q', accepted, delivered) \<and> accepted = delivered @ ms'"
proof -
  have rel: "queue_rel demo_queue []"
    using demo_queue_ok by (auto simp: queue_rel_def quiet_def intro: exI [of _ "[]"]) (simp add: demo_queue_def)
  have room: "length [Push (5, [1]), Pop, Pop] \<le> queue_room demo_queue"
    by (simp add: queue_room_def demo_queue_def) (simp add: ring_room_def)
  obtain q' accepted delivered where
    run: "run_ops (queue_push demo_env) (queue_pop demo_env) demo_queue [Push (5, [1]), Pop, Pop] = (q', accepted, delivered)"
    by (metis prod_cases3)
  from queue_fifo_order [OF rel room run] run show ?thesis by auto
qed

section \<open>Receiving\<close>

text \<open>A queue whose only claim belongs to a process that has died.\<close>

definition dead_proc :: procID where "dead_proc = 2 ^ 63"

definition dead_env :: env where
  "dead_env = \<lparr>dial_of = (\<lambda>_. Some ErrRefused), name_gone = False, pipe_of = \<lparr>pipe_cap = 65536, pipe_err = None\<rparr>, ne_close = (\<lambda>_. None, None), nf_close = (\<lambda>_. None, None)\<rparr>"

definition stalled_queue :: Queue where
  "stalled_queue = demo_queue\<lparr>ring := upd_slot (set_tail demo_ring 64) 0
     (\<lambda>_. \<lparr>slot_owner = dead_proc, slot_at = 0, slot_size = 64\<rparr>)\<rparr>"

lemma stalled_queue_slots:
  "slots (hdr (ring stalled_queue)) =
    (replicate ClaimSlots \<lparr>slot_owner = 0, slot_at = noIntent, slot_size = 0\<rparr>)[0 := \<lparr>slot_owner = dead_proc, slot_at = 0, slot_size = 64\<rparr>]"
  by (simp add: stalled_queue_def upd_slot_def set_tail_def demo_ring_def)

lemma stalled_queue_fields [simp]:
  "head (hdr (ring stalled_queue)) = 0" "tail (hdr (ring stalled_queue)) = 64" "Capacity (ring stalled_queue) = 4096"
  "q_self stalled_queue = 7" "q_closing stalled_queue = False" "reader stalled_queue = True"
  "exited (watching stalled_queue) = (\<lambda>_. False)" "data (ring stalled_queue) = clear_bytes (\<lambda>_. 7) 0 4096"
  by (simp_all add: stalled_queue_def demo_queue_def upd_slot_def set_tail_def Capacity_def no_watches_def demo_ring_def)

lemma stalled_queue_honest: "honest stalled_queue [Reserved 64]"
proof -
  have z: "load_bytes (clear_bytes (\<lambda>_. 7) 0 4096) i 4 = replicate 4 0" if "i + 4 \<le> 4096" for i
    by (rule load_bytes_zero) (use that in \<open>simp add: clear_bytes_def\<close>)
  have "ring_inv (ring stalled_queue) [Reserved 64]"
    unfolding ring_inv_def using ring_invD(1) [OF demo_inv] z [of 0]
    by (auto simp: stalled_queue_def ring_ok_def)
       (auto simp: stalled_queue_def demo_queue_def len_at_def zeroed_def clear_bytes_def Capacity_def set_tail_def demo_ring_def i32_def)
  moreover have "end_fits (ring stalled_queue) 0 64 s" if "s \<in> set (slots (hdr (ring stalled_queue)))" for s
    using that by (auto simp: stalled_queue_slots ClaimSlots_def end_fits_def covers_def dest!: set_update_cases [rotated])
  ultimately show ?thesis by (simp add: honest_def)
qed

text \<open>
  C12: A receive on a ring whose slots say the truth about its claims always returns, and what
  it delivers followed by what stays is what there was: reclaiming the claims of dead
  producers loses, repeats and reorders no message. It gives up only when the ring is empty
  or when some process that is not known to be dead, or no process at all, answers for the
  claim in front.
\<close>

theorem receive_returns:
  assumes "honest q es" "0 < limit"
  shows "\<exists>q' t es'. receive_loop v limit q = Some (q', t) \<and> honest q' es' \<and>
    (case t of
       Return msgs err \<Rightarrow> messages es = msgs @ messages es' \<and> (msgs = [] \<longleftrightarrow> err \<noteq> None) \<and> receive v perr limit q = Some (q', msgs, err)
     | Turn \<Rightarrow> False
     | Break \<Rightarrow> messages es = messages es' \<and> (es' = [] \<or> \<not> ready_entry (hd es') \<and> may_rest v q') \<and>
         receive v perr limit q = Some (q', [], Some (case perr of Some g \<Rightarrow> g | None \<Rightarrow> ErrEmpty)))"
proof -
  obtain q' t es' where t: "receive_loop v limit q = Some (q', t)" "honest q' es'"
    "case t of
       Return msgs err \<Rightarrow> messages es = msgs @ messages es' \<and>
         (if msgs = [] then err \<noteq> None \<and> (0 < limit \<longrightarrow> es' = [] \<or> \<not> ready_entry (hd es'))
          else err = None \<and> length msgs \<le> nat limit)
     | Turn \<Rightarrow> False
     | Break \<Rightarrow> messages es' = messages es \<and> (0 < limit \<longrightarrow> es' = [] \<or> \<not> ready_entry (hd es') \<and> may_rest v q')"
    using receive_loop_honest [OF assms(1)] by blast
  then show ?thesis using assms(2) by (cases t) (auto simp: receive_def split: if_splits)
qed

theorem receive_returns_witness:
  "honest stalled_queue [Reserved 64] \<and> (\<exists>q' t. receive_loop dead_env 1 stalled_queue = Some (q', t) \<and> t \<noteq> Turn)"
  using receive_returns [OF stalled_queue_honest, of 1 dead_env None] stalled_queue_honest
  by (auto split: recv_turn.splits)

section \<open>Recovery\<close>

text \<open>
  C13: Whatever the memory holds, unstall takes a claim from the ring only when every slot that
  covers the stalled position names a process that has died and is not this one, and all of
  them agree on where the claim ends. One producer that lives keeps the ring as it is.
\<close>

theorem unstall_only_dead:
  assumes "unstall v q = (q', res)" "res = Inr True \<or> ring q' \<noteq> ring q"
  shows "\<exists>stop. \<forall>i < length (slots (hdr (ring q))). claimant q (head (hdr (ring q))) i \<longrightarrow>
    dead_claimant v q (head (hdr (ring q))) i \<and> slot_end q i = stop"
proof -
  obtain st where st: "stalled (ring q) = Some st"
    using assms by (auto simp: unstall_def split: option.splits)
  then have s: "st_at st = head (hdr (ring q))"
    "set (st_slots st) = {i. i < length (slots (hdr (ring q))) \<and> covers (slots (hdr (ring q)) ! i) (head (hdr (ring q)))}"
    by (auto simp: stalled_def Let_def split: if_splits)
  have u: "unstall_slots v q st (st_slots st) [] 0 = (q', res)" using assms(1) st by (simp add: unstall_def)
  have "\<not> unstall_kept v q (st_at st) (st_slots st) [] q' res"
    using assms(2) core_eqD(1) [of q' q] by (auto simp: unstall_kept_def)
  then obtain dead stop where "unstall_reclaims v q st (st_slots st) [] q' res dead stop"
    using unstall_slots_cases [OF u] by auto
  then have d: "\<forall>i \<in> set dead. dead_claimant v q (st_at st) i \<and> slot_end q i = stop"
    "\<forall>i \<in> set (st_slots st). claimant q (st_at st) i \<longrightarrow> i \<in> set dead"
    unfolding unstall_reclaims_def by blast+
  have "i \<in> set (st_slots st)" if "i < length (slots (hdr (ring q)))" "claimant q (head (hdr (ring q))) i" for i
    using that by (simp add: s(2) claimant_def slot_of_def)
  then show ?thesis using d unfolding s(1) by blast
qed

lemma stalled_queue_stall:
  "stalled (ring stalled_queue) = Some \<lparr>st_at = 0, st_length = 0, st_slots = [0]\<rparr>"
proof -
  have "loadLength (ring stalled_queue) 0 = 0"
    by (simp add: loadLength_def load_bytes_zero clear_bytes_def i32_def)
  moreover have "filter (\<lambda>i. covers (slots (hdr (ring stalled_queue)) ! i) 0) [0..<length (slots (hdr (ring stalled_queue)))] = [0]"
    unfolding stalled_queue_slots ClaimSlots_def
    by (simp add: upt_rec [of 0] covers_def add64_def filter_empty_conv noIntent_def)
  ultimately show ?thesis by (simp add: stalled_def)
qed

theorem unstall_only_dead_witness:
  "snd (unstall dead_env stalled_queue) = Inr True \<and>
   (\<exists>stop. \<forall>i < ClaimSlots. claimant stalled_queue 0 i \<longrightarrow> dead_claimant dead_env stalled_queue 0 i \<and> slot_end stalled_queue i = stop)"
proof -
  obtain q' res where u: "unstall dead_env stalled_queue = (q', res)" by force
  have dead: "q_isDead dead_env stalled_queue dead_proc" "watchable dead_proc" "dead_proc \<noteq> 7" "dead_proc \<noteq> noProc"
    by (simp_all add: q_isDead_def isDead_def dead_env_def dead_proc_def lifeGone_def isRefused_def noProc_def)
  have "slots (hdr (ring stalled_queue)) ! 0 = \<lparr>slot_owner = dead_proc, slot_at = 0, slot_size = 64\<rparr>"
    by (simp add: stalled_queue_slots ClaimSlots_def)
  then have "res = Inr True"
    using u dead by (simp add: unstall_def stalled_queue_stall covers_def add64_def noIntent_def reclaim_def casLength_def
        loadLength_def load_bytes_zero clear_bytes_def i32_def Let_def split: prod.splits if_splits)
  with unstall_only_dead [OF u] u show ?thesis by (simp add: stalled_queue_slots)
qed

section \<open>Closing\<close>

text \<open>
  C14: On a closed handle every operation reports ErrClosed and leaves the ring, the events and
  the count of operations as they are; commits and aborts do nothing.
\<close>

theorem closed_handle:
  assumes "q_closing q"
  shows "\<exists>q'. TrySendTyped v q ty p = Some (q', Inl ErrClosed) \<and> SendTyped v ws q ty p = Some (q', Inl ErrClosed) \<and>
    Queue_Claim v ws q ty n = Some (q', Inl ErrClosed) \<and> Queue_TryRecv v q = Some (q', Inl ErrClosed) \<and>
    RecvInto v ws q = Some (q', Inl ErrClosed) \<and> ReadBatch v ws' n q = Some (q', [], Some ErrClosed) \<and>
    Queue_Commit v q c = q' \<and> Queue_Abort v q c = q' \<and>
    ring q' = ring q \<and> notEmpty q' = notEmpty q \<and> notFull q' = notFull q \<and> q_active q' = q_active q \<and>
    Close v se le q = Some (q, Some ErrClosed)"
proof -
  obtain d where "enter q = (q\<lparr>q_drained := d\<rparr>, False)" using enter_closed [OF assms] by blast
  then show ?thesis using assms
    by (simp add: TrySendTyped_def SendTyped_def Queue_Claim_def Queue_TryRecv_def RecvInto_def ReadBatch_def
        Queue_Commit_def Queue_Abort_def Close_def)
qed

theorem closed_handle_witness:
  "\<exists>q'. TrySendTyped demo_env (demo_queue\<lparr>q_closing := True\<rparr>) 5 [1] = Some (q', Inl ErrClosed)"
  using closed_handle [of "demo_queue\<lparr>q_closing := True\<rparr>" demo_env 5 "[1]"] by (simp add: demo_queue_def) blast

lemma fold_dropSlot:
  assumes "distinct is" "\<forall>i \<in> set is. i < length (slots (hdr r)) \<and> slot_owner (slots (hdr r) ! i) = self"
  shows "ring_inv (fold (\<lambda>i r. dropSlot r self i) is r) es = ring_inv r es \<and>
    (i < length (slots (hdr r)) \<longrightarrow> slots (hdr (fold (\<lambda>i r. dropSlot r self i) is r)) ! i =
      (if i \<in> set is then (slots (hdr r) ! i)\<lparr>slot_at := noIntent, slot_owner := 0\<rparr> else slots (hdr r) ! i)) \<and>
    consumer (hdr (fold (\<lambda>i r. dropSlot r self i) is r)) = consumer (hdr r)"
  using assms
proof (induction "is" arbitrary: r)
  case (Cons j js)
  let ?r = "dropSlot r self j"
  have s: "slots (hdr ?r) = (slots (hdr r))[j := (slots (hdr r) ! j)\<lparr>slot_at := noIntent, slot_owner := 0\<rparr>]"
    "consumer (hdr ?r) = consumer (hdr r)"
    using Cons.prems by (simp_all add: dropSlot_def upd_slot_def Let_def)
  have "\<forall>i \<in> set js. i < length (slots (hdr ?r)) \<and> slot_owner (slots (hdr ?r) ! i) = self"
    using Cons.prems by (auto simp: s nth_list_update)
  from Cons.IH [OF _ this] Cons.prems show ?case by (auto simp: s nth_list_update)
qed simp

lemma close_fields:
  "ring (wakeSenders v q) = ring q" "ring (peer_stop q) = ring q" "ring (producers_stop q) = ring q"
  "owned (wakeSenders v q) = owned q" "owned (peer_stop q) = owned q" "owned (producers_stop q) = owned q"
  "q_self (wakeSenders v q) = q_self q" "q_self (peer_stop q) = q_self q" "q_self (producers_stop q) = q_self q"
  "q_active (wakeSenders v q) = q_active q" "q_active (peer_stop q) = q_active q" "q_active (producers_stop q) = q_active q"
  "q_closing (wakeSenders v q) = q_closing q" "q_closing (peer_stop q) = q_closing q" "q_closing (producers_stop q) = q_closing q"
  by (simp_all add: wakeSenders_def peer_stop_def producers_stop_def Let_def split: option.splits)

lemma close_begin_fields:
  assumes "close_begin v q = (q', err)"
  shows "ring q' = (if reader q \<and> consumer (hdr (ring q)) = q_self q
       then (ring q)\<lparr>hdr := (hdr (ring q))\<lparr>consumer := noProc\<rparr>\<rparr> else ring q)"
    and "owned q' = owned q" "q_self q' = q_self q" "q_active q' = q_active q" "q_closing q'"
    "closed (notEmpty q')" "closed (notFull q')"
proof -
  have c: "Event_Close ce e = (e', er) \<Longrightarrow> closed e'" for ce e e' er
    by (auto simp: Event_Close_def close_event_def Let_def split: if_splits)
  show "ring q' = (if reader q \<and> consumer (hdr (ring q)) = q_self q
       then (ring q)\<lparr>hdr := (hdr (ring q))\<lparr>consumer := noProc\<rparr>\<rparr> else ring q)"
    "owned q' = owned q" "q_self q' = q_self q" "q_active q' = q_active q" "q_closing q'"
    "closed (notEmpty q')" "closed (notFull q')"
    using assms by (auto simp: close_begin_def Let_def close_fields upd_ring_def split: prod.splits if_splits dest: c)
qed

text \<open>
  C15: Close of a handle nobody is inside returns, unmaps, closes both events, gives up every
  claim slot the handle took and no other slot, and, where this process is the receiver of
  the ring, says so in the header. The messages of the ring stay for the other side.
\<close>

theorem Close_spec:
  assumes "slots_ok q" "ring_inv (ring q) es" "\<not> q_closing q" "q_active q \<le> 0"
  shows "\<exists>q' err. Close v seg_err lock_err q = Some (q', err) \<and> \<not> mapped q' \<and> q_closing q' \<and>
    closed (notEmpty q') \<and> closed (notFull q') \<and> ring_inv (ring q') es \<and> owned q' = [] \<and>
    consumer (hdr (ring q')) = (if reader q \<and> consumer (hdr (ring q)) = q_self q then noProc else consumer (hdr (ring q))) \<and>
    (\<forall>i < ClaimSlots. slots (hdr (ring q')) ! i =
       (if i \<in> set (owned q) then (slots (hdr (ring q)) ! i)\<lparr>slot_at := noIntent, slot_owner := 0\<rparr> else slots (hdr (ring q)) ! i))"
proof -
  obtain q1 e where b: "close_begin v q = (q1, e)" by force
  note f = close_begin_fields [OF b]
  have s: "slots (hdr (ring q1)) = slots (hdr (ring q))" "ring_inv (ring q1) es"
    "consumer (hdr (ring q1)) = (if reader q \<and> consumer (hdr (ring q)) = q_self q then noProc else consumer (hdr (ring q)))"
    using assms(2) by (simp_all add: f(1))
  have len: "length (slots (hdr (ring q1))) = ClaimSlots" using assms(1) by (simp add: s(1) slots_ok_def owners_def)
  have d: "distinct (owned q1)" "\<forall>i \<in> set (owned q1). i < length (slots (hdr (ring q1))) \<and> slot_owner (slots (hdr (ring q1)) ! i) = q_self q1"
    using assms(1) len by (auto simp: f slots_ok_def s(1) owners_def)
  have c: "Close v seg_err lock_err q = Some (close_end seg_err lock_err q1 e)"
    using assms(3,4) b f(4) by (simp add: Close_def)
  show ?thesis unfolding c using fold_dropSlot [OF d] f s len
    by (auto simp: close_end_def)
qed

theorem Close_spec_witness:
  "\<exists>q'. Close demo_env None None demo_queue = Some (q', None) \<and> \<not> mapped q' \<and> consumer (hdr (ring q')) = noProc"
proof -
  have "\<exists>q'. Close demo_env None None demo_queue = Some (q', None)"
    by (simp add: Close_def close_begin_def close_end_def Event_Close_def close_event_def demo_queue_def new_eventImpl_def
        wakeSenders_def upd_ring_def peer_stop_def producers_stop_def first_err_def demo_ring_def demo_env_def Let_def)
  with Close_spec [OF demo_queue_ok(2) demo_queue_ok(1) demo_queue_ok(4), of demo_env None None]
  show ?thesis by (auto simp: demo_queue_def)
qed

end
