(* ===== verification/Park.thy ===== *)
theory Park
  imports Queue_Props "HOL-Library.Sublist"
begin

text \<open>
  The blocking operations of \<^verbatim>\<open>src/queue.go\<close>: what \<open>park\<close> returns, given what one attempt returns
  and what the world may do to the state between attempts.
\<close>

section \<open>A rule for park\<close>

text \<open>
  \<open>P\<close> holds between attempts, \<open>Q\<close> after an attempt that succeeds and \<open>N\<close> after one that fails.
  A wait that fails with \<open>ErrPeerGone\<close> is followed by one more attempt, so that error too is
  returned only in a state where an attempt just failed.
\<close>

lemma park_rule:
  assumes "park waiters blocked attempt ws s = Some (s', res)" "P s"
    and A: "\<And>s s' r. P s \<Longrightarrow> attempt s = Some (s', Inr r) \<Longrightarrow> Q s' r"
    and B: "\<And>s s' e. P s \<Longrightarrow> attempt s = Some (s', Inl e) \<Longrightarrow> P s' \<and> N s'"
    and W: "\<And>s n. P s \<Longrightarrow> P (waiters s n)" "\<And>s n r. Q s r \<Longrightarrow> Q (waiters s n) r" "\<And>s n. N s \<Longrightarrow> N (waiters s n)"
    and G: "\<And>s w. w \<in> set ws \<Longrightarrow> P s \<Longrightarrow> P (gap w s) \<and> P (during w s)"
  shows "case res of Inr r \<Rightarrow> Q s' r | Inl e \<Rightarrow> P s' \<and> (errors_is e ErrPeerGone \<longrightarrow> N s')"
  using assms(1,2) G
proof (induction ws arbitrary: s)
  case Nil
  then show ?case
    by (subst (asm) park.simps) (auto split: option.splits sum.splits if_splits dest: A B)
next
  case (Cons w ws)
  note park_eq = Cons.prems(1) [unfolded park.simps [of _ _ _ "w # ws"]]
  obtain s1 r1 where 1: "attempt s = Some (s1, r1)" using park_eq by (auto split: option.splits)
  show ?case
  proof (cases "r1 = Inl blocked")
    case False
    then show ?thesis using park_eq 1 A [OF Cons.prems(2)] B [OF Cons.prems(2)] by (auto split: sum.splits if_splits)
  next
    case True
    let ?s = "gap w (waiters s1 1)"
    have P: "P ?s" using B [OF Cons.prems(2)] 1 True W(1) Cons.prems(3) [of w] by auto
    obtain s2 r2 where 2: "attempt ?s = Some (s2, r2)" using park_eq 1 True by (auto split: option.splits)
    show ?thesis
    proof (cases "r2 = Inl blocked")
      case False
      then show ?thesis using park_eq 1 True 2 A [OF P] B [OF P] W by (auto split: sum.splits if_splits)
    next
      case blocked: True
      let ?t = "waiters (during w s2) (-1)"
      have t: "P ?t" using B [OF P] 2 blocked W(1) Cons.prems(3) [of w] by auto
      show ?thesis
      proof (cases "wait_err w")
        case None
        then have "park waiters blocked attempt ws ?t = Some (s', res)" using park_eq 1 True 2 blocked by simp
        then show ?thesis using Cons.IH t Cons.prems(3) by (metis list.set_intros(2))
      next
        case (Some e)
        then show ?thesis using park_eq 1 True 2 blocked t A [OF t] B [OF t]
          by (auto simp: Let_def split: if_splits option.splits sum.splits)
      qed
    qed
  qed
qed

section \<open>Sending\<close>

text \<open>
  How the entries of a ring show the messages that were sent: \<open>drained_view\<close> when a receiver
  may have taken some from the front, \<open>exact_view\<close> when it has taken none and no claim is
  open. A view only has to follow a message that is committed behind the others.
\<close>

locale ring_view =
  fixes view :: "entry list \<Rightarrow> (u32 \<times> bytes) list \<Rightarrow> bool"
  assumes view_commit: "view es ms \<Longrightarrow> view (es @ claim_pad r n @ [Committed ty p]) (ms @ [(ty, p)])"

definition drained_view :: "entry list \<Rightarrow> (u32 \<times> bytes) list \<Rightarrow> bool" where
  "drained_view es ms = suffix (messages es) ms"

definition exact_view :: "entry list \<Rightarrow> (u32 \<times> bytes) list \<Rightarrow> bool" where
  "exact_view es ms \<longleftrightarrow> quiet es \<and> messages es = ms"

text \<open>What a sender relies on while it waits: the ring, its slots and its view stay in order.\<close>

definition sender_at :: "(entry list \<Rightarrow> (u32 \<times> bytes) list \<Rightarrow> bool) \<Rightarrow> nat \<Rightarrow> (u32 \<times> bytes) list \<Rightarrow> Queue \<Rightarrow> bool" where
  "sender_at view room ms q \<longleftrightarrow> (\<exists>es. ring_inv (ring q) es \<and> view es ms) \<and> slots_ok q \<and>
     room \<le> ring_room (ring q) \<and> 0 < MaxMessageSize (ring q) \<and> \<not> q_closing q"

definition drains :: "(entry list \<Rightarrow> (u32 \<times> bytes) list \<Rightarrow> bool) \<Rightarrow> Queue park_round list \<Rightarrow> bool" where
  "drains view ws \<longleftrightarrow> (\<forall>w \<in> set ws. \<forall>room ms q. sender_at view room ms q \<longrightarrow>
     sender_at view room ms (gap w q) \<and> sender_at view room ms (during w q))"

lemma sender_at_waiters [simp]:
  "sender_at view room ms (add_sendWaiters q n) = sender_at view room ms q"
  "sender_at view room ms (q\<lparr>q_active := a\<rparr>) = sender_at view room ms q"
  "sender_at view room ms (leave q) = sender_at view room ms q"
  by (simp_all add: sender_at_def add_sendWaiters_def upd_ring_def slots_ok_def in_use_def owners_def
      ring_inv_def ring_ok_def Capacity_def ring_room_def MaxMessageSize_def)

lemma sender_at_wake [simp]: "sender_at view room ms (wakeReceiver v q) = sender_at view room ms q"
  by (simp add: sender_at_def)

lemma sender_at_peer [simp]: "sender_at view room ms (q\<lparr>peer := p\<rparr>) = sender_at view room ms q"
  by (simp add: sender_at_def slots_ok_def)

text \<open>The state after a send: one message more, or the same messages.\<close>

definition sent_or_not :: "(entry list \<Rightarrow> (u32 \<times> bytes) list \<Rightarrow> bool) \<Rightarrow> nat \<Rightarrow> (u32 \<times> bytes) list \<Rightarrow> u32 \<times> bytes \<Rightarrow>
    Queue \<Rightarrow> unit result \<Rightarrow> bool" where
  "sent_or_not view room ms m q res =
     (case res of Inr _ \<Rightarrow> sender_at view room (ms @ [m]) q | Inl e \<Rightarrow> sender_at view (Suc room) ms q)"

context ring_view
begin

lemma q_write_sender:
  assumes "sender_at view (Suc room) ms q"
  shows "\<exists>q' res. q_write v q ty p = Some (q', res) \<and> sent_or_not view room ms (ty, p) q' res"
proof -
  obtain es where es: "ring_inv (ring q) es" "view es ms" "slots_ok q" "0 < ring_room (ring q)" "Suc room \<le> ring_room (ring q)"
    using assms by (auto simp: sender_at_def)
  obtain q' res where w: "q_write v q ty p = Some (q', res)" "slots_ok q'" "in_use q' = in_use q" "same_handle q q'"
    "write_post (ring q) es ty p res (ring q') \<or> ring_inv (ring q') es \<and> ring_room (ring q') = ring_room (ring q) \<and>
      (res = Inl ErrTooManyClaims \<and> 0 \<notin> set (owners (ring q)) \<or> (\<exists>e. res = Inl e \<and> snd (checkPeer v q) = Some e))"
    by (rule q_write_ok [OF es(1,3,4)])
  have c: "\<not> q_closing q'" "0 < MaxMessageSize (ring q')"
    using assms w(4) by (auto simp: sender_at_def same_handle_def MaxMessageSize_def Capacity_def)
  have "sent_or_not view room ms (ty, p) q' res"
  proof (cases res)
    case (Inl e)
    then have "ring_inv (ring q') es \<and> ring_room (ring q') = ring_room (ring q)" using w(5) by (auto simp: write_post_def)
    then show ?thesis using w(2) c es Inl by (auto simp: sent_or_not_def sender_at_def)
  next
    case (Inr u)
    then have "ring_inv (ring q') (es @ claim_pad (ring q) (length p) @ [Committed ty p])" "ring_room (ring q) \<le> Suc (ring_room (ring q'))"
      using w(5) by (auto simp: write_post_def)
    then show ?thesis using w(2) c es view_commit [OF es(2)] Inr unfolding sent_or_not_def sender_at_def by auto
  qed
  then show ?thesis using w(1) by blast
qed

lemma sender_at_park:
  assumes "park add_sendWaiters ErrFull (\<lambda>q. or_unlinked v (q_write v q ty p)) ws q = Some (q', res)"
    and "sender_at view (Suc room) ms q" "drains view ws"
  shows "sent_or_not view room ms (ty, p) q' res"
proof -
  have att: "sent_or_not view room ms (ty, p) q' res"
    if "sender_at view (Suc room) ms q" "or_unlinked v (q_write v q ty p) = Some (q', res)" for q q' res
  proof -
    note h = that
    obtain q1 r1 where "q_write v q ty p = Some (q1, r1)" "sent_or_not view room ms (ty, p) q1 r1"
      using q_write_sender [OF h(1), of v ty p] by blast
    then show ?thesis using h(2) by (cases r1) (auto simp: or_unlinked_def sent_or_not_def split: if_splits)
  qed
  have "case res of Inr _ \<Rightarrow> sender_at view room (ms @ [(ty, p)]) q' | Inl e \<Rightarrow> sender_at view (Suc room) ms q' \<and> (errors_is e ErrPeerGone \<longrightarrow> True)"
    by (rule park_rule [OF assms(1), where P = "sender_at view (Suc room) ms" and N = "\<lambda>_. True"])
      (use assms(2,3) in \<open>auto simp: drains_def sent_or_not_def dest: att\<close>)
  then show ?thesis by (simp add: sent_or_not_def split: sum.splits)
qed

lemma SendTyped_at:
  assumes "SendTyped v ws q ty p = Some (q', res)" "sender_at view (Suc room) ms q" "drains view ws"
  shows "sent_or_not view room ms (ty, p) q' res"
proof -
  let ?q = "q\<lparr>q_active := q_active q + 1\<rparr>"
  have e: "enter q = (?q, True)" using assms(2) by (simp add: enter_open sender_at_def)
  obtain q1 r1 where p: "park add_sendWaiters ErrFull (\<lambda>q. or_unlinked v (q_write v q ty p)) ws ?q = Some (q1, r1)"
    using assms(1) e by (auto simp: SendTyped_def split: option.splits)
  have "sent_or_not view room ms (ty, p) q1 r1"
    by (rule sender_at_park [OF p]) (use assms(2,3) in simp_all)
  then show ?thesis using assms(1) e p
    by (auto simp: SendTyped_def sawPeerGone_def sent_or_not_def Let_def split: sum.splits prod.splits if_splits)
qed

end

interpretation drained: ring_view drained_view
  by unfold_locales (auto simp: drained_view_def)

interpretation exact: ring_view exact_view
  by unfold_locales (auto simp: exact_view_def quiet_append)

text \<open>
  C24: A blocking send, however often it is woken, parked and woken again while the receiver
  drains the ring, puts its message behind all others exactly once when it succeeds, and not
  at all when it fails.
\<close>

theorem SendTyped_once:
  assumes "SendTyped v ws q ty p = Some (q', res)" "sender_at drained_view (Suc room) ms q" "drains drained_view ws"
  shows "case res of Inr _ \<Rightarrow> sender_at drained_view room (ms @ [(ty, p)]) q' | Inl e \<Rightarrow> sender_at drained_view (Suc room) ms q'"
  using drained.SendTyped_at [OF assms] by (simp add: sent_or_not_def)

lemma demo_queue_sender: "sender_at drained_view (ring_room (ring demo_queue)) [] demo_queue"
  using demo_queue_ok by (auto simp: sender_at_def drained_view_def demo_queue_def intro: exI [of _ "[]"])

lemma demo_SendTyped:
  assumes "ty \<noteq> TypePadding"
  shows "\<exists>q'. SendTyped demo_env [] demo_queue ty [1, 2, 3] = Some (q', Inr ())"
proof -
  let ?q = "demo_queue\<lparr>q_active := q_active demo_queue + 1\<rparr>"
  obtain q' res where w: "q_write demo_env ?q ty [1, 2, 3] = Some (q', res)"
    "write_post (ring ?q) [] ty [1, 2, 3] res (ring q') \<or> ring_inv (ring q') [] \<and> ring_room (ring q') = ring_room (ring ?q) \<and>
      (res = Inl ErrTooManyClaims \<and> 0 \<notin> set (owners (ring ?q)) \<or> (\<exists>e. res = Inl e \<and> snd (checkPeer demo_env ?q) = Some e))"
    by (rule q_write_ok [of ?q "[]"]) (use demo_queue_ok in simp_all)
  then have "res = Inr ()"
    using demo_queue_accepts_type [OF assms] demo_queue_accepts(2) demo_queue_ok(5) by (cases res) (auto simp: write_post_def)
  then show ?thesis using w(1) demo_queue_ok(4)
    by (simp add: SendTyped_def enter_open park.simps or_unlinked_def)
qed

theorem SendTyped_once_witness:
  "\<exists>q' room. SendTyped demo_env [] demo_queue 5 [1, 2, 3] = Some (q', Inr ()) \<and> sender_at drained_view room [(5, [1, 2, 3])] q'"
proof -
  obtain q' where q': "SendTyped demo_env [] demo_queue 5 [1, 2, 3] = Some (q', Inr ())"
    using demo_SendTyped [of 5] by (auto simp: TypePadding_def)
  obtain room where "ring_room (ring demo_queue) = Suc room"
    using demo_queue_ok(3) by (cases "ring_room (ring demo_queue)") auto
  then show ?thesis using SendTyped_once [OF q', of room "[]"] q' demo_queue_sender by (auto simp: drains_def)
qed

end
