(* ===== verification/Channel.thy ===== *)
theory Channel
  imports Park
begin

text \<open>
  The channel of \<^verbatim>\<open>src/channel.go\<close>: two queues, one for each direction. A receive on \<open>rx\<close> asks
  \<open>tx\<close> whether the peer is gone before it reads, and reports that only when nothing is left
  to read. How the two queues come about is in \<open>Endpoint\<close>.
\<close>

section \<open>State\<close>

record Channel =
  ch_name :: string
  tx :: Queue
  rx :: Queue
  ch_owner :: bool

text \<open>The exit watches belong to the process, so both handles hold the same table.\<close>

definition set_tx :: "Queue \<Rightarrow> Channel \<Rightarrow> Channel" where
  "set_tx q c = c\<lparr>tx := q, rx := (rx c)\<lparr>watching := watching q\<rparr>\<rparr>"

definition set_rx :: "Queue \<Rightarrow> Channel \<Rightarrow> Channel" where
  "set_rx q c = c\<lparr>rx := q, tx := (tx c)\<lparr>watching := watching q\<rparr>\<rparr>"

definition on_tx :: "(Queue \<Rightarrow> (Queue \<times> 'r) option) \<Rightarrow> Channel \<Rightarrow> (Channel \<times> 'r) option" where
  "on_tx f c = map_option (\<lambda>(q, r). (set_tx q c, r)) (f (tx c))"

definition on_rx :: "(Queue \<Rightarrow> (Queue \<times> 'r) option) \<Rightarrow> Channel \<Rightarrow> (Channel \<times> 'r) option" where
  "on_rx f c = map_option (\<lambda>(q, r). (set_rx q c, r)) (f (rx c))"

definition newChannel :: "string \<Rightarrow> Queue \<Rightarrow> Queue \<Rightarrow> bool \<Rightarrow> Channel" where
  "newChannel name t r owner = \<lparr>ch_name = name, tx = t, rx = r, ch_owner = owner\<rparr>"

definition Channel_MaxMessageSize :: "Channel \<Rightarrow> int" where
  "Channel_MaxMessageSize c = MaxMessageSize (ring (tx c))"

section \<open>Sending\<close>

definition Channel_SendTyped :: "env \<Rightarrow> Queue park_round list \<Rightarrow> Channel \<Rightarrow> u32 \<Rightarrow> bytes \<Rightarrow> (Channel \<times> unit result) option" where
  "Channel_SendTyped v ws c ty payload = on_tx (\<lambda>q. SendTyped v ws q ty payload) c"

definition Channel_Send :: "env \<Rightarrow> Queue park_round list \<Rightarrow> Channel \<Rightarrow> bytes \<Rightarrow> (Channel \<times> unit result) option" where
  "Channel_Send v ws c payload = on_tx (\<lambda>q. SendTyped v ws q 0 payload) c"

definition Channel_TrySendTyped :: "env \<Rightarrow> Channel \<Rightarrow> u32 \<Rightarrow> bytes \<Rightarrow> (Channel \<times> unit result) option" where
  "Channel_TrySendTyped v c ty payload = on_tx (\<lambda>q. TrySendTyped v q ty payload) c"

definition Channel_TrySend :: "env \<Rightarrow> Channel \<Rightarrow> bytes \<Rightarrow> (Channel \<times> unit result) option" where
  "Channel_TrySend v c payload = on_tx (\<lambda>q. TrySendTyped v q 0 payload) c"

definition Channel_Claim :: "env \<Rightarrow> Queue park_round list \<Rightarrow> Channel \<Rightarrow> u32 \<Rightarrow> int \<Rightarrow> (Channel \<times> Claim result) option" where
  "Channel_Claim v ws c ty len = on_tx (\<lambda>q. Queue_Claim v ws q ty len) c"

definition Channel_Commit :: "env \<Rightarrow> Channel \<Rightarrow> Claim \<Rightarrow> Channel" where
  "Channel_Commit v c cl = set_tx (Queue_Commit v (tx c) cl) c"

definition Channel_Abort :: "env \<Rightarrow> Channel \<Rightarrow> Claim \<Rightarrow> Channel" where
  "Channel_Abort v c cl = set_tx (Queue_Abort v (tx c) cl) c"

section \<open>Receiving\<close>

text \<open>
  The receives of \<open>rx\<close> with its \<open>peerErr\<close>, the \<open>checkPeer\<close> of \<open>tx\<close>. The state of an attempt is
  the channel, since the check may start a watch on the side of \<open>tx\<close>.
\<close>

definition peerErr :: "env \<Rightarrow> Channel \<Rightarrow> Channel \<times> ipc_error option" where
  "peerErr v c = (case checkPeer v (tx c) of (t, err) \<Rightarrow> (set_tx t c, err))"

definition chan_recvOne :: "env \<Rightarrow> Channel \<Rightarrow> (Channel \<times> (u32 \<times> bytes) result) option" where
  "chan_recvOne v c = (case peerErr v c of (c, perr) \<Rightarrow> on_rx (recvOne v perr) c)"

definition as_reader :: "Channel \<Rightarrow> (Channel \<Rightarrow> (Channel \<times> 'r result) option) \<Rightarrow> (Channel \<times> 'r result) option" where
  "as_reader c op =
     (case enter (rx c) of
        (q, False) \<Rightarrow> Some (set_rx q c, Inl ErrClosed)
      | (q, True) \<Rightarrow>
          if \<not> reader q then Some (set_rx (leave q) c, Inl ErrNotConsumer)
          else map_option (\<lambda>(c, res). (set_rx (leave (rx c)) c, res)) (op (set_rx q c)))"

definition chan_waiters :: "Channel \<Rightarrow> int \<Rightarrow> Channel" where
  "chan_waiters c n = c\<lparr>rx := add_recvWaiters (rx c) n\<rparr>"

definition Channel_TryRecv :: "env \<Rightarrow> Channel \<Rightarrow> (Channel \<times> (u32 \<times> bytes) result) option" where
  "Channel_TryRecv v c = as_reader c (chan_recvOne v)"

definition Channel_RecvInto :: "env \<Rightarrow> Channel park_round list \<Rightarrow> Channel \<Rightarrow> (Channel \<times> (u32 \<times> bytes) result) option" where
  "Channel_RecvInto v ws c = as_reader c (park chan_waiters ErrEmpty (chan_recvOne v) ws)"

definition Channel_Recv :: "env \<Rightarrow> Channel park_round list \<Rightarrow> Channel \<Rightarrow> (Channel \<times> (u32 \<times> bytes) result) option" where
  "Channel_Recv v ws c = Channel_RecvInto v ws c"

definition chan_batch :: "env \<Rightarrow> int \<Rightarrow> Channel \<times> (u32 \<times> bytes) list \<Rightarrow> ((Channel \<times> (u32 \<times> bytes) list) \<times> unit result) option" where
  "chan_batch v limit cs =
     (case peerErr v (fst cs) of (c, perr) \<Rightarrow>
        (case receive v perr limit (rx c) of
           None \<Rightarrow> None
         | Some (q, msgs, Some e) \<Rightarrow> Some ((set_rx q c, snd cs @ msgs), Inl e)
         | Some (q, msgs, None) \<Rightarrow> Some ((set_rx q c, snd cs @ msgs), Inr ())))"

definition Channel_ReadBatch :: "env \<Rightarrow> (Channel \<times> (u32 \<times> bytes) list) park_round list \<Rightarrow> int \<Rightarrow>
    Channel \<Rightarrow> (Channel \<times> (u32 \<times> bytes) list \<times> ipc_error option) option" where
  "Channel_ReadBatch v ws limit c =
     (case enter (rx c) of
        (q, False) \<Rightarrow> Some (set_rx q c, [], Some ErrClosed)
      | (q, True) \<Rightarrow>
          if \<not> reader q then Some (set_rx (leave q) c, [], Some ErrNotConsumer)
          else (case park (\<lambda>(c, ms) n. (chan_waiters c n, ms)) ErrEmpty (chan_batch v limit) ws (set_rx q c, []) of
                  None \<Rightarrow> None
                | Some ((c, msgs), Inl e) \<Rightarrow> Some (set_rx (leave (rx c)) c, msgs, Some e)
                | Some ((c, msgs), Inr _) \<Rightarrow> Some (set_rx (leave (rx c)) c, msgs, None)))"

section \<open>The end of the peer, and closing\<close>

text \<open>\<open>newChannel\<close> hangs a signal of \<open>rx.notEmpty\<close> on the end of the receiver of \<open>tx\<close>.\<close>

definition Channel_peerExited :: "env \<Rightarrow> Channel \<Rightarrow> procID \<Rightarrow> ipc_error option \<Rightarrow> Channel" where
  "Channel_peerExited v c pid err =
     (case peerExited v (tx c) pid err of
        (t, called) \<Rightarrow>
          let c = set_tx t c in
          if called then c\<lparr>rx := (rx c)\<lparr>notEmpty := fst (Signal (pipe_of v) (notEmpty (rx c)))\<rparr>\<rparr> else c)"

text \<open>The errors of the two segments and locks come from the kernel.\<close>

definition Channel_Close :: "env \<Rightarrow> (ipc_error option \<times> ipc_error option) \<Rightarrow> (ipc_error option \<times> ipc_error option) \<Rightarrow>
    Channel \<Rightarrow> (Channel \<times> ipc_error option) option" where
  "Channel_Close v rerr terr c =
     (case Close v (fst rerr) (snd rerr) (rx c) of
        None \<Rightarrow> None
      | Some (r, err) \<Rightarrow>
          let c = set_rx r c;
              t = (tx c)\<lparr>notEmpty := fst (Signal (pipe_of v) (notEmpty (tx c)))\<rparr>
          in case Close v (fst terr) (snd terr) t of
               None \<Rightarrow> None
             | Some (t, cerr) \<Rightarrow> Some (set_tx t c, first_err err cerr))"

section \<open>Lemmas\<close>

lemma set_tx_simps [simp]:
  "tx (set_tx q c) = q" "ring (rx (set_tx q c)) = ring (rx c)" "honest (rx (set_tx q c)) es = honest (rx c) es"
  "q_closing (rx (set_tx q c)) = q_closing (rx c)" "reader (rx (set_tx q c)) = reader (rx c)"
  "ch_name (set_tx q c) = ch_name c" "ch_owner (set_tx q c) = ch_owner c"
  by (simp_all add: set_tx_def honest_def)

lemma set_rx_simps [simp]:
  "rx (set_rx q c) = q" "ring (tx (set_rx q c)) = ring (tx c)"
  "q_closing (tx (set_rx q c)) = q_closing (tx c)" "sender_at view room ms (tx (set_rx q c)) = sender_at view room ms (tx c)"
  "ch_name (set_rx q c) = ch_name c" "ch_owner (set_rx q c) = ch_owner c"
  by (simp_all add: set_rx_def sender_at_def slots_ok_def)

lemma honest_recvWaiters [simp]: "honest (add_recvWaiters q n) es = honest q es"
proof -
  have "slots_truth (r\<lparr>hdr := (hdr r)\<lparr>recvWaiters := k\<rparr>\<rparr>) pos es = slots_truth r pos es" for r k pos
    by (induction es arbitrary: pos) (simp_all add: end_fits_def Capacity_def)
  then show ?thesis
    by (simp add: honest_def add_recvWaiters_def upd_ring_def ring_inv_def ring_ok_def Capacity_def)
qed

text \<open>Nothing to read: no message is ready in front of the first claim.\<close>

definition no_message :: "entry list \<Rightarrow> bool" where
  "no_message es \<longleftrightarrow> es = [] \<or> \<not> ready_entry (hd es)"

lemma recvOne_honest:
  assumes "honest q es"
  shows "\<exists>q' res es'. recvOne v perr q = Some (q', res) \<and> honest q' es' \<and>
    (case res of Inr m \<Rightarrow> messages es = m # messages es' | Inl e \<Rightarrow> messages es' = messages es \<and> no_message es')"
proof -
  obtain q' t es' where t: "receive_loop v 1 q = Some (q', t)" "honest q' es'"
    "case t of
       Return msgs err \<Rightarrow> messages es = msgs @ messages es' \<and>
         (if msgs = [] then err \<noteq> None \<and> (0 < (1::int) \<longrightarrow> es' = [] \<or> \<not> ready_entry (hd es'))
          else err = None \<and> length msgs \<le> nat 1)
     | Turn \<Rightarrow> False
     | Break \<Rightarrow> messages es' = messages es \<and> (0 < (1::int) \<longrightarrow> es' = [] \<or> \<not> ready_entry (hd es') \<and> may_rest v q')"
    using receive_loop_honest [OF assms, of v 1] by blast
  show ?thesis
  proof (cases t)
    case (Return msgs err)
    show ?thesis
    proof (cases msgs)
      case Nil
      then show ?thesis using t Return
        by (intro exI [of _ q'] exI [of _ "Inl (the err)"] exI [of _ es']) (auto simp: recvOne_def receive_def no_message_def)
    next
      case (Cons m ms)
      then show ?thesis using t Return by (auto simp: recvOne_def receive_def)
    qed
  next
    case Break
    then show ?thesis using t by (auto simp: recvOne_def receive_def no_message_def)
  qed (use t in simp)
qed

lemma recvOne_empty:
  assumes "ring_inv (ring q) []"
  shows "\<exists>q'. recvOne v perr q = Some (q', Inl (case perr of Some g \<Rightarrow> g | None \<Rightarrow> ErrEmpty))"
proof -
  obtain q' where "receive v perr 1 q =
      Some (q', messages (take_ready 1 []),
        if messages (take_ready 1 []) = [] then Some (case perr of Some g \<Rightarrow> g | None \<Rightarrow> ErrEmpty) else None)"
    by (rule receive_quiet [OF assms, of v perr]) (simp_all add: quiet_def)
  then show ?thesis by (simp add: recvOne_def)
qed

lemma chan_recvOne_honest:
  assumes "honest (rx c) es"
  shows "\<exists>c' res es'. chan_recvOne v c = Some (c', res) \<and> honest (rx c') es' \<and>
    (case res of Inr m \<Rightarrow> messages es = m # messages es' | Inl e \<Rightarrow> messages es' = messages es \<and> no_message es')"
proof -
  obtain c1 perr where p: "peerErr v c = (c1, perr)" by force
  then have h: "honest (rx c1) es" using assms by (auto simp: peerErr_def split: prod.splits)
  obtain q' res es' where q: "recvOne v perr (rx c1) = Some (q', res)" "honest q' es'"
    "case res of Inr m \<Rightarrow> messages es = m # messages es' | Inl e \<Rightarrow> messages es' = messages es \<and> no_message es'"
    using recvOne_honest [OF h, of v perr] by blast
  have "chan_recvOne v c = Some (set_rx q' c1, res)" by (simp add: chan_recvOne_def p on_rx_def q(1))
  then show ?thesis using q(2,3) by (intro exI [of _ "set_rx q' c1"] exI [of _ res] exI [of _ es']) simp
qed

text \<open>What a receiver relies on while it waits: others only add messages behind those there are.\<close>

definition receiver_at :: "(u32 \<times> bytes) list \<Rightarrow> Channel \<Rightarrow> bool" where
  "receiver_at ms c \<longleftrightarrow> (\<exists>es. honest (rx c) es \<and> prefix ms (messages es))"

definition fills :: "Channel park_round list \<Rightarrow> bool" where
  "fills ws \<longleftrightarrow> (\<forall>w \<in> set ws. \<forall>ms c. receiver_at ms c \<longrightarrow> receiver_at ms (gap w c) \<and> receiver_at ms (during w c))"

text \<open>What a receive leaves behind: a message it took from the front, or nothing it could take.\<close>

definition received :: "(u32 \<times> bytes) list \<Rightarrow> Channel \<Rightarrow> u32 \<times> bytes \<Rightarrow> bool" where
  "received ms c m \<longleftrightarrow> (\<exists>es. honest (rx c) es \<and> prefix ms (m # messages es))"

definition starved :: "(u32 \<times> bytes) list \<Rightarrow> Channel \<Rightarrow> bool" where
  "starved ms c \<longleftrightarrow> (\<exists>es. honest (rx c) es \<and> prefix ms (messages es) \<and> no_message es)"

lemma receiver_at_simps [simp]:
  "receiver_at ms (chan_waiters c n) = receiver_at ms c" "receiver_at ms (set_rx (leave (rx c)) c) = receiver_at ms c"
  "receiver_at ms (set_rx ((rx c)\<lparr>q_active := a\<rparr>) c) = receiver_at ms c"
  "received ms (chan_waiters c n) m = received ms c m" "received ms (set_rx (leave (rx c)) c) m = received ms c m"
  "starved ms (chan_waiters c n) = starved ms c" "starved ms (set_rx (leave (rx c)) c) = starved ms c"
  by (simp_all add: receiver_at_def chan_waiters_def received_def starved_def)

lemma chan_recvOne_at:
  assumes "receiver_at ms c" "chan_recvOne v c = Some (c', res)"
  shows "case res of Inr m \<Rightarrow> received ms c' m | Inl e \<Rightarrow> receiver_at ms c' \<and> starved ms c'"
proof -
  obtain es where es: "honest (rx c) es" "prefix ms (messages es)" using assms(1) by (auto simp: receiver_at_def)
  obtain es' where "honest (rx c') es'"
    "case res of Inr m \<Rightarrow> messages es = m # messages es' | Inl e \<Rightarrow> messages es' = messages es \<and> no_message es'"
    using chan_recvOne_honest [OF es(1), of v] assms(2) by auto
  then show ?thesis using es(2)
    by (auto simp: received_def receiver_at_def starved_def split: sum.splits)
qed

lemma RecvInto_at:
  assumes "Channel_RecvInto v ws c = Some (c', res)" "receiver_at ms c" "fills ws"
  shows "case res of Inr m \<Rightarrow> received ms c' m
    | Inl e \<Rightarrow> receiver_at ms c' \<and> (errors_is e ErrPeerGone \<longrightarrow> starved ms c')"
proof (cases "q_closing (rx c)")
  case True
  obtain d where "enter (rx c) = ((rx c)\<lparr>q_drained := d\<rparr>, False)" using enter_closed [OF True] by blast
  then show ?thesis using assms(1,2) by (auto simp: Channel_RecvInto_def as_reader_def receiver_at_def honest_def)
next
  case False
  let ?c = "set_rx ((rx c)\<lparr>q_active := q_active (rx c) + 1\<rparr>) c"
  have e: "enter (rx c) = ((rx c)\<lparr>q_active := q_active (rx c) + 1\<rparr>, True)" using enter_open [OF False] .
  show ?thesis
  proof (cases "reader (rx c)")
    case False
    then show ?thesis using assms(1,2) e by (auto simp: Channel_RecvInto_def as_reader_def receiver_at_def)
  next
    case True
    then obtain c1 r1 where p: "park chan_waiters ErrEmpty (chan_recvOne v) ws ?c = Some (c1, r1)"
      "c' = set_rx (leave (rx c1)) c1" "res = r1"
      using assms(1) e by (auto simp: Channel_RecvInto_def as_reader_def)
    have "case r1 of Inr m \<Rightarrow> received ms c1 m | Inl e \<Rightarrow> receiver_at ms c1 \<and> (errors_is e ErrPeerGone \<longrightarrow> starved ms c1)"
      by (rule park_rule [OF p(1), where P = "receiver_at ms"])
        (use assms(2,3) in \<open>auto simp: fills_def dest: chan_recvOne_at\<close>)
    then show ?thesis using p by (auto split: sum.splits)
  qed
qed

text \<open>
  C25: A receive on a channel takes the oldest message, whatever happens to the peer and to the
  ring while it waits. A receive that fails loses nothing, and it reports the peer gone only
  when no message is ready: what the peer sent before it went is read first.
\<close>

theorem Channel_Recv_before_gone:
  assumes "Channel_RecvInto v ws c = Some (c', res)" "honest (rx c) es" "fills ws"
  shows "case res of
      Inr m \<Rightarrow> \<exists>es'. honest (rx c') es' \<and> prefix (messages es) (m # messages es')
    | Inl e \<Rightarrow> \<exists>es'. honest (rx c') es' \<and> prefix (messages es) (messages es') \<and> (errors_is e ErrPeerGone \<longrightarrow> no_message es')"
proof -
  have "receiver_at (messages es) c" using assms(2) by (auto simp: receiver_at_def)
  from RecvInto_at [OF assms(1) this assms(3)] show ?thesis
    by (auto simp: received_def receiver_at_def starved_def split: sum.splits)
qed

definition shared :: "Channel \<Rightarrow> bool" where
  "shared c \<longleftrightarrow> watching (tx c) = watching (rx c)"

lemma shared_set [simp]: "shared (set_tx q c)" "shared (set_rx q c)"
  by (simp_all add: shared_def set_tx_def set_rx_def)

lemma set_rx_tx: "shared c \<Longrightarrow> watching q = watching (rx c) \<Longrightarrow> tx (set_rx q c) = tx c"
  by (simp add: shared_def set_rx_def)

text \<open>On a ring without claims the first attempt decides.\<close>

lemma RecvInto_first:
  assumes "ring_inv (ring (rx c)) es" "quiet es" "\<not> q_closing (rx c)" "reader (rx c)" "shared c"
  shows "\<exists>c'. Channel_TryRecv v c = Some (c', case messages es of m # _ \<Rightarrow> Inr m
      | [] \<Rightarrow> Inl (case snd (checkPeer v (tx c)) of Some g \<Rightarrow> g | None \<Rightarrow> ErrEmpty)) \<and>
    (messages es \<noteq> [] \<longrightarrow> Channel_RecvInto v ws c = Some (c', Inr (hd (messages es)))) \<and>
    ring_inv (ring (rx c')) (drop_ready 1 es) \<and> ring_room (ring (rx c')) = ring_room (ring (rx c)) \<and>
    owners (ring (rx c')) = owners (ring (rx c)) \<and> \<not> q_closing (rx c') \<and> reader (rx c') \<and> shared c' \<and>
    rmask (ring (rx c')) = rmask (ring (rx c))"
proof -
  let ?q = "(rx c)\<lparr>q_active := q_active (rx c) + 1\<rparr>" and ?m = "messages (take_ready 1 es)"
  let ?c = "set_rx ?q c"
  obtain t err where p: "checkPeer v (tx c) = (t, err)" by force
  have tx: "tx ?c = tx c" using assms(5) by (intro set_rx_tx) simp_all
  obtain q' where "receive v err 1 (rx (set_tx t ?c)) =
      Some (q', ?m, if ?m = [] then Some (case err of Some g \<Rightarrow> g | None \<Rightarrow> ErrEmpty) else None)"
    and q': "ring_inv (ring q') (drop_ready 1 es)" "ring_room (ring q') = ring_room (ring (rx (set_tx t ?c)))"
      "owners (ring q') = owners (ring (rx (set_tx t ?c)))" "q_closing q' = q_closing (rx (set_tx t ?c))"
      "reader q' = reader (rx (set_tx t ?c))" "rmask (ring q') = rmask (ring (rx (set_tx t ?c)))"
    by (rule receive_quiet [of "rx (set_tx t ?c)" es v err]) (use assms(1,2) in simp_all)
  moreover have "?m = take 1 (messages es)"
    using quiet_take_ready [OF assms(2)] quiet_take_ready_Nil [OF assms(2)] by (cases "messages es") auto
  ultimately have "chan_recvOne v ?c = Some (set_rx q' (set_tx t ?c), case messages es of m # _ \<Rightarrow> Inr m
      | [] \<Rightarrow> Inl (case err of Some g \<Rightarrow> g | None \<Rightarrow> ErrEmpty))"
    by (cases "messages es") (simp_all add: chan_recvOne_def peerErr_def tx p on_rx_def recvOne_def)
  then show ?thesis using assms(3,4) p q'
    by (cases "messages es")
      (simp_all add: Channel_TryRecv_def Channel_RecvInto_def as_reader_def enter_open park.simps)
qed

theorem Channel_Recv_before_gone_witness:
  "\<exists>c c' es'. snd (checkPeer demo_env (tx c)) = Some ErrPeerGone \<and> Channel_RecvInto demo_env [] c = Some (c', Inr (5, [1, 2, 3])) \<and>
     honest (rx c') es' \<and> prefix [(5, [1, 2, 3])] ((5, [1, 2, 3]) # messages es')"
proof -
  let ?es = "[Committed 5 [1, 2, 3]]"
  obtain r where r: "ring_inv r ?es" using demo_written [of 5] by (auto simp: TypePadding_def)
  let ?rx = "demo_queue\<lparr>ring := r\<rparr>" and ?tx = "upd_ring (\<lambda>r. r\<lparr>hdr := (hdr r)\<lparr>consumer := noProc\<rparr>\<rparr>) demo_queue"
  let ?c = "newChannel ''demo'' ?tx ?rx True"
  have q: "honest ?rx ?es" "ring_inv (ring (rx ?c)) ?es" "quiet ?es" "\<not> q_closing (rx ?c)" "reader (rx ?c)" "shared ?c"
    using r by (simp_all add: honest_def newChannel_def quiet_def shared_def upd_ring_def demo_queue_def)
  obtain c' where c': "Channel_RecvInto demo_env [] ?c = Some (c', Inr (5, [1, 2, 3]))"
    using RecvInto_first [OF q(2-6), of demo_env "[]"] by auto
  have gone: "snd (checkPeer demo_env (tx ?c)) = Some ErrPeerGone"
    by (simp add: checkPeer_def newChannel_def upd_ring_def)
  have "honest (rx ?c) ?es" using q(1) by (simp add: newChannel_def)
  from Channel_Recv_before_gone [OF c' this] obtain es' where
    "honest (rx c') es'" "prefix (messages ?es) ((5, [1, 2, 3]) # messages es')" by (auto simp: fills_def)
  then show ?thesis using gone c' by (intro exI [of _ ?c] exI [of _ c'] exI [of _ es']) simp
qed

end
