(* ===== verification/Deadline.thy ===== *)
theory Deadline
  imports Ipc_Prelude
begin

text \<open>
  The deadline of one direction of a connection, \<^verbatim>\<open>src/deadline.go\<close>. A timer that was stopped
  may already be running, so its function can still come late; the generation number tells
  it apart from the timer of the current deadline.
\<close>

section \<open>Operations\<close>

text \<open>
  \<open>timer\<close> is the generation that the function of the armed timer carries. Every operation
  under way has a context, named by its key; \<open>causes\<close> holds the cause of each context that
  has ended, which is the cause of the first cancel.
\<close>

record deadline =
  timer :: "u64 option"
  gen :: u64
  expired :: bool
  next_op :: u64
  waiting :: "u64 list"
  causes :: "u64 \<Rightarrow> ipc_error option"

definition no_deadline :: deadline where
  "no_deadline = \<lparr>timer = None, gen = 0, expired = False, next_op = 0, waiting = [], causes = (\<lambda>_. None)\<rparr>"

definition cancel_ctx :: "deadline \<Rightarrow> u64 \<Rightarrow> ipc_error \<Rightarrow> deadline" where
  "cancel_ctx d key cause = (if causes d key = None then d\<lparr>causes := (causes d)(key \<mapsto> cause)\<rparr> else d)"

definition expireLocked :: "deadline \<Rightarrow> deadline" where
  "expireLocked d = fold (\<lambda>key d. cancel_ctx d key ErrDeadlineExceeded) (waiting d) (d\<lparr>expired := True\<rparr>)"

text \<open>The time until the deadline is the argument; \<open>None\<close> is the zero time.\<close>

definition deadline_set :: "deadline \<Rightarrow> int option \<Rightarrow> deadline" where
  "deadline_set d at =
     (let d = d\<lparr>gen := add64 (gen d) 1, timer := None, expired := False\<rparr> in
      case at of
        None \<Rightarrow> d
      | Some wait \<Rightarrow> if wait \<le> 0 then expireLocked d else d\<lparr>timer := Some (gen d)\<rparr>)"

definition fire :: "deadline \<Rightarrow> u64 \<Rightarrow> deadline" where
  "fire d g = (if g = gen d then expireLocked d else d)"

text \<open>A context made from a base that has ended has ended too, with the cause of the base.\<close>

definition deadline_begin :: "deadline \<Rightarrow> ipc_error option \<Rightarrow> deadline \<times> u64 result" where
  "deadline_begin d base =
     (if expired d then (d, Inl ErrDeadlineExceeded)
      else
        let key = add64 (next_op d) 1 in
        (d\<lparr>next_op := key, waiting := key # waiting d, causes := (causes d)(key := base)\<rparr>, Inr key))"

definition deadline_done :: "deadline \<Rightarrow> u64 \<Rightarrow> deadline" where
  "deadline_done d key = cancel_ctx (d\<lparr>waiting := filter (\<lambda>k. k \<noteq> key) (waiting d)\<rparr>) key ErrCanceled"

text \<open>The end of the base context reaches every context made from it.\<close>

definition cancel_base :: "deadline \<Rightarrow> ipc_error \<Rightarrow> deadline" where
  "cancel_base d cause = fold (\<lambda>key d. cancel_ctx d key cause) (waiting d) d"

section \<open>What a deadline promises\<close>

datatype deadline_op = Set "int option" | Fire u64 | Begin "ipc_error option" | Done u64 | EndBase ipc_error

fun deadline_step :: "deadline \<Rightarrow> deadline_op \<Rightarrow> deadline" where
  "deadline_step d (Set at) = deadline_set d at"
| "deadline_step d (Fire g) = fire d g"
| "deadline_step d (Begin base) = fst (deadline_begin d base)"
| "deadline_step d (Done key) = deadline_done d key"
| "deadline_step d (EndBase cause) = cancel_base d cause"

text \<open>
  The specification knows only the number of deadlines set so far and the last of them:
  whether there is one, and whether it has passed. The timer of an earlier deadline does
  nothing.
\<close>

datatype moment = Never | Later | Passed

fun spec_step :: "nat \<times> moment \<Rightarrow> deadline_op \<Rightarrow> nat \<times> moment" where
  "spec_step (n, m) (Set at) =
     (n + 1, case at of None \<Rightarrow> Never | Some wait \<Rightarrow> if wait \<le> 0 then Passed else Later)"
| "spec_step (n, m) (Fire g) = (n, if g = n \<and> m = Later then Passed else m)"
| "spec_step (n, m) _ = (n, m)"

text \<open>A timer function runs only for a deadline that armed a timer.\<close>

fun armed_ok :: "u64 set \<Rightarrow> nat \<Rightarrow> deadline_op list \<Rightarrow> bool" where
  "armed_ok armed n [] = True"
| "armed_ok armed n (Set at # xs) =
     armed_ok (case at of Some wait \<Rightarrow> if 0 < wait then insert (n + 1) armed else armed | None \<Rightarrow> armed) (n + 1) xs"
| "armed_ok armed n (Fire g # xs) \<longleftrightarrow> g \<in> armed \<and> armed_ok armed n xs"
| "armed_ok armed n (_ # xs) = armed_ok armed n xs"

definition sets :: "deadline_op list \<Rightarrow> nat" where
  "sets xs = length (filter (\<lambda>x. case x of Set _ \<Rightarrow> True | _ \<Rightarrow> False) xs)"

lemma sets_simps [simp]:
  "sets [] = 0" "sets (Set at # xs) = Suc (sets xs)" "sets (Fire g # xs) = sets xs" "sets (Begin b # xs) = sets xs"
  "sets (Done k # xs) = sets xs" "sets (EndBase e # xs) = sets xs"
  by (simp_all add: sets_def)

lemma cancel_ctx_simps [simp]:
  "timer (cancel_ctx d k e) = timer d" "gen (cancel_ctx d k e) = gen d" "expired (cancel_ctx d k e) = expired d"
  "next_op (cancel_ctx d k e) = next_op d" "waiting (cancel_ctx d k e) = waiting d"
  "causes (cancel_ctx d k e) j = (if j = k \<and> causes d k = None then Some e else causes d j)"
  by (simp_all add: cancel_ctx_def)

lemma fold_cancel [simp]:
  "timer (fold (\<lambda>k d. cancel_ctx d k e) ks d) = timer d" "gen (fold (\<lambda>k d. cancel_ctx d k e) ks d) = gen d"
  "expired (fold (\<lambda>k d. cancel_ctx d k e) ks d) = expired d" "waiting (fold (\<lambda>k d. cancel_ctx d k e) ks d) = waiting d"
  "next_op (fold (\<lambda>k d. cancel_ctx d k e) ks d) = next_op d"
  "causes (fold (\<lambda>k d. cancel_ctx d k e) ks d) j = (if j \<in> set ks \<and> causes d j = None then Some e else causes d j)"
  by (induction ks arbitrary: d) auto

text \<open>
  The relation between the two. With \<open>calm\<close> set no deadline has passed since the start, so
  no context may have ended for that reason.
\<close>

definition deadline_rel :: "bool \<Rightarrow> u64 set \<Rightarrow> nat \<times> moment \<Rightarrow> deadline \<Rightarrow> bool" where
  "deadline_rel calm armed s d \<longleftrightarrow>
     gen d = fst s \<and> (expired d \<longleftrightarrow> snd s = Passed) \<and>
     (\<forall>g \<in> armed. g \<le> fst s) \<and> (fst s \<in> armed \<longrightarrow> snd s \<noteq> Never) \<and>
     (expired d \<longrightarrow> (\<forall>k \<in> set (waiting d). causes d k \<noteq> None)) \<and>
     (calm \<longrightarrow> \<not> expired d \<and> (\<forall>k \<in> set (waiting d). causes d k \<noteq> Some ErrDeadlineExceeded))"

fun calm_run :: "nat \<times> moment \<Rightarrow> deadline_op list \<Rightarrow> bool" where
  "calm_run s [] = True"
| "calm_run s (x # xs) \<longleftrightarrow> snd (spec_step s x) \<noteq> Passed \<and>
     (case x of Begin b \<Rightarrow> b \<noteq> Some ErrDeadlineExceeded | EndBase e \<Rightarrow> e \<noteq> ErrDeadlineExceeded | _ \<Rightarrow> True) \<and> calm_run (spec_step s x) xs"

lemma deadline_run:
  assumes "deadline_rel b armed s d" "b \<longrightarrow> calm_run s xs" "armed_ok armed (fst s) xs" "fst s + sets xs < 2 ^ 64"
  shows "\<exists>armed'. deadline_rel b armed' (foldl spec_step s xs) (foldl deadline_step d xs)"
  using assms
proof (induction xs arbitrary: s d armed)
  case (Cons x xs)
  obtain n m where s: "s = (n, m)" by force
  define armed' where "armed' = (case x of Set (Some w) \<Rightarrow> if 0 < w then insert (n + 1) armed else armed | _ \<Rightarrow> armed)"
  have rel: "deadline_rel b armed' (spec_step s x) (deadline_step d x)"
  proof (cases x)
    case (Set at)
    then show ?thesis using Cons.prems s
      by (auto simp: deadline_rel_def armed'_def deadline_set_def expireLocked_def Let_def split: option.splits)
  next
    case (Fire g)
    then show ?thesis using Cons.prems s
      by (cases m) (auto simp: deadline_rel_def armed'_def fire_def expireLocked_def split: if_splits)
  next
    case (Begin base)
    then show ?thesis using Cons.prems s by (auto simp: deadline_rel_def armed'_def deadline_begin_def Let_def)
  next
    case (Done k)
    then show ?thesis using Cons.prems s by (auto simp: deadline_rel_def armed'_def deadline_done_def)
  next
    case (EndBase e)
    then show ?thesis using Cons.prems s by (auto simp: deadline_rel_def armed'_def cancel_base_def)
  qed
  have "armed_ok armed' (fst (spec_step s x)) xs" "fst (spec_step s x) + sets xs < 2 ^ 64"
    "b \<longrightarrow> calm_run (spec_step s x) xs"
    using Cons.prems(2-4) s by (cases x; auto simp: armed'_def split: option.splits)+
  with Cons.IH [OF rel] show ?case by simp
qed auto

text \<open>
  C26: After any sequence of deadlines, timers that fire in time or late, and operations that
  begin and end, the deadline has expired exactly when the last deadline set has passed. Then
  every operation under way has been cancelled and new ones are refused; and as long as no
  deadline has passed, no operation is cancelled for one.
\<close>

theorem deadline_refines:
  assumes "armed_ok {} 0 xs" "sets xs < 2 ^ 64"
  shows "let d = foldl deadline_step no_deadline xs; passed = (snd (foldl spec_step (0, Never) xs) = Passed) in
    (expired d \<longleftrightarrow> passed) \<and> (snd (deadline_begin d base) = Inl ErrDeadlineExceeded \<longleftrightarrow> passed) \<and>
    (passed \<longrightarrow> (\<forall>k \<in> set (waiting d). causes d k \<noteq> None)) \<and>
    (calm_run (0, Never) xs \<longrightarrow> (\<forall>k \<in> set (waiting d). causes d k \<noteq> Some ErrDeadlineExceeded))"
proof -
  have "deadline_rel b {} (0, Never) no_deadline" for b by (simp add: deadline_rel_def no_deadline_def)
  from deadline_run [OF this, of "calm_run (0, Never) xs" xs] assms show ?thesis
    by (auto simp: deadline_rel_def deadline_begin_def Let_def)
qed

theorem deadline_refines_witness:
  "let xs = [Begin None, Set (Some 5), Set None, Fire 1, Begin None, Set (Some 7), Fire 3];
       d = foldl deadline_step no_deadline xs
   in armed_ok {} 0 xs \<and> expired d \<and> \<not> expired (foldl deadline_step no_deadline (take 5 xs)) \<and> causes d 2 = Some ErrDeadlineExceeded"
  using deadline_refines [of "[Begin None, Set (Some 5), Set None, Fire 1, Begin None, Set (Some 7), Fire 3]"]
    deadline_refines [of "[Begin None, Set (Some 5), Set None, Fire 1, Begin None]"]
  by (simp add: Let_def deadline_set_def fire_def expireLocked_def deadline_begin_def no_deadline_def cancel_ctx_def)

end
