(* ===== verification/Conn.thy ===== *)
theory Conn
  imports Channel Deadline
begin

text \<open>
  The stream connection of \<^verbatim>\<open>src/conn.go\<close> over a channel: \<open>Write\<close> splits its bytes into messages,
  \<open>Read\<close> puts them together again, and a message of its own marks the end of the stream.
\<close>

section \<open>State\<close>

definition typeStreamData :: u32 where "typeStreamData = 0"

definition typeStreamEOF :: u32 where "typeStreamEOF = 1"

text \<open>\<open>base_err\<close> is the error of the base context, and \<open>c_closed\<close> says that \<open>closeOnce\<close> has run.\<close>

record Conn =
  ch :: Channel
  c_addr :: string
  c_pending :: bytes
  c_eof :: bool
  eofSent :: bool
  readDeadline :: deadline
  writeDeadline :: deadline
  base_err :: "ipc_error option"
  c_closed :: bool

definition newConn :: "Channel \<Rightarrow> string \<Rightarrow> Conn" where
  "newConn c name =
     \<lparr>ch = c, c_addr = name, c_pending = [], c_eof = False, eofSent = False,
      readDeadline = no_deadline, writeDeadline = no_deadline, base_err = None, c_closed = False\<rparr>"

definition NewConn :: "Channel \<Rightarrow> Conn" where
  "NewConn c = newConn c (ch_name c)"

definition translate :: "ipc_error option \<Rightarrow> ipc_error option \<Rightarrow> ipc_error option" where
  "translate cause err =
     (if (case cause of Some e \<Rightarrow> errors_is e ErrDeadlineExceeded | None \<Rightarrow> False) then Some ErrDeadlineExceeded
      else case err of
             None \<Rightarrow> None
           | Some e \<Rightarrow> if errors_is e ErrCanceled \<or> errors_is e ErrClosed then Some ErrNetClosed else Some e)"

definition err_of :: "'a result \<Rightarrow> ipc_error option" where
  "err_of res = (case res of Inl e \<Rightarrow> Some e | Inr _ \<Rightarrow> None)"

text \<open>
  One call on the channel: the rounds it waits, and what others do to the deadline until the
  cause of its context is read.
\<close>

record 's conn_turn =
  turn_rounds :: "'s park_round list"
  turn_world :: "deadline \<Rightarrow> deadline"

section \<open>Reading\<close>

text \<open>The body of the loop of \<open>Read\<close>, under the context \<open>key\<close> of the deadline \<open>d\<close>.\<close>

definition read_turn :: "env \<Rightarrow> Channel conn_turn \<Rightarrow> deadline \<Rightarrow> u64 \<Rightarrow> Conn \<Rightarrow> (Conn \<times> ipc_error option) option" where
  "read_turn v t d key c =
     (case Channel_RecvInto v (turn_rounds t) (ch c) of
        None \<Rightarrow> None
      | Some (chan, res) \<Rightarrow>
          let d = turn_world t d;
              err = translate (causes d key) (err_of res);
              c = c\<lparr>ch := chan, readDeadline := deadline_done d key\<rparr>
          in if err \<noteq> None then Some (c, err)
             else let (ty, msg) = (case res of Inr m \<Rightarrow> m | Inl _ \<Rightarrow> (0, [])) in
                  if ty = typeStreamEOF then Some (c\<lparr>c_eof := True\<rparr>, Some ErrEOF)
                  else Some (c\<lparr>c_pending := msg\<rparr>, None))"

text \<open>The loop, which ends when there are bytes to copy. It is \<open>None\<close> when the turns run out.\<close>

fun conn_fill :: "env \<Rightarrow> Channel conn_turn list \<Rightarrow> Conn \<Rightarrow> (Conn \<times> ipc_error option) option" where
  "conn_fill v ts c =
     (if c_pending c \<noteq> [] then Some (c, None)
      else if c_eof c then Some (c, Some ErrEOF)
      else case deadline_begin (readDeadline c) (base_err c) of
             (d, Inl e) \<Rightarrow> Some (c\<lparr>readDeadline := d\<rparr>, Some e)
           | (d, Inr key) \<Rightarrow>
               (case ts of
                  [] \<Rightarrow> None
                | t # ts' \<Rightarrow>
                    (case read_turn v t d key c of
                       None \<Rightarrow> None
                     | Some (c, Some e) \<Rightarrow> Some (c, Some e)
                     | Some (c, None) \<Rightarrow> conn_fill v ts' c)))"

declare conn_fill.simps [simp del]

definition Conn_Read :: "env \<Rightarrow> Channel conn_turn list \<Rightarrow> Conn \<Rightarrow> nat \<Rightarrow> (Conn \<times> bytes result) option" where
  "Conn_Read v ts c n =
     (case conn_fill v ts c of
        None \<Rightarrow> None
      | Some (c, Some e) \<Rightarrow> Some (c, Inl e)
      | Some (c, None) \<Rightarrow> Some (c\<lparr>c_pending := drop n (c_pending c)\<rparr>, Inr (take n (c_pending c))))"

section \<open>Writing\<close>

definition send_turn :: "env \<Rightarrow> Queue conn_turn \<Rightarrow> deadline \<Rightarrow> u64 \<Rightarrow> u32 \<Rightarrow> bytes \<Rightarrow> Conn \<Rightarrow> (Conn \<times> ipc_error option) option" where
  "send_turn v t d key ty x c =
     (case Channel_SendTyped v (turn_rounds t) (ch c) ty x of
        None \<Rightarrow> None
      | Some (chan, res) \<Rightarrow>
          let d = turn_world t d in
          Some (c\<lparr>ch := chan, writeDeadline := deadline_done d key\<rparr>, translate (causes d key) (err_of res)))"

definition chunk_end :: "nat \<Rightarrow> bytes \<Rightarrow> nat \<Rightarrow> nat" where
  "chunk_end limit p written = (if written + limit > length p then length p else written + limit)"

fun write_loop :: "env \<Rightarrow> Queue conn_turn list \<Rightarrow> nat \<Rightarrow> bytes \<Rightarrow> nat \<Rightarrow> Conn \<Rightarrow> (Conn \<times> nat \<times> ipc_error option) option" where
  "write_loop v ts limit p written c =
     (if \<not> written < length p then Some (c, written, None)
      else case deadline_begin (writeDeadline c) (base_err c) of
             (d, Inl e) \<Rightarrow> Some (c\<lparr>writeDeadline := d\<rparr>, written, Some e)
           | (d, Inr key) \<Rightarrow>
               (case ts of
                  [] \<Rightarrow> None
                | t # ts' \<Rightarrow>
                    (case send_turn v t d key typeStreamData (take (chunk_end limit p written - written) (drop written p)) c of
                       None \<Rightarrow> None
                     | Some (c, Some e) \<Rightarrow> Some (c, written, Some e)
                     | Some (c, None) \<Rightarrow> write_loop v ts' limit p (chunk_end limit p written) c)))"

declare write_loop.simps [simp del]

definition Conn_Write :: "env \<Rightarrow> Queue conn_turn list \<Rightarrow> Conn \<Rightarrow> bytes \<Rightarrow> (Conn \<times> nat \<times> ipc_error option) option" where
  "Conn_Write v ts c p =
     (if eofSent c then Some (c, 0, Some ErrNetClosed)
      else write_loop v ts (nat (Channel_MaxMessageSize (ch c))) p 0 c)"

definition CloseWrite :: "env \<Rightarrow> Queue conn_turn \<Rightarrow> Conn \<Rightarrow> (Conn \<times> ipc_error option) option" where
  "CloseWrite v t c =
     (if eofSent c then Some (c, Some ErrNetClosed)
      else case deadline_begin (writeDeadline c) (base_err c) of
             (d, Inl e) \<Rightarrow> Some (c\<lparr>writeDeadline := d\<rparr>, Some e)
           | (d, Inr key) \<Rightarrow>
               (case send_turn v t d key typeStreamEOF [] c of
                  None \<Rightarrow> None
                | Some (c, Some e) \<Rightarrow> Some (c, Some e)
                | Some (c, None) \<Rightarrow> Some (c\<lparr>eofSent := True\<rparr>, None)))"

section \<open>Closing and deadlines\<close>

text \<open>\<open>Close\<close> sends the end of the stream if it has room to, and looks at no error of that.\<close>

definition send_eof :: "env \<Rightarrow> Conn \<Rightarrow> Conn option" where
  "send_eof v c =
     (if eofSent c then Some c
      else map_option (\<lambda>(chan, _). c\<lparr>eofSent := True, ch := chan\<rparr>) (Channel_TrySendTyped v (ch c) typeStreamEOF []))"

definition cancelBase :: "Conn \<Rightarrow> Conn" where
  "cancelBase c =
     c\<lparr>base_err := (case base_err c of None \<Rightarrow> Some ErrCanceled | e \<Rightarrow> e),
       readDeadline := cancel_base (readDeadline c) ErrCanceled, writeDeadline := cancel_base (writeDeadline c) ErrCanceled\<rparr>"

definition Conn_Close :: "env \<Rightarrow> (ipc_error option \<times> ipc_error option) \<Rightarrow> (ipc_error option \<times> ipc_error option) \<Rightarrow>
    Conn \<Rightarrow> (Conn \<times> ipc_error option) option" where
  "Conn_Close v rerr terr c =
     (if c_closed c then Some (c, None)
      else case send_eof v c of
             None \<Rightarrow> None
           | Some c \<Rightarrow>
               let c = cancelBase c in
               case Channel_Close v rerr terr (ch c) of
                 None \<Rightarrow> None
               | Some (chan, err) \<Rightarrow> Some (c\<lparr>ch := chan, c_closed := True\<rparr>, err))"

definition SetReadDeadline :: "Conn \<Rightarrow> int option \<Rightarrow> Conn" where
  "SetReadDeadline c at = c\<lparr>readDeadline := deadline_set (readDeadline c) at\<rparr>"

definition SetWriteDeadline :: "Conn \<Rightarrow> int option \<Rightarrow> Conn" where
  "SetWriteDeadline c at = c\<lparr>writeDeadline := deadline_set (writeDeadline c) at\<rparr>"

definition SetDeadline :: "Conn \<Rightarrow> int option \<Rightarrow> Conn" where
  "SetDeadline c at = c\<lparr>readDeadline := deadline_set (readDeadline c) at, writeDeadline := deadline_set (writeDeadline c) at\<rparr>"

section \<open>The stream of a writer\<close>

lemma take_drop_join: "a \<le> b \<Longrightarrow> b \<le> c \<Longrightarrow> take (b - a) (drop a xs) @ take (c - b) (drop b xs) = take (c - a) (drop a xs)"
proof -
  assume "a \<le> b" "b \<le> c"
  then have "c - a = (b - a) + (c - b)" "b - a + a = b" by simp_all
  then show ?thesis by (metis take_add drop_drop)
qed

definition payloads :: "(u32 \<times> bytes) list \<Rightarrow> bytes" where
  "payloads ms = concat (map snd ms)"

lemma payloads_simps [simp]: "payloads [] = []" "payloads (m # ms) = snd m @ payloads ms" "payloads (ms @ ms') = payloads ms @ payloads ms'"
  by (simp_all add: payloads_def)

lemma begin_cause: "deadline_begin d base = (d', Inr key) \<Longrightarrow> causes d' key = base"
  by (auto simp: deadline_begin_def Let_def split: if_splits)

lemma translate_cases:
  obtains u where "res = Inr u" "translate cause (err_of res) = None"
  | u where "res = Inr u" "translate cause (err_of res) = Some ErrDeadlineExceeded" "cause \<noteq> None"
  | e e' where "res = Inl e" "translate cause (err_of res) = Some e'"
proof (cases "case cause of Some e \<Rightarrow> errors_is e ErrDeadlineExceeded | None \<Rightarrow> False")
  case True
  then have "translate cause (err_of res) = Some ErrDeadlineExceeded" "cause \<noteq> None"
    by (auto simp: translate_def split: option.splits)
  then show thesis using that by (cases res) auto
next
  case False
  show thesis
  proof (cases res)
    case (Inl e)
    show thesis by (cases "translate cause (err_of res)")
      (use False Inl that(3) in \<open>auto simp: translate_def err_of_def split: if_splits\<close>)
  next
    case (Inr u)
    then show thesis using False that(1) by (simp add: translate_def err_of_def)
  qed
qed

text \<open>
  What a write of \<open>p\<close> from \<open>w\<close> on leaves behind: it put the bytes up to \<open>m\<close> in front of the
  peer, in messages that fit, and counts those up to \<open>n\<close>. The two differ only when a
  deadline may pass while it sends, which \<open>late\<close> stands for.
\<close>

definition wrote :: "(entry list \<Rightarrow> (u32 \<times> bytes) list \<Rightarrow> bool) \<Rightarrow> bool \<Rightarrow> nat \<Rightarrow> nat \<Rightarrow> (u32 \<times> bytes) list \<Rightarrow> bytes \<Rightarrow> nat \<Rightarrow> Conn \<times> nat \<times> ipc_error option \<Rightarrow> bool" where
  "wrote view late limit room ms p w out = (case out of (c', n, err) \<Rightarrow>
     \<exists>chunks m. length chunks \<le> room \<and> sender_at view (room - length chunks) (ms @ chunks) (tx (ch c')) \<and> payloads chunks = take (m - w) (drop w p) \<and>
       w \<le> n \<and> n \<le> m \<and> m \<le> length p \<and> (m = n \<or> late \<and> err = Some ErrDeadlineExceeded) \<and> (err = None \<longrightarrow> n = length p) \<and>
       (\<forall>(t, x) \<in> set chunks. t = typeStreamData \<and> x \<noteq> [] \<and> length x \<le> limit))"

context ring_view
begin

lemma send_turn_at:
  assumes "send_turn v t d key ty x c = Some (c', err)" "sender_at view (Suc room) ms (tx (ch c))" "drains view (turn_rounds t)"
  shows "sender_at view room (ms @ [(ty, x)]) (tx (ch c')) \<and> (err = None \<or> err = Some ErrDeadlineExceeded \<and> causes (turn_world t d) key \<noteq> None) \<or>
    sender_at view (Suc room) ms (tx (ch c')) \<and> err \<noteq> None"
proof -
  obtain q res where s: "SendTyped v (turn_rounds t) (tx (ch c)) ty x = Some (q, res)"
    and c': "tx (ch c') = q" "err = translate (causes (turn_world t d) key) (err_of res)"
    using assms(1) by (auto simp: send_turn_def Channel_SendTyped_def on_tx_def Let_def split: option.splits)
  show ?thesis
    by (rule translate_cases [of res "causes (turn_world t d) key", folded c'(2)])
      (use SendTyped_at [OF s assms(2,3)] c'(1) in \<open>auto simp: sent_or_not_def\<close>)
qed

lemma wrote_nothing:
  "sender_at view room ms (tx (ch c')) \<Longrightarrow> w \<le> length p \<Longrightarrow> err \<noteq> None \<or> w = length p \<Longrightarrow> wrote view late limit room ms p w (c', w, err)"
  unfolding wrote_def prod.case by (rule exI [of _ "[]"], rule exI [of _ w]) auto

lemma wrote_chunk:
  assumes "wrote view late limit room (ms @ [(typeStreamData, take (stop - w) (drop w p))]) p stop out" "w < stop" "stop \<le> length p" "stop \<le> w + limit"
  shows "wrote view late limit (Suc room) ms p w out"
proof -
  obtain c' n err where out: "out = (c', n, err)" by (cases out) auto
  obtain chunks m where o: "sender_at view (room - length chunks) ((ms @ [(typeStreamData, take (stop - w) (drop w p))]) @ chunks) (tx (ch c'))"
    "payloads chunks = take (m - stop) (drop stop p)" "stop \<le> n" "n \<le> m" "m \<le> length p"
    "m = n \<or> late \<and> err = Some ErrDeadlineExceeded" "err = None \<longrightarrow> n = length p"
    "\<forall>(t, x) \<in> set chunks. t = typeStreamData \<and> x \<noteq> [] \<and> length x \<le> limit" "length chunks \<le> room"
    using assms(1) unfolding wrote_def out by auto
  let ?x = "take (stop - w) (drop w p)"
  have "w \<le> stop" "stop \<le> m" using assms(2) o(3,4) by linarith+
  note eq = take_drop_join [OF this, of p]
  have "?x \<noteq> [] \<and> length ?x \<le> limit" using assms(2-4) by (auto simp: min_def)
  then have "\<forall>(t, x) \<in> set ((typeStreamData, ?x) # chunks). t = typeStreamData \<and> x \<noteq> [] \<and> length x \<le> limit"
    using o(8) by (simp only: list.set ball_simps prod.case simp_thms)
  moreover have "sender_at view (Suc room - length ((typeStreamData, ?x) # chunks)) (ms @ (typeStreamData, ?x) # chunks) (tx (ch c'))"
    using o(1) by simp
  moreover have "length ((typeStreamData, ?x) # chunks) \<le> Suc room" using o(9) by simp
  moreover have "payloads ((typeStreamData, ?x) # chunks) = take (m - w) (drop w p)" using o(2) eq by simp
  moreover have "w \<le> n" using assms(2) o(3) by simp
  ultimately show ?thesis unfolding wrote_def out prod.case using o(4-7) by blast
qed

text \<open>One turn of the loop: it ends there, or goes on behind one more chunk.\<close>

lemma write_turn:
  assumes "write_loop v (t # ts) limit p w c = Some out" "sender_at view (Suc room) ms (tx (ch c))"
    and "drains view (turn_rounds t)" "w < length p" "0 < limit" "late \<or> turn_world t = id \<and> base_err c = None"
  shows "wrote view late limit (Suc room) ms p w out \<or> (\<exists>stop c1. w < stop \<and> stop \<le> length p \<and> stop \<le> w + limit \<and>
    sender_at view room (ms @ [(typeStreamData, take (stop - w) (drop w p))]) (tx (ch c1)) \<and> base_err c1 = base_err c \<and>
    write_loop v ts limit p stop c1 = Some out)"
proof -
  define stop where "stop = chunk_end limit p w"
  have st: "w < stop" "stop \<le> length p" "stop \<le> w + limit" using assms(4,5) by (auto simp: stop_def chunk_end_def)
  note loop = assms(1) [unfolded write_loop.simps [of _ "t # ts"]]
  obtain d r where d: "deadline_begin (writeDeadline c) (base_err c) = (d, r)" by force
  show ?thesis
  proof (cases r)
    case (Inl e)
    then show ?thesis using loop d assms by (auto simp: Let_def intro!: wrote_nothing)
  next
    case (Inr key)
    let ?x = "take (stop - w) (drop w p)"
    obtain c1 err where s: "send_turn v t d key typeStreamData ?x c = Some (c1, err)"
      using loop assms(4) d Inr by (auto simp: Let_def stop_def [symmetric] split: option.splits)
    have l: "(case err of Some e \<Rightarrow> Some (c1, w, Some e) | None \<Rightarrow> write_loop v ts limit p stop c1) = Some out"
      using loop assms(4) d Inr s by (simp add: Let_def stop_def [symmetric] split: option.splits)
    have b: "base_err c1 = base_err c" using s by (auto simp: send_turn_def Let_def split: option.splits)
    have late: "late" if "causes (turn_world t d) key \<noteq> None"
      using that assms(6) begin_cause d Inr by auto
    from send_turn_at [OF s assms(2,3)] show ?thesis
    proof (elim disjE conjE)
      assume "sender_at view room (ms @ [(typeStreamData, ?x)]) (tx (ch c1))" "err = None"
      then show ?thesis using l st b by auto
    next
      assume "sender_at view room (ms @ [(typeStreamData, ?x)]) (tx (ch c1))" "err = Some ErrDeadlineExceeded" "causes (turn_world t d) key \<noteq> None"
      then have "wrote view late limit (Suc room) ms p w (c1, w, err)" unfolding wrote_def prod.case using st late
        by (intro exI [of _ "[(typeStreamData, ?x)]"] exI [of _ stop]) auto
      then show ?thesis using l \<open>err = Some ErrDeadlineExceeded\<close> by simp
    next
      assume "sender_at view (Suc room) ms (tx (ch c1))" "err \<noteq> None"
      then have "wrote view late limit (Suc room) ms p w (c1, w, err)" using assms(4) by (auto intro!: wrote_nothing)
      then show ?thesis using l \<open>err \<noteq> None\<close> by auto
    qed
  qed
qed

lemma write_loop_at:
  assumes "write_loop v ts limit p w c = Some out" "sender_at view room ms (tx (ch c))" "length ts \<le> room"
    and "\<forall>t \<in> set ts. drains view (turn_rounds t)" "w \<le> length p" "0 < limit"
    and "late \<or> (\<forall>t \<in> set ts. turn_world t = id) \<and> base_err c = None"
  shows "wrote view late limit room ms p w out"
  using assms
proof (induction ts arbitrary: c w ms room)
  case Nil
  then show ?case
    by (subst (asm) write_loop.simps)
      (auto simp: Let_def deadline_begin_def split: if_splits intro!: wrote_nothing)
next
  case (Cons t ts)
  obtain room' where room: "room = Suc room'" using Cons.prems(3) by (cases room) auto
  show ?case
  proof (cases "w < length p")
    case False
    then show ?thesis using Cons.prems by (subst (asm) write_loop.simps) (auto intro!: wrote_nothing)
  next
    case True
    have "sender_at view (Suc room') ms (tx (ch c))" "drains view (turn_rounds t)" "late \<or> turn_world t = id \<and> base_err c = None"
      using Cons.prems(2,4,7) room by auto
    from write_turn [OF Cons.prems(1) this(1,2) True Cons.prems(6) this(3), folded room] show ?thesis
    proof (elim disjE exE conjE, goal_cases)
      case (2 stop c1)
      then have "wrote view late limit room' (ms @ [(typeStreamData, take (stop - w) (drop w p))]) p stop out"
        using Cons.IH [OF 2(6,4)] Cons.prems(3,4,6,7) 2(5) room by auto
      then show ?case unfolding room by (rule wrote_chunk) (use 2 in simp_all)
    qed
  qed
qed

end

section \<open>The stream of a reader\<close>

text \<open>
  \<open>ate ms used c\<close>: from the messages \<open>ms\<close>, and such as came behind them, those in \<open>used\<close> were
  taken in order, and the rest is still there.
\<close>

definition ate :: "(u32 \<times> bytes) list \<Rightarrow> (u32 \<times> bytes) list \<Rightarrow> Channel \<Rightarrow> bool" where
  "ate ms used c \<longleftrightarrow> (\<exists>more ms'. ms @ more = used @ ms' \<and> receiver_at ms' c)"

lemma ate_Nil: "receiver_at ms c \<Longrightarrow> ate ms [] c"
  unfolding ate_def by (rule exI [of _ "[]"]) simp

lemma ate_received: "received ms c m \<Longrightarrow> ate ms [m] c"
proof -
  assume "received ms c m"
  then obtain es where es: "honest (rx c) es" "prefix ms (m # messages es)" by (auto simp: received_def)
  then obtain more where "m # messages es = ms @ more" by (auto simp: prefix_def)
  then show ?thesis using es(1) unfolding ate_def receiver_at_def
    by (intro exI [of _ more] exI [of _ "messages es"]) auto
qed

lemma ate_trans: "ms @ zs = used @ ms' \<Longrightarrow> ate ms' used' c' \<Longrightarrow> ate ms (used @ used') c'"
proof -
  assume 1: "ms @ zs = used @ ms'" and "ate ms' used' c'"
  then obtain more' ms'' where "ms' @ more' = used' @ ms''" "receiver_at ms'' c'" by (auto simp: ate_def)
  then show ?thesis unfolding ate_def using 1
    by (intro exI [of _ "zs @ more'"] exI [of _ ms'']) (metis append.assoc)
qed

lemma read_turn_at:
  assumes "read_turn v t d key c = Some (c', err)" "receiver_at ms (ch c)" "fills (turn_rounds t)"
  shows "(\<exists>used. ate ms used (ch c') \<and> length used \<le> 1 \<and>
     (err = None \<longrightarrow> (\<exists>ty. ty \<noteq> typeStreamEOF \<and> used = [(ty, c_pending c')]) \<and> c_eof c' = c_eof c) \<and>
     (err \<noteq> None \<longrightarrow> c_pending c' = c_pending c \<and>
        (c_eof c' = c_eof c \<and> (used = [] \<or> err = Some ErrDeadlineExceeded) \<or>
         err = Some ErrEOF \<and> c_eof c' \<and> (\<exists>p. used = [(typeStreamEOF, p)]))))"
proof -
  obtain chan res where s: "Channel_RecvInto v (turn_rounds t) (ch c) = Some (chan, res)"
    using assms(1) by (auto simp: read_turn_def split: option.splits)
  note at = RecvInto_at [OF s assms(2,3)]
  define e where "e = translate (causes (turn_world t d) key) (err_of res)"
  show ?thesis
  proof (rule translate_cases [of res "causes (turn_world t d) key", folded e_def])
    fix m assume m: "res = Inr m" "e = None"
    obtain ty x where "m = (ty, x)" by force
    moreover have "ate ms [m] chan" using at m by (simp add: ate_received)
    ultimately show ?thesis using assms(1) s m unfolding e_def
      by (intro exI [of _ "[m]"]) (auto simp: read_turn_def Let_def split: if_splits)
  next
    fix m assume m: "res = Inr m" "e = Some ErrDeadlineExceeded"
    then have "ate ms [m] chan" using at by (simp add: ate_received)
    then show ?thesis using assms(1) s m unfolding e_def
      by (intro exI [of _ "[m]"]) (auto simp: read_turn_def Let_def)
  next
    fix a b assume m: "res = Inl a" "e = Some b"
    then have "ate ms [] chan" "translate (causes (turn_world t d) key) (err_of res) = Some b"
      using at by (simp_all add: ate_Nil e_def)
    then show ?thesis using assms(1) s m
      by (intro exI [of _ "[]"]) (auto simp: read_turn_def Let_def dest: sym)
  qed
qed

text \<open>What the loop of \<open>Read\<close> did when it ended without a deadline.\<close>

definition filled :: "(u32 \<times> bytes) list \<Rightarrow> Conn \<Rightarrow> Conn \<times> ipc_error option \<Rightarrow> bool" where
  "filled ms c out = (case out of (c', err) \<Rightarrow> \<exists>used. ate ms used (ch c') \<and>
     (case err of
        None \<Rightarrow> c_pending c @ payloads used = c_pending c' \<and> c_pending c' \<noteq> [] \<and> (\<forall>m \<in> set used. fst m \<noteq> typeStreamEOF) \<and> c_eof c' = c_eof c
      | Some e \<Rightarrow> e \<noteq> ErrDeadlineExceeded \<longrightarrow>
          c_pending c = [] \<and> c_pending c' = [] \<and> (\<forall>(ty, p) \<in> set used. ty = typeStreamEOF \<or> p = []) \<and>
          (c_eof c' \<longleftrightarrow> c_eof c \<or> (\<exists>m \<in> set used. fst m = typeStreamEOF))))"

lemma filled_at_once:
  assumes "receiver_at ms (ch c')" "c_pending c' = c_pending c" "c_eof c' = c_eof c"
    and "if c_pending c \<noteq> [] then err = None else err \<noteq> None"
  shows "filled ms c (c', err)"
  unfolding filled_def prod.case
  by (rule exI [of _ "[]"]) (use assms ate_Nil [OF assms(1)] in \<open>auto split: option.splits if_splits\<close>)

lemma filled_turn:
  assumes "read_turn v t d key c = Some (c1, err)" "receiver_at ms (ch c)" "fills (turn_rounds t)" "c_pending c = []" "\<not> c_eof c"
    and "\<And>ms'. err = None \<Longrightarrow> receiver_at ms' (ch c1) \<Longrightarrow> filled ms' c1 out" "err \<noteq> None \<Longrightarrow> out = (c1, err)"
  shows "filled ms c out"
proof (cases err)
  case None
  obtain ty where t: "ate ms [(ty, c_pending c1)] (ch c1)" "ty \<noteq> typeStreamEOF" "c_eof c1 = c_eof c"
    using read_turn_at [OF assms(1-3)] None by auto
  then obtain more ms' where ms': "ms @ more = [(ty, c_pending c1)] @ ms'" "receiver_at ms' (ch c1)" by (auto simp: ate_def)
  obtain c' e where out: "out = (c', e)" by force
  obtain used where u: "ate ms' used (ch c')" "case e of
        None \<Rightarrow> c_pending c1 @ payloads used = c_pending c' \<and> c_pending c' \<noteq> [] \<and> (\<forall>m \<in> set used. fst m \<noteq> typeStreamEOF) \<and> c_eof c' = c_eof c1
      | Some e \<Rightarrow> e \<noteq> ErrDeadlineExceeded \<longrightarrow>
          c_pending c1 = [] \<and> c_pending c' = [] \<and> (\<forall>(ty, p) \<in> set used. ty = typeStreamEOF \<or> p = []) \<and>
          (c_eof c' \<longleftrightarrow> c_eof c1 \<or> (\<exists>m \<in> set used. fst m = typeStreamEOF))"
    using assms(6) [OF None ms'(2)] unfolding filled_def out by auto
  show ?thesis unfolding filled_def out prod.case
    by (rule exI [of _ "[(ty, c_pending c1)] @ used"])
      (use ate_trans [OF ms'(1) u(1)] u(2) t assms(4) in \<open>auto split: option.splits\<close>)
next
  case (Some e)
  then obtain used where "ate ms used (ch c1)" "c_pending c1 = c_pending c" "length used \<le> 1"
    "c_eof c1 = c_eof c \<and> (used = [] \<or> e = ErrDeadlineExceeded) \<or> e = ErrEOF \<and> c_eof c1 \<and> (\<exists>p. used = [(typeStreamEOF, p)])"
    using read_turn_at [OF assms(1-3)] by auto
  then show ?thesis using assms(4,5,7) Some unfolding filled_def by (auto intro!: exI [of _ used])
qed

lemma conn_fill_at:
  assumes "conn_fill v ts c = Some out" "receiver_at ms (ch c)" "\<forall>t \<in> set ts. fills (turn_rounds t)"
  shows "filled ms c out"
  using assms
proof (induction ts arbitrary: c ms)
  case Nil
  then show ?case
    by (subst (asm) conn_fill.simps) (auto simp: deadline_begin_def Let_def split: if_splits intro!: filled_at_once)
next
  case (Cons t ts)
  note fill = Cons.prems(1) [unfolded conn_fill.simps [of _ "t # ts"]]
  consider "c_pending c \<noteq> [] \<or> c_eof c" | d e where "c_pending c = []" "\<not> c_eof c" "deadline_begin (readDeadline c) (base_err c) = (d, Inl e)"
    | d key where "c_pending c = []" "\<not> c_eof c" "deadline_begin (readDeadline c) (base_err c) = (d, Inr key)"
    by (cases "deadline_begin (readDeadline c) (base_err c)"; cases "snd (deadline_begin (readDeadline c) (base_err c))") auto
  then show ?case
  proof cases
    case 3
    then obtain c1 err where r: "read_turn v t d key c = Some (c1, err)" using fill by (auto split: option.splits)
    show ?thesis
      by (rule filled_turn [OF r Cons.prems(2) _ 3(1,2)])
        (use Cons fill 3 r in \<open>auto split: option.splits\<close>)
  qed (use fill Cons.prems(2) in \<open>auto split: if_splits intro!: filled_at_once\<close>)
qed

end
