(* ===== verification/Conn_Props.thy ===== *)
theory Conn_Props
  imports Conn
begin

text \<open>
  The properties of the stream connection: what a write leaves behind, the stream from one
  end to the other, and the bytes that a deadline can take with it.
\<close>

section \<open>Writing\<close>

text \<open>
  A write puts a prefix of its bytes in front of the peer, cut into messages that are not
  empty, fit, and are marked as data, behind everything sent before. The count it returns is
  the length of that prefix, and the whole length when it reports no error. A deadline that
  passes as a message is sent is the only case where more bytes are sent than counted.
\<close>

theorem Conn_Write_stream:
  assumes "Conn_Write v ts c p = Some (c', n, err)" "sender_at drained_view room ms (tx (ch c))" "length ts \<le> room"
    and "\<forall>t \<in> set ts. drains drained_view (turn_rounds t)"
  shows "\<exists>chunks m. sender_at drained_view (room - length chunks) (ms @ chunks) (tx (ch c')) \<and> payloads chunks = take m p \<and>
    n \<le> m \<and> m \<le> length p \<and> (m = n \<or> err = Some ErrDeadlineExceeded) \<and> (err = None \<longrightarrow> n = length p) \<and>
    (\<forall>(t, x) \<in> set chunks. t = typeStreamData \<and> x \<noteq> [] \<and> length x \<le> nat (Channel_MaxMessageSize (ch c)))"
proof -
  have "wrote drained_view True (nat (Channel_MaxMessageSize (ch c))) room ms p 0 (c', n, err)"
  proof (cases "eofSent c")
    case True
    then show ?thesis using assms(1,2) by (auto simp: Conn_Write_def intro!: drained.wrote_nothing)
  next
    case False
    then have "write_loop v ts (nat (Channel_MaxMessageSize (ch c))) p 0 c = Some (c', n, err)"
      using assms(1) by (simp add: Conn_Write_def)
    then show ?thesis
      by (rule drained.write_loop_at) (use assms in \<open>simp_all add: sender_at_def Channel_MaxMessageSize_def\<close>)
  qed
  then show ?thesis unfolding wrote_def by auto
qed

section \<open>From one end to the other\<close>

text \<open>
  Two connections whose channels share a ring: what \<open>a\<close> sends, \<open>b\<close> receives. A call is made
  without waiting; one that would wait is not made. \<open>sent\<close> are the bytes the writes have
  counted and \<open>got\<close> those the reads have returned.
\<close>

definition idle_turn :: "'s conn_turn" where
  "idle_turn = \<lparr>turn_rounds = [], turn_world = id\<rparr>"

record link =
  near :: Conn
  far :: Conn
  sent :: bytes
  got :: bytes

definition set_tx_ring :: "Ring \<Rightarrow> Conn \<Rightarrow> Conn" where
  "set_tx_ring r c = c\<lparr>ch := (ch c)\<lparr>tx := (tx (ch c))\<lparr>ring := r\<rparr>\<rparr>\<rparr>"

definition set_rx_ring :: "Ring \<Rightarrow> Conn \<Rightarrow> Conn" where
  "set_rx_ring r c = c\<lparr>ch := (ch c)\<lparr>rx := (rx (ch c))\<lparr>ring := r\<rparr>\<rparr>\<rparr>"

datatype stream_op = WriteOp bytes | ReadOp nat

fun link_step :: "env \<Rightarrow> link \<Rightarrow> stream_op \<Rightarrow> link" where
  "link_step v l (WriteOp p) =
     (case Conn_Write v (replicate (length p) idle_turn) (near l) p of
        Some (a, n, _) \<Rightarrow> l\<lparr>near := a, far := set_rx_ring (ring (tx (ch a))) (far l), sent := sent l @ take n p\<rparr>
      | None \<Rightarrow> l)"
| "link_step v l (ReadOp n) =
     (case Conn_Read v (replicate n idle_turn) (far l) n of
        Some (b, Inr bs) \<Rightarrow> l\<lparr>far := b, near := set_tx_ring (ring (rx (ch b))) (near l), got := got l @ bs\<rparr>
      | Some (b, Inl _) \<Rightarrow> l\<lparr>far := b, near := set_tx_ring (ring (rx (ch b))) (near l)\<rparr>
      | None \<Rightarrow> l)"

text \<open>The reading end over a ring without open claims that holds only data.\<close>

definition reading :: "Conn \<Rightarrow> entry list \<Rightarrow> bool" where
  "reading c es \<longleftrightarrow> ring_inv (ring (rx (ch c))) es \<and> quiet es \<and> (\<forall>m \<in> set (messages es). fst m = typeStreamData) \<and>
     \<not> q_closing (rx (ch c)) \<and> reader (rx (ch c)) \<and> shared (ch c) \<and> base_err c = None \<and> \<not> c_eof c"

definition same_ring :: "Conn \<Rightarrow> Conn \<Rightarrow> bool" where
  "same_ring c c' \<longleftrightarrow> ring_room (ring (rx (ch c'))) = ring_room (ring (rx (ch c))) \<and> owners (ring (rx (ch c'))) = owners (ring (rx (ch c))) \<and>
     rmask (ring (rx (ch c'))) = rmask (ring (rx (ch c)))"

lemma RecvInto_Nil: "Channel_RecvInto v [] c = Some (c', res) \<Longrightarrow> Channel_TryRecv v c = Some (c', res)"
  by (auto simp: Channel_RecvInto_def Channel_TryRecv_def as_reader_def park.simps
      split: prod.splits bool.splits if_splits option.splits sum.splits)

lemma read_turn_exact:
  assumes "read_turn v idle_turn d key c = Some (c', err)" "reading c es" "causes d key = None" "c_pending c = []"
  shows "\<exists>es'. reading c' es' \<and> same_ring c c' \<and> payloads (messages es) = c_pending c' @ payloads (messages es')"
proof -
  obtain chan res where s: "Channel_RecvInto v [] (ch c) = Some (chan, res)"
    using assms(1) by (auto simp: read_turn_def idle_turn_def split: option.splits)
  have r: "ring_inv (ring (rx (ch c))) es" "quiet es" "\<not> q_closing (rx (ch c))" "reader (rx (ch c))" "shared (ch c)"
    using assms(2) by (simp_all add: reading_def)
  have chan: "ring_inv (ring (rx chan)) (drop_ready 1 es)" "ring_room (ring (rx chan)) = ring_room (ring (rx (ch c)))"
    "owners (ring (rx chan)) = owners (ring (rx (ch c)))" "\<not> q_closing (rx chan)" "reader (rx chan)" "shared chan"
    "rmask (ring (rx chan)) = rmask (ring (rx (ch c)))"
    and res: "res = (case messages es of m # _ \<Rightarrow> Inr m | [] \<Rightarrow> Inl (case snd (checkPeer v (tx (ch c))) of Some g \<Rightarrow> g | None \<Rightarrow> ErrEmpty))"
    using RecvInto_first [OF r, of v "[]"] RecvInto_Nil [OF s] by auto
  have msgs: "messages (drop_ready 1 es) = tl (messages es)" "quiet (drop_ready 1 es)"
    using quiet_take_ready [OF r(2)] quiet_take_ready_Nil [OF r(2)] by (cases "messages es"; auto)+
  have "\<forall>m \<in> set (messages (drop_ready 1 es)). fst m = typeStreamData"
    using assms(2) msgs(1) by (cases "messages es") (simp_all add: reading_def)
  then have c': "same_ring c c'" "reading c' (drop_ready 1 es)" if "ch c' = chan" "base_err c' = base_err c" "c_eof c' = c_eof c"
    using that chan msgs assms(2) by (simp_all add: same_ring_def reading_def)
  show ?thesis
  proof (cases "messages es")
    case Nil
    then have "ch c' = chan" "base_err c' = base_err c" "c_eof c' = c_eof c" "c_pending c' = c_pending c"
      using assms(1,3) s res by (auto simp: read_turn_def idle_turn_def translate_def err_of_def Let_def split: if_splits)
    then show ?thesis using c' msgs Nil assms(4) by (intro exI [of _ "drop_ready 1 es"]) simp
  next
    case (Cons m ms)
    obtain ty x where m: "m = (ty, x)" by force
    then have "ty \<noteq> typeStreamEOF" using assms(2) Cons by (auto simp: reading_def typeStreamData_def typeStreamEOF_def)
    then have "ch c' = chan" "base_err c' = base_err c" "c_eof c' = c_eof c" "c_pending c' = x"
      using assms(1,3) s res Cons m by (auto simp: read_turn_def idle_turn_def translate_def err_of_def Let_def)
    then show ?thesis using c' msgs Cons m by (intro exI [of _ "drop_ready 1 es"]) simp
  qed
qed

lemma conn_fill_exact:
  assumes "conn_fill v (replicate k idle_turn) c = Some (c', err)" "reading c es"
  shows "\<exists>es'. reading c' es' \<and> same_ring c c' \<and> c_pending c @ payloads (messages es) = c_pending c' @ payloads (messages es')"
  using assms
proof (induction k arbitrary: c es)
  case (0 c)
  then show ?case
    by (subst (asm) conn_fill.simps) (auto simp: deadline_begin_def reading_def same_ring_def Let_def split: if_splits)
next
  case (Suc k)
  have same: "same_ring c c" by (simp add: same_ring_def)
  note fill = Suc.prems(1) [unfolded conn_fill.simps [of _ "replicate (Suc k) idle_turn"]]
  obtain d r where d: "deadline_begin (readDeadline c) (base_err c) = (d, r)" by force
  show ?case
  proof (cases "c_pending c \<noteq> [] \<or> c_eof c \<or> isl r")
    case True
    then have "reading c' es \<and> same_ring c c' \<and> c_pending c' = c_pending c"
      using fill d Suc.prems(2) same by (cases r) (auto simp: reading_def same_ring_def split: if_splits)
    then show ?thesis by auto
  next
    case False
    then obtain key where r: "r = Inr key" by (cases r) auto
    obtain c1 e where t: "read_turn v idle_turn d key c = Some (c1, e)" using fill d r False by (auto split: option.splits)
    have "causes d key = None" using begin_cause d r Suc.prems(2) by (auto simp: reading_def)
    then obtain es1 where es1: "reading c1 es1" "same_ring c c1" "payloads (messages es) = c_pending c1 @ payloads (messages es1)"
      using read_turn_exact [OF t Suc.prems(2)] False by auto
    show ?thesis
    proof (cases e)
      case None
      then have "conn_fill v (replicate k idle_turn) c1 = Some (c', err)" using fill d r False t by simp
      from Suc.IH [OF this es1(1)] show ?thesis using es1(2,3) False by (auto simp: same_ring_def)
    next
      case (Some x)
      then have "c' = c1" using fill d r False t by simp
      then show ?thesis using es1 False by auto
    qed
  qed
qed

text \<open>
  \<open>linked n l\<close>: the two ends share a ring that can take \<open>n\<close> more messages, and every byte sent
  has been returned, is pending at the reader, or lies in the ring, in this order.
\<close>

definition linked :: "nat \<Rightarrow> link \<Rightarrow> bool" where
  "linked n l \<longleftrightarrow> ring (tx (ch (near l))) = ring (rx (ch (far l))) \<and> base_err (near l) = None \<and>
     slots_ok (tx (ch (near l))) \<and> n \<le> ring_room (ring (tx (ch (near l)))) \<and> 0 < MaxMessageSize (ring (tx (ch (near l)))) \<and>
     \<not> q_closing (tx (ch (near l))) \<and>
     (\<exists>es. reading (far l) es \<and> sent l = got l @ c_pending (far l) @ payloads (messages es))"

fun cost :: "stream_op \<Rightarrow> nat" where
  "cost (WriteOp p) = length p"
| "cost (ReadOp n) = 0"

lemma Conn_Write_base: "Conn_Write v ts c p = Some (c', n, err) \<Longrightarrow> base_err c' = base_err c"
proof -
  have "write_loop v ts limit p w c = Some (c', n, err) \<Longrightarrow> base_err c' = base_err c" for limit w
  proof (induction ts arbitrary: w c)
    case Nil
    then show ?case by (subst (asm) write_loop.simps) (auto split: if_splits prod.splits sum.splits)
  next
    case (Cons t ts)
    show ?case
      by (use Cons.prems in \<open>subst (asm) write_loop.simps\<close>)
        (auto simp: send_turn_def Let_def split: if_splits prod.splits sum.splits option.splits dest!: Cons.IH)
  qed
  then show "Conn_Write v ts c p = Some (c', n, err) \<Longrightarrow> base_err c' = base_err c"
    by (auto simp: Conn_Write_def split: if_splits)
qed

lemma Conn_Write_exact:
  assumes "Conn_Write v (replicate k idle_turn) c p = Some (c', n, err)" "sender_at exact_view room ms (tx (ch c))"
    and "k \<le> room" "base_err c = None"
  shows "\<exists>chunks. sender_at exact_view (room - length p) (ms @ chunks) (tx (ch c')) \<and> payloads chunks = take n p \<and> 
    (\<forall>(t, x) \<in> set chunks. t = typeStreamData) \<and> base_err c' = None"
proof -
  have "wrote exact_view False (nat (Channel_MaxMessageSize (ch c))) room ms p 0 (c', n, err)"
  proof (cases "eofSent c")
    case True
    then show ?thesis using assms(1,2) by (auto simp: Conn_Write_def intro!: exact.wrote_nothing)
  next
    case False
    then have "write_loop v (replicate k idle_turn) (nat (Channel_MaxMessageSize (ch c))) p 0 c = Some (c', n, err)"
      using assms(1) by (simp add: Conn_Write_def)
    then show ?thesis
      by (rule exact.write_loop_at)
        (use assms in \<open>auto simp: idle_turn_def drains_def sender_at_def Channel_MaxMessageSize_def\<close>)
  qed
  then obtain chunks where chunks: "sender_at exact_view (room - length chunks) (ms @ chunks) (tx (ch c'))" "payloads chunks = take n p"
    "n \<le> length p" "\<forall>(t, x) \<in> set chunks. t = typeStreamData \<and> x \<noteq> [] \<and> length x \<le> nat (Channel_MaxMessageSize (ch c))"
    unfolding wrote_def by auto
  have "\<forall>(t, x) \<in> set xs. x \<noteq> [] \<Longrightarrow> length xs \<le> length (payloads xs)" for xs :: "(u32 \<times> bytes) list"
    by (induction xs) (auto simp: neq_Nil_conv)
  then have "length chunks \<le> length p" using chunks(2-4) by fastforce
  then have "sender_at exact_view (room - length p) (ms @ chunks) (tx (ch c'))" using chunks(1) by (auto simp: sender_at_def)
  then show ?thesis using chunks(2,4) Conn_Write_base [OF assms(1)] assms(4) by fastforce
qed

lemma link_write:
  assumes "linked (n + length p) l"
  shows "linked n (link_step v l (WriteOp p))"
proof -
  obtain es where es: "reading (far l) es" "sent l = got l @ c_pending (far l) @ payloads (messages es)" using assms by (auto simp: linked_def)
  have "sender_at exact_view (n + length p) (messages es) (tx (ch (near l)))"
    using assms es(1) by (auto simp: linked_def sender_at_def exact_view_def reading_def)
  note W = Conn_Write_exact [OF _ this]
  show ?thesis
  proof (cases "Conn_Write v (replicate (length p) idle_turn) (near l) p")
    case None
    then show ?thesis using assms by (auto simp: linked_def)
  next
    case (Some out)
    obtain a k err where a: "out = (a, k, err)" by (cases out) auto
    obtain chunks where c: "sender_at exact_view n (messages es @ chunks) (tx (ch a))" "payloads chunks = take k p"
      "\<forall>(t, x) \<in> set chunks. t = typeStreamData" "base_err a = None"
      using W [of v "length p"] Some a assms by (fastforce simp: linked_def)
    then obtain es' where e: "ring_inv (ring (tx (ch a))) es'" "quiet es'" "messages es' = messages es @ chunks"
      by (auto simp: sender_at_def exact_view_def)
    have "reading (set_rx_ring (ring (tx (ch a))) (far l)) es'"
      using e es(1) c(3) by (auto simp: reading_def set_rx_ring_def shared_def)
    then show ?thesis using Some a c e es(2)
      by (auto simp: linked_def sender_at_def set_rx_ring_def intro!: exI [of _ es'])
  qed
qed

lemma link_read:
  assumes "linked n l"
  shows "linked n (link_step v l (ReadOp k))"
proof -
  obtain es where es: "reading (far l) es" "sent l = got l @ c_pending (far l) @ payloads (messages es)" using assms by (auto simp: linked_def)
  show ?thesis
  proof (cases "conn_fill v (replicate k idle_turn) (far l)")
    case None
    then show ?thesis using assms by (simp add: Conn_Read_def)
  next
    case (Some out)
    then obtain b err where f: "conn_fill v (replicate k idle_turn) (far l) = Some (b, err)" by (cases out) auto
    obtain es' where b: "reading b es'" "same_ring (far l) b" "c_pending (far l) @ payloads (messages es) = c_pending b @ payloads (messages es')"
      using conn_fill_exact [OF f es(1)] by blast
    let ?t = "(tx (ch (near l)))\<lparr>ring := ring (rx (ch b))\<rparr>"
    have "slots_ok ?t" "n \<le> ring_room (ring ?t)" "0 < MaxMessageSize (ring ?t)"
      using assms b(2) slots_ok_cong [of ?t "tx (ch (near l))"]
      by (auto simp: linked_def same_ring_def MaxMessageSize_def Capacity_def)
    moreover have "reading (b\<lparr>c_pending := x\<rparr>) es'" for x using b(1) by (simp add: reading_def)
    moreover have "c_pending (far l) @ payloads (messages es) = take k (c_pending b) @ drop k (c_pending b) @ payloads (messages es')"
      unfolding b(3) by (metis append.assoc append_take_drop_id)
    moreover have "base_err (near l) = None" "\<not> q_closing (tx (ch (near l)))" using assms by (simp_all add: linked_def)
    ultimately show ?thesis using f b(1,3) es(2)
      by (cases err) (auto simp: Conn_Read_def linked_def set_tx_ring_def intro!: exI [of _ es'])
  qed
qed

text \<open>
  C27: From one end to the other, through any sequence of writes and reads, every byte that a
  write counted has been returned by a read, waits in the reader or lies in the ring, in the
  order it was written. So what was read is always a prefix of what was written.
\<close>

theorem stream_roundtrip:
  assumes "linked (sum_list (map cost xs)) l"
  shows "let l' = foldl (link_step v) l xs in linked 0 l' \<and> prefix (got l') (sent l')"
proof -
  have "linked 0 (foldl (link_step v) l xs)"
    using assms
  proof (induction xs arbitrary: l)
    case (Cons x xs)
    show ?case
      by (cases x) (use Cons link_write link_read in \<open>simp_all add: add.commute\<close>)
  qed simp
  then show ?thesis by (auto simp: linked_def)
qed

definition demo_conn :: Conn where
  "demo_conn = newConn (newChannel ''demo'' demo_queue demo_queue True) ''demo''"

theorem stream_roundtrip_witness:
  "let l = \<lparr>near = demo_conn, far = demo_conn, sent = [], got = []\<rparr>;
       l' = foldl (link_step demo_env) l [WriteOp [1, 2, 3], ReadOp 2, WriteOp [4], ReadOp 9]
   in linked 4 l \<and> prefix (got l') (sent l')"
proof -
  let ?l = "\<lparr>near = demo_conn, far = demo_conn, sent = [], got = []\<rparr>"
  have "reading demo_conn []"
    using demo_queue_ok by (simp add: reading_def demo_conn_def newConn_def newChannel_def quiet_def shared_def) (simp add: demo_queue_def)
  moreover have "4 \<le> ring_room (ring demo_queue)" "0 < MaxMessageSize (ring demo_queue)"
    by (simp_all add: demo_queue_def) (simp add: ring_room_def)
  ultimately have "linked 4 ?l"
    using demo_queue_ok unfolding linked_def
    by (auto simp: demo_conn_def newConn_def newChannel_def intro!: exI [of _ "[]"])
  moreover have "sum_list (map cost [WriteOp [1, 2, 3], ReadOp 2, WriteOp [4], ReadOp 9]) = 4" by simp
  ultimately show ?thesis
    using stream_roundtrip [of "[WriteOp [1, 2, 3], ReadOp 2, WriteOp [4], ReadOp 9]" ?l demo_env] unfolding Let_def by metis
qed

theorem Conn_Write_stream_witness:
  "\<exists>c' chunks. Conn_Write demo_env [idle_turn] demo_conn [1, 2, 3] = Some (c', 3, None) \<and>
     sender_at drained_view (5 - length chunks) chunks (tx (ch c')) \<and> payloads chunks = [1, 2, 3]"
proof -
  obtain q' where q: "SendTyped demo_env [] demo_queue typeStreamData [1, 2, 3] = Some (q', Inr ())"
    using demo_SendTyped [of typeStreamData] by (auto simp: typeStreamData_def TypePadding_def)
  have lim: "Channel_MaxMessageSize (ch demo_conn) = 2040"
    by (simp add: demo_conn_def newConn_def newChannel_def Channel_MaxMessageSize_def demo_queue_def)
  have fin: "write_loop demo_env [] 2040 [1, 2, 3] (Suc (Suc (Suc 0))) c = Some (c, 3, None)" for c by (simp add: write_loop.simps)
  have "\<exists>c'. write_loop demo_env [idle_turn] 2040 [1, 2, 3] 0 demo_conn = Some (c', 3, None)"
    by (subst write_loop.simps) (use q in \<open>simp add: fin chunk_end_def send_turn_def Channel_SendTyped_def on_tx_def Let_def translate_def
        err_of_def idle_turn_def demo_conn_def newConn_def newChannel_def deadline_begin_def no_deadline_def\<close>)
  then obtain c' where c': "Conn_Write demo_env [idle_turn] demo_conn [1, 2, 3] = Some (c', 3, None)"
    unfolding Conn_Write_def lim by (auto simp: demo_conn_def newConn_def)
  have "sender_at drained_view 5 [] (tx (ch demo_conn))"
    using demo_queue_sender by (simp add: demo_conn_def newConn_def newChannel_def sender_at_def) (simp add: ring_room_def demo_queue_def)
  from Conn_Write_stream [OF c' this] c' show ?thesis by (auto simp: idle_turn_def drains_def)
qed

text \<open>A connection whose ring holds one message.\<close>

lemma demo_reading:
  obtains c c1 where "reading c [Committed typeStreamData [1, 2, 3]]" "c = newConn (ch c) ''demo''"
    "Channel_RecvInto demo_env [] (ch c) = Some (c1, Inr (typeStreamData, [1, 2, 3]))"
    "ring_inv (ring (rx c1)) []" "\<not> q_closing (rx c1)" "reader (rx c1)" "shared c1"
proof -
  let ?es = "[Committed typeStreamData [1, 2, 3]]"
  obtain r where r: "ring_inv r ?es" using demo_written [of typeStreamData] by (auto simp: TypePadding_def typeStreamData_def)
  let ?chan = "newChannel ''demo'' demo_queue (demo_queue\<lparr>ring := r\<rparr>) True"
  have q: "ring_inv (ring (rx ?chan)) ?es" "quiet ?es" "\<not> q_closing (rx ?chan)" "reader (rx ?chan)" "shared ?chan"
    using r by (simp_all add: newChannel_def quiet_def shared_def) (simp_all add: demo_queue_def)
  obtain c1 where c1: "Channel_RecvInto demo_env [] ?chan = Some (c1, Inr (typeStreamData, [1, 2, 3]))"
    "ring_inv (ring (rx c1)) (drop_ready 1 ?es)" "\<not> q_closing (rx c1)" "reader (rx c1)" "shared c1"
    using RecvInto_first [OF q, of demo_env "[]"] by auto
  have es': "drop_ready 1 ?es = []" by (simp add: drop_ready_def)
  have "reading (newConn ?chan ''demo'') ?es" using q by (simp add: reading_def newConn_def)
  then show thesis using c1 unfolding es' by (intro that [of "newConn ?chan ''demo''" c1]) (simp_all add: newConn_def)
qed

section \<open>Reading\<close>

text \<open>
  A read hands out the bytes of the stream in order, with none left out: what was pending,
  followed by the messages it took from the channel, is what it returns followed by what is
  pending now. It returns at least one byte when it may. A read that fails, unless a deadline
  ended it, has taken no byte, and the end of the stream shows only after the message that
  marks it.
\<close>

theorem Conn_Read_stream:
  assumes "Conn_Read v ts c n = Some (c', res)" "receiver_at ms (ch c)" "\<forall>t \<in> set ts. fills (turn_rounds t)"
  shows "\<exists>used. ate ms used (ch c') \<and>
    (case res of
       Inr bs \<Rightarrow> c_pending c @ payloads used = bs @ c_pending c' \<and> length bs \<le> n \<and> (0 < n \<longrightarrow> bs \<noteq> []) \<and>
         (\<forall>m \<in> set used. fst m \<noteq> typeStreamEOF)
     | Inl e \<Rightarrow> e \<noteq> ErrDeadlineExceeded \<longrightarrow> c_pending c = [] \<and> c_pending c' = [] \<and>
         (\<forall>(ty, p) \<in> set used. ty = typeStreamEOF \<or> p = []) \<and> (c_eof c' \<longleftrightarrow> c_eof c \<or> (\<exists>m \<in> set used. fst m = typeStreamEOF)))"
proof -
  obtain c1 err where f: "conn_fill v ts c = Some (c1, err)" using assms(1) by (auto simp: Conn_Read_def split: option.splits)
  have "filled ms c (c1, err)" by (rule conn_fill_at [OF f assms(2,3)])
  then obtain used where "ate ms used (ch c1)" and u: "case err of
        None \<Rightarrow> c_pending c @ payloads used = c_pending c1 \<and> c_pending c1 \<noteq> [] \<and> (\<forall>m \<in> set used. fst m \<noteq> typeStreamEOF) \<and> c_eof c1 = c_eof c
      | Some e \<Rightarrow> e \<noteq> ErrDeadlineExceeded \<longrightarrow>
          c_pending c = [] \<and> c_pending c1 = [] \<and> (\<forall>(ty, p) \<in> set used. ty = typeStreamEOF \<or> p = []) \<and>
          (c_eof c1 \<longleftrightarrow> c_eof c \<or> (\<exists>m \<in> set used. fst m = typeStreamEOF))"
    unfolding filled_def by auto
  then show ?thesis using assms(1) f
    by (intro exI [of _ used]) (cases err; force simp: Conn_Read_def)
qed

theorem Conn_Read_stream_witness:
  "\<exists>c c' used. Conn_Read demo_env [idle_turn] c 2 = Some (c', Inr [1, 2]) \<and> c_pending c' = [3] \<and>
     ate [(typeStreamData, [1, 2, 3])] used (ch c') \<and> payloads used = [1, 2, 3]"
proof -
  obtain c c1 where c: "reading c [Committed typeStreamData [1, 2, 3]]" "c = newConn (ch c) ''demo''"
    "Channel_RecvInto demo_env [] (ch c) = Some (c1, Inr (typeStreamData, [1, 2, 3]))" by (rule demo_reading)
  have "honest (rx (ch c)) [Committed typeStreamData [1, 2, 3]]" using c(1) by (simp add: honest_def reading_def)
  then have at: "receiver_at [(typeStreamData, [1, 2, 3])] (ch c)" unfolding receiver_at_def by force
  have pend: "c_pending c = []" "\<not> c_eof c" "base_err c = None" "readDeadline c = no_deadline"
    by (subst c(2), simp add: newConn_def)+
  obtain c' where c': "Conn_Read demo_env [idle_turn] c 2 = Some (c', Inr [1, 2])" "c_pending c' = [3]"
    using c(3) pend by (simp add: Conn_Read_def conn_fill.simps read_turn_def idle_turn_def deadline_begin_def no_deadline_def
        translate_def err_of_def typeStreamData_def typeStreamEOF_def Let_def)
  from Conn_Read_stream [OF c'(1) at] pend(1) c' show ?thesis by (auto simp: idle_turn_def fills_def)
qed

section \<open>A deadline that passes during a read\<close>

text \<open>
  C28: The check of the deadline comes after the receive. When the deadline passes in between,
  the read reports it and drops the message it has already taken from the ring: the bytes are
  neither returned, nor pending, nor in the ring.
\<close>

theorem deadline_loses_bytes:
  "\<exists>c t c' es es'. reading c es \<and> messages es = [(typeStreamData, [1, 2, 3])] \<and> c_pending c = [] \<and>
     Conn_Read demo_env [t] c 10 = Some (c', Inl ErrDeadlineExceeded) \<and>
     reading c' es' \<and> messages es' = [] \<and> c_pending c' = []"
proof -
  obtain c0 c1 where c0: "reading c0 [Committed typeStreamData [1, 2, 3]]" "c0 = newConn (ch c0) ''demo''"
    and c1: "Channel_RecvInto demo_env [] (ch c0) = Some (c1, Inr (typeStreamData, [1, 2, 3]))"
      "ring_inv (ring (rx c1)) []" "\<not> q_closing (rx c1)" "reader (rx c1)" "shared c1" by (rule demo_reading)
  let ?c = "SetReadDeadline c0 (Some 5)" and ?t = "\<lparr>turn_rounds = [], turn_world = (\<lambda>d. fire d 1)\<rparr> :: Channel conn_turn"
  have pend: "c_pending c0 = []" "\<not> c_eof c0" "base_err c0 = None" "readDeadline c0 = no_deadline"
    by (subst c0(2), simp add: newConn_def)+
  obtain c' where c': "Conn_Read demo_env [?t] ?c 10 = Some (c', Inl ErrDeadlineExceeded)" "ch c' = c1" "c_pending c' = []" "base_err c' = None" "\<not> c_eof c'"
    using c1(1) pend by (simp add: Conn_Read_def conn_fill.simps read_turn_def SetReadDeadline_def deadline_set_def
        no_deadline_def deadline_begin_def fire_def expireLocked_def translate_def Let_def)
  have "reading ?c [Committed typeStreamData [1, 2, 3]]" using c0(1) by (simp add: reading_def SetReadDeadline_def)
  moreover have "reading c' []" using c' c1 by (simp add: reading_def quiet_def)
  ultimately show ?thesis using c' pend(1)
    by (intro exI [of _ ?c] exI [of _ ?t] exI [of _ c'] exI [of _ "[Committed typeStreamData [1, 2, 3]]"] exI [of _ "[]"])
      (simp add: SetReadDeadline_def)
qed

end
