(* ===== verification/Go_Text.thy ===== *)
theory Go_Text
  imports Ipc_Prelude "HOL-Library.Char_ord"
begin

text \<open>
  The text routines of Go's standard library that the schema compiler, the codec and the
  service use: decimal printing (\<open>%d\<close>), \<open>strconv.ParseUint\<close> and \<open>strconv.ParseInt\<close> at a
  width, \<open>encoding/hex\<close>, and the UTF-8 decoder of \<open>unicode/utf8\<close>. A Go string is a list of
  bytes, here an Isabelle \<open>string\<close>.
\<close>

section \<open>Numbers as text\<close>

definition digit :: "nat \<Rightarrow> char" where
  "digit d = char_of (48 + d)"

fun dec :: "nat \<Rightarrow> string" where
  "dec n = (if n < 10 then [digit n] else dec (n div 10) @ [digit (n mod 10)])"

declare dec.simps [simp del]

text \<open>The value of a digit in a base up to 16, as \<open>ParseUint\<close> reads it.\<close>

definition digit_val :: "nat \<Rightarrow> char \<Rightarrow> nat option" where
  "digit_val base c = (let n = of_char c :: nat;
     d = (if 48 \<le> n \<and> n \<le> 57 then Some (n - 48)
          else if 97 \<le> n \<and> n \<le> 122 then Some (n - 97 + 10)
          else if 65 \<le> n \<and> n \<le> 90 then Some (n - 65 + 10)
          else None)
     in case d of None \<Rightarrow> None | Some v \<Rightarrow> if v < base then Some v else None)"

fun digits_val :: "nat \<Rightarrow> nat \<Rightarrow> string \<Rightarrow> nat option" where
  "digits_val base acc [] = Some acc"
| "digits_val base acc (c # cs) =
    (case digit_val base c of None \<Rightarrow> None | Some d \<Rightarrow> digits_val base (acc * base + d) cs)"

definition fits_bits :: "nat \<Rightarrow> nat \<Rightarrow> bool" where
  "fits_bits n bits \<longleftrightarrow> n < 2 ^ bits"

lemma fits_bits_code [code]: "fits_bits n bits \<longleftrightarrow> int n < 2 ^ bits"
  by (simp add: fits_bits_def)

definition ParseUint :: "string \<Rightarrow> nat \<Rightarrow> nat \<Rightarrow> nat option" where
  "ParseUint s base bits = (if s = [] then None else
     case digits_val base 0 s of
       None \<Rightarrow> None
     | Some n \<Rightarrow> if fits_bits n bits then Some n else None)"

definition ParseInt :: "string \<Rightarrow> nat \<Rightarrow> nat \<Rightarrow> int option" where
  "ParseInt s base bits =
    (let neg = (s \<noteq> [] \<and> hd s = CHR ''-''); signed = (s \<noteq> [] \<and> (neg \<or> hd s = CHR ''+''));
         body = (if signed then tl s else s)
     in if body = [] then None else
        case digits_val base 0 body of
          None \<Rightarrow> None
        | Some n \<Rightarrow>
            if neg then (if fits_bits n (bits - 1) \<or> int n = 2 ^ (bits - 1) then Some (- int n) else None)
            else (if fits_bits n (bits - 1) then Some (int n) else None))"

lemma of_char_digit: "d < 10 \<Longrightarrow> of_char (digit d) = 48 + d"
  by (simp add: digit_def)

lemma digit_val_digit: "d < 10 \<Longrightarrow> digit_val 10 (digit d) = Some d"
  by (simp add: digit_val_def of_char_digit)

lemma digits_val_append:
  "digits_val base acc (xs @ ys) =
    (case digits_val base acc xs of None \<Rightarrow> None | Some a \<Rightarrow> digits_val base a ys)"
  by (induction xs arbitrary: acc) (auto split: option.splits)

lemma dec_not_Nil [simp]: "dec n \<noteq> []"
  by (subst dec.simps) simp

lemma digits_val_dec: "digits_val 10 0 (dec n) = Some n"
proof (induction n rule: dec.induct)
  case (1 n)
  show ?case
  proof (cases "n < 10")
    case True
    then show ?thesis by (simp add: dec.simps [of n] digit_val_digit)
  next
    case False
    then show ?thesis using 1
      by (simp add: dec.simps [of n] digits_val_append digit_val_digit)
  qed
qed

lemma ParseUint_dec: "n < 2 ^ bits \<Longrightarrow> ParseUint (dec n) 10 bits = Some n"
  by (simp add: ParseUint_def digits_val_dec fits_bits_def)

lemma ParseUint_less: "ParseUint s base bits = Some n \<Longrightarrow> n < 2 ^ bits"
  by (auto simp: ParseUint_def fits_bits_def split: option.splits if_splits)

lemma set_dec: "c \<in> set (dec n) \<Longrightarrow> \<exists>d < 10. c = digit d"
proof (induction n rule: dec.induct)
  case (1 n)
  have "\<exists>d < 10. digit (n mod 10) = digit d" by (intro exI [of _ "n mod 10"]) simp
  with 1 show ?case by (subst (asm) (2) dec.simps) (auto split: if_splits)
qed

lemma dec_inject [simp]: "dec a = dec b \<longleftrightarrow> a = b"
  by (metis digits_val_dec option.inject)

section \<open>Hex strings\<close>

definition hex_digit :: "nat \<Rightarrow> char" where
  "hex_digit d = (if d < 10 then char_of (48 + d) else char_of (87 + d))"

fun hex_encode :: "bytes \<Rightarrow> string" where
  "hex_encode [] = []"
| "hex_encode (b # bs) = hex_digit (unat b div 16) # hex_digit (unat b mod 16) # hex_encode bs"

fun hex_decode :: "string \<Rightarrow> bytes option" where
  "hex_decode [] = Some []"
| "hex_decode [c] = None"
| "hex_decode (c # d # cs) =
    (case (digit_val 16 c, digit_val 16 d, hex_decode cs) of
       (Some h, Some l, Some bs) \<Rightarrow> Some (word_of_nat (16 * h + l) # bs)
     | _ \<Rightarrow> None)"

lemma digit_val_hex: "d < 16 \<Longrightarrow> digit_val 16 (hex_digit d) = Some d"
  by (auto simp: digit_val_def hex_digit_def)

lemma unat_byte_less [simp]: "unat (b :: byte) < 256"
  using unsigned_less [of b, where ?'a = nat] by simp

lemma hex_decode_encode: "hex_decode (hex_encode bs) = Some bs"
proof (induction bs)
  case (Cons b bs)
  have "unat b div 16 < 16" using unat_byte_less [of b] by (simp add: less_mult_imp_div_less)
  moreover have "16 * (unat b div 16) + unat b mod 16 = unat b" by simp
  ultimately show ?case using Cons by (simp add: digit_val_hex)
qed simp

section \<open>UTF-8\<close>

text \<open>
  \<open>utf8.DecodeRune\<close>: the first rune of a byte sequence and its width. A malformed
  sequence gives \<open>RuneError\<close> with width 1, an empty one \<open>RuneError\<close> with width 0.
\<close>

definition RuneError :: nat where
  "RuneError = 0xFFFD"

definition utf8_first :: "nat \<Rightarrow> (nat \<times> nat \<times> nat) option" where
  "utf8_first b =
    (if 0xC2 \<le> b \<and> b \<le> 0xDF then Some (2, 0x80, 0xBF)
     else if b = 0xE0 then Some (3, 0xA0, 0xBF)
     else if b = 0xED then Some (3, 0x80, 0x9F)
     else if 0xE1 \<le> b \<and> b \<le> 0xEF then Some (3, 0x80, 0xBF)
     else if b = 0xF0 then Some (4, 0x90, 0xBF)
     else if 0xF1 \<le> b \<and> b \<le> 0xF3 then Some (4, 0x80, 0xBF)
     else if b = 0xF4 then Some (4, 0x80, 0x8F)
     else None)"

definition utf8_cont :: "nat \<Rightarrow> bool" where
  "utf8_cont b \<longleftrightarrow> 0x80 \<le> b \<and> b \<le> 0xBF"

definition DecodeRune :: "nat list \<Rightarrow> nat \<times> nat" where
  "DecodeRune p = (case p of [] \<Rightarrow> (RuneError, 0) | b0 # p1 \<Rightarrow>
     if b0 < 0x80 then (b0, 1) else
     case utf8_first b0 of None \<Rightarrow> (RuneError, 1) | Some (sz, lo, hi) \<Rightarrow>
     case p1 of [] \<Rightarrow> (RuneError, 1) | b1 # p2 \<Rightarrow>
     if b1 < lo \<or> hi < b1 then (RuneError, 1)
     else if sz = 2 then (b0 mod 32 * 64 + b1 mod 64, 2) else
     case p2 of [] \<Rightarrow> (RuneError, 1) | b2 # p3 \<Rightarrow>
     if \<not> utf8_cont b2 then (RuneError, 1)
     else if sz = 3 then (b0 mod 16 * 4096 + b1 mod 64 * 64 + b2 mod 64, 3) else
     case p3 of [] \<Rightarrow> (RuneError, 1) | b3 # _ \<Rightarrow>
     if \<not> utf8_cont b3 then (RuneError, 1)
     else (b0 mod 8 * 262144 + b1 mod 64 * 4096 + b2 mod 64 * 64 + b3 mod 64, 4))"

function utf8_Valid :: "nat list \<Rightarrow> bool" where
  "utf8_Valid p \<longleftrightarrow> (case p of [] \<Rightarrow> True | b # p1 \<Rightarrow>
     if b < 0x80 then utf8_Valid p1
     else (case DecodeRune p of (r, w) \<Rightarrow>
       if w \<le> 1 then False else utf8_Valid (drop (w - 1) p1)))"
  by pat_completeness auto
termination
  by (relation "measure length") auto

declare utf8_Valid.simps [simp del]

lemma DecodeRune_ascii [simp]: "b < 0x80 \<Longrightarrow> DecodeRune (b # p) = (b, 1)"
  by (simp add: DecodeRune_def)

text \<open>No rune but the newline itself covers a newline.\<close>

lemma DecodeRune_width:
  assumes "DecodeRune (b # p) = (r, w)"
  shows "0 < w" and "w \<le> Suc (length p)"
  using assms
  by (simp_all add: DecodeRune_def split: if_splits option.splits prod.splits list.splits)

lemma utf8_first_lo: "utf8_first b = Some (n, lo, hi) \<Longrightarrow> 0x80 \<le> lo"
  by (auto simp: utf8_first_def split: if_splits)

lemma DecodeRune_covers:
  assumes "DecodeRune (b # p) = (r, w)" and "x \<in> set (take (w - 1) p)"
  shows "0x80 \<le> x"
  using assms utf8_first_lo [of b]
  by (fastforce simp: DecodeRune_def utf8_cont_def split: if_splits option.splits prod.splits list.splits)

lemma utf8_Valid_ascii: "\<forall>b \<in> set p. b < 0x80 \<Longrightarrow> utf8_Valid p"
proof (induction p)
  case (Cons b p)
  then show ?case by (subst utf8_Valid.simps) simp
qed (simp add: utf8_Valid.simps)

end
