(* ===== verification/Kernel_Files.thy ===== *)
theory Kernel_Files
  imports Ring Go_Text
begin

text \<open>
  The part of the host that names go through: the files under the runtime directory, the
  \<open>flock\<close>s on them, and the shared-memory segments of the package \<^verbatim>\<open>go-shm\<close>. A file is an inode
  with its content; the content of a FIFO is the tokens in it, one character each. What other
  processes do enters the operations as functions on this state.
\<close>

section \<open>State\<close>

text \<open>
  \<open>fs_err p\<close> is the error that every call on the path \<open>p\<close> fails with, if there is one;
  \<open>fs_locked i\<close> says that some open file holds the \<open>flock\<close> of the inode \<open>i\<close>; \<open>fs_shm\<close> is the
  state of the segments.
\<close>

record 's kernel =
  fs_files :: "string \<Rightarrow> (nat \<times> string) option"
  fs_fresh :: nat
  fs_locked :: "nat \<Rightarrow> bool"
  fs_err :: "string \<Rightarrow> ipc_error option"
  fs_shm :: 's

text \<open>
  The package \<^verbatim>\<open>go-shm\<close>, the SHA-256 prefix in the name of a socket event, and the poller of the
  Go runtime. \<open>shm_store\<close> is a write to the memory of a mapped segment, \<open>poll_err\<close> the error of
  \<open>SetReadDeadline\<close> on a descriptor of that path: the poller does not take every kind of file.
\<close>

record 's platform =
  shm_Create :: "'s \<Rightarrow> string \<Rightarrow> nat \<Rightarrow> 's \<times> segment result"
  shm_Open :: "'s \<Rightarrow> string \<Rightarrow> segment result"
  shm_Unlink :: "'s \<Rightarrow> string \<Rightarrow> 's \<times> ipc_error option"
  shm_store :: "'s \<Rightarrow> string \<Rightarrow> segment \<Rightarrow> 's"
  sha_prefix :: "string \<Rightarrow> string"
  poll_err :: "string \<Rightarrow> ipc_error option"

section \<open>System calls\<close>

definition set_file :: "'s kernel \<Rightarrow> string \<Rightarrow> (nat \<times> string) option \<Rightarrow> 's kernel" where
  "set_file k p f = k\<lparr>fs_files := (fs_files k)(p := f)\<rparr>"

text \<open>\<open>os.OpenFile\<close> with \<open>O_RDWR|O_CREATE\<close>: the inode behind the new descriptor.\<close>

definition OpenFile :: "'s kernel \<Rightarrow> string \<Rightarrow> 's kernel \<times> nat result" where
  "OpenFile k p =
     (case fs_err k p of
        Some e \<Rightarrow> (k, Inl e)
      | None \<Rightarrow>
          (case fs_files k p of
             Some (i, _) \<Rightarrow> (k, Inr i)
           | None \<Rightarrow> ((set_file k p (Some (fs_fresh k, [])))\<lparr>fs_fresh := fs_fresh k + 1\<rparr>, Inr (fs_fresh k))))"

definition Stat :: "'s kernel \<Rightarrow> string \<Rightarrow> nat result" where
  "Stat k p =
     (case fs_err k p of
        Some e \<Rightarrow> Inl e
      | None \<Rightarrow> (case fs_files k p of None \<Rightarrow> Inl ErrNotExist | Some (i, _) \<Rightarrow> Inr i))"

definition ReadFile :: "'s kernel \<Rightarrow> string \<Rightarrow> string result" where
  "ReadFile k p =
     (case fs_err k p of
        Some e \<Rightarrow> Inl e
      | None \<Rightarrow> (case fs_files k p of None \<Rightarrow> Inl ErrNotExist | Some (_, c) \<Rightarrow> Inr c))"

definition Remove :: "'s kernel \<Rightarrow> string \<Rightarrow> 's kernel \<times> ipc_error option" where
  "Remove k p =
     (case fs_err k p of
        Some e \<Rightarrow> (k, Some e)
      | None \<Rightarrow> (case fs_files k p of None \<Rightarrow> (k, Some ErrNotExist) | Some _ \<Rightarrow> (set_file k p None, None)))"

text \<open>\<open>WriteAt\<close> at offset 0 and \<open>Truncate\<close> on an open file.\<close>

definition WriteAt0 :: "'s kernel \<Rightarrow> string \<Rightarrow> string \<Rightarrow> 's kernel" where
  "WriteAt0 k p s =
     (case fs_files k p of None \<Rightarrow> k | Some (i, c) \<Rightarrow> set_file k p (Some (i, s @ drop (length s) c)))"

definition Truncate :: "'s kernel \<Rightarrow> string \<Rightarrow> nat \<Rightarrow> 's kernel" where
  "Truncate k p n =
     (case fs_files k p of None \<Rightarrow> k | Some (i, c) \<Rightarrow> set_file k p (Some (i, take n c)))"

text \<open>
  \<open>filelock.Take\<close> without \<open>wait\<close>: \<open>es\<close> are the errors other than a held lock that \<open>flock\<close>
  returns, in order, before it answers; an interrupted call is made again.
\<close>

definition EINTR :: ipc_error where
  "EINTR = ErrOther ''EINTR''"

definition unlock :: "'s kernel \<Rightarrow> nat \<Rightarrow> 's kernel" where
  "unlock k i = k\<lparr>fs_locked := (fs_locked k)(i := False)\<rparr>"

fun Take :: "ipc_error list \<Rightarrow> 's kernel \<Rightarrow> nat \<Rightarrow> 's kernel \<times> ipc_error option" where
  "Take [] k i =
     (if fs_locked k i then (k, Some ErrWouldBlock) else (k\<lparr>fs_locked := (fs_locked k)(i := True)\<rparr>, None))"
| "Take (e # es) k i = (if errors_is e EINTR then Take es k i else (k, Some e))"

text \<open>\<open>TryLock\<close> returns the releaser of the file, here the inode it releases.\<close>

definition TryLock :: "ipc_error list \<Rightarrow> 's kernel \<Rightarrow> string \<Rightarrow> 's kernel \<times> nat result" where
  "TryLock es k p =
     (case OpenFile k p of
        (k, Inl e) \<Rightarrow> (k, Inl e)
      | (k, Inr i) \<Rightarrow>
          (case Take es k i of
             (k, Some e) \<Rightarrow> (k, Inl (Wrap ''lock'' e))
           | (k, None) \<Rightarrow> (k, Inr i)))"

section \<open>Lemmas\<close>

lemma set_file_simps [simp]:
  "fs_files (set_file k p f) = (fs_files k)(p := f)" "fs_locked (set_file k p f) = fs_locked k"
  "fs_err (set_file k p f) = fs_err k" "fs_shm (set_file k p f) = fs_shm k"
  by (simp_all add: set_file_def)

lemma unlock_simps [simp]:
  "fs_files (unlock k i) = fs_files k" "fs_locked (unlock k i) = (fs_locked k)(i := False)"
  "fs_err (unlock k i) = fs_err k" "fs_shm (unlock k i) = fs_shm k"
  by (simp_all add: unlock_def)

lemma Remove_frame:
  assumes "Remove k p = (k', err)"
  shows "fs_locked k' = fs_locked k" "fs_err k' = fs_err k" "fs_shm k' = fs_shm k" "q \<noteq> p \<Longrightarrow> fs_files k' q = fs_files k q"
  using assms by (auto simp: Remove_def split: option.splits)

lemma Remove_gone:
  assumes "Remove k p = (k', err)" and "fs_err k p = None"
  shows "fs_files k' p = None" "err = None \<or> err = Some ErrNotExist"
  using assms by (auto simp: Remove_def split: option.splits)

lemma OpenFile_frame:
  assumes "OpenFile k p = (k', res)"
  shows "fs_locked k' = fs_locked k" "fs_err k' = fs_err k" "fs_shm k' = fs_shm k" "q \<noteq> p \<Longrightarrow> fs_files k' q = fs_files k q"
    "fs_files k p \<noteq> None \<Longrightarrow> k' = k" "res = Inr i \<Longrightarrow> \<exists>c. fs_files k' p = Some (i, c)"
  using assms by (auto simp: OpenFile_def split: option.splits prod.splits)

lemma Take_frame:
  "Take es k i = (k', err) \<Longrightarrow> fs_files k' = fs_files k \<and> fs_err k' = fs_err k \<and> fs_shm k' = fs_shm k \<and>
     (case err of None \<Rightarrow> \<not> fs_locked k i \<and> fs_locked k' = (fs_locked k)(i := True) | Some _ \<Rightarrow> k' = k)"
  by (induction es k i rule: Take.induct) (auto split: if_splits)

lemma Take_excludes: "fs_locked k i \<Longrightarrow> \<exists>e. Take es k i = (k, Some e)"
  by (induction es k i rule: Take.induct) auto

end
