(* ===== verification/Names.thy ===== *)
theory Names
  imports Kernel_Files Identity
begin

text \<open>
  The names of \<^verbatim>\<open>src/name.go\<close> and \<^verbatim>\<open>src/name_unix.go\<close>: a lock file that a living creator holds,
  and beside it a file that says which instance (segment and events) the name points at. A
  sweep removes the names that nobody holds.
\<close>

section \<open>Names and paths\<close>

definition validateName :: "string \<Rightarrow> ipc_error option" where
  "validateName name =
     (if name = [] then Some ErrInvalidName
      else if CHR ''/'' \<in> set name \<or> CHR 0x5C \<in> set name then Some ErrInvalidName
      else if name = ''.'' \<or> name = ''..'' then Some ErrInvalidName
      else None)"

definition incarnationLen :: nat where "incarnationLen = 16"

text \<open>\<open>rand.Read\<close> fills eight bytes or fails.\<close>

definition newIncarnation :: "bytes result \<Rightarrow> string result" where
  "newIncarnation raw = (case raw of Inl e \<Rightarrow> Inl e | Inr b \<Rightarrow> Inr (hex_encode (take (incarnationLen div 2) b)))"

definition parseIncarnation :: "string \<Rightarrow> string option" where
  "parseIncarnation content =
     (if length content \<noteq> incarnationLen then None
      else case hex_decode content of None \<Rightarrow> None | Some _ \<Rightarrow> Some content)"

definition instanceName :: "string \<Rightarrow> string \<Rightarrow> string" where
  "instanceName name inc = name @ ''.'' @ inc"

definition runtimeDir :: string where "runtimeDir = ''/dev/shm''"

definition namePrefix :: string where "namePrefix = ''go-ipc-''"

definition nameSuffix :: string where "nameSuffix = ''.name''"

definition namePath :: "string \<Rightarrow> string" where
  "namePath name = runtimeDir @ ''/'' @ namePrefix @ name @ nameSuffix"

definition incPath :: "string \<Rightarrow> string" where
  "incPath name = runtimeDir @ ''/'' @ namePrefix @ name @ ''.inc''"

definition eventPath :: "string \<Rightarrow> string" where
  "eventPath name = runtimeDir @ ''/'' @ ''go-ipc-'' @ name @ ''.event''"

definition sockPath :: "'s platform \<Rightarrow> string \<Rightarrow> string" where
  "sockPath p name = runtimeDir @ ''/'' @ ''go-ipc-'' @ sha_prefix p (eventPath name) @ ''.esock''"

section \<open>The lock of a name\<close>

text \<open>
  One turn of the loop of \<open>lockName\<close>: what other processes do between the open and the
  \<open>flock\<close>, how the \<open>flock\<close> is interrupted, and what they do before the file is compared with
  the path. The result is \<open>None\<close> while the rounds run out. A lock is the inode it is on.
\<close>

record 'k lock_round =
  before_flock :: "'k \<Rightarrow> 'k"
  flock_errs :: "ipc_error list"
  before_stat :: "'k \<Rightarrow> 'k"

fun lockName :: "'s kernel lock_round list \<Rightarrow> 's kernel \<Rightarrow> string \<Rightarrow> ('s kernel \<times> nat result) option" where
  "lockName [] k name = None"
| "lockName (w # ws) k name =
     (case OpenFile k (namePath name) of
        (k, Inl e) \<Rightarrow> Some (k, Inl e)
      | (k, Inr i) \<Rightarrow>
          (case Take (flock_errs w) (before_flock w k) i of
             (k, Some e) \<Rightarrow> Some (k, Inl (if errors_is e ErrWouldBlock then Wrap ''ipc: name'' ErrInUse else e))
           | (k, None) \<Rightarrow>
               let k = before_stat w k in
               if Stat k (namePath name) = Inr i then Some (k, Inr i) else lockName ws (unlock k i) name))"

definition lock_previous :: "'s kernel \<Rightarrow> string \<Rightarrow> string" where
  "lock_previous k name =
     (case ReadFile k (incPath name) of
        Inl _ \<Rightarrow> []
      | Inr content \<Rightarrow> (case parseIncarnation content of None \<Rightarrow> [] | Some inc \<Rightarrow> inc))"

definition publish :: "'s kernel \<Rightarrow> string \<Rightarrow> string \<Rightarrow> 's kernel \<times> ipc_error option" where
  "publish k name inc =
     (case OpenFile k (incPath name) of
        (k, Inl e) \<Rightarrow> (k, Some e)
      | (k, Inr _) \<Rightarrow> (Truncate (WriteAt0 k (incPath name) inc) (incPath name) (length inc), None))"

definition lock_release :: "'s kernel \<Rightarrow> nat \<Rightarrow> 's kernel" where
  "lock_release k i = unlock k i"

definition readName :: "'s kernel \<Rightarrow> string \<Rightarrow> string result" where
  "readName k name =
     (if (case Stat k (namePath name) of Inl e \<Rightarrow> errors_is e ErrNotExist | Inr _ \<Rightarrow> False)
      then Inl (Wrap ''ipc: no endpoint named'' ErrNotExist)
      else
        let content = (case ReadFile k (incPath name) of
                         Inl e \<Rightarrow> if errors_is e ErrNotExist then Inr [] else Inl e
                       | Inr c \<Rightarrow> Inr c)
        in case content of
             Inl e \<Rightarrow> Inl e
           | Inr c \<Rightarrow>
               (case parseIncarnation c of
                  None \<Rightarrow> Inl (Wrap ''ipc: name'' ErrNotReady)
                | Some inc \<Rightarrow> Inr inc))"

section \<open>Removing\<close>

definition unlinkSegment :: "'s platform \<Rightarrow> 's kernel \<Rightarrow> string \<Rightarrow> 's kernel \<times> ipc_error option" where
  "unlinkSegment p k inst =
     (case shm_Unlink p (fs_shm k) inst of (s, err) \<Rightarrow>
        (k\<lparr>fs_shm := s\<rparr>,
         case err of Some e \<Rightarrow> if errors_is e ErrNotExist then None else Some e | None \<Rightarrow> None))"

definition unlinkEventImpl :: "'s platform \<Rightarrow> 's kernel \<Rightarrow> string \<Rightarrow> 's kernel \<times> ipc_error option" where
  "unlinkEventImpl p k name =
     (case Remove (fst (Remove k (sockPath p name))) (eventPath name) of
        (k, Some e) \<Rightarrow> (k, if errors_is e ErrNotExist then None else Some e)
      | (k, None) \<Rightarrow> (k, None))"

definition removeInstance :: "'s platform \<Rightarrow> 's kernel \<Rightarrow> string \<Rightarrow> string \<Rightarrow> 's kernel \<times> ipc_error option" where
  "removeInstance p k name inc =
     (let inst = instanceName name inc in
      case (case shm_Open p (fs_shm k) inst of
              Inl _ \<Rightarrow> (k, None)
            | Inr _ \<Rightarrow> unlinkSegment p k inst) of (k, err) \<Rightarrow>
      case unlinkEventImpl p k (inst @ ''.ne'') of (k, ue) \<Rightarrow>
      case unlinkEventImpl p k (inst @ ''.nf'') of (k, uf) \<Rightarrow>
        (k, map_option (Wrap ''ipc: remove'') (first_err (first_err err ue) uf)))"

fun remove_all :: "'s kernel \<Rightarrow> string list \<Rightarrow> 's kernel \<times> ipc_error option" where
  "remove_all k [] = (k, None)"
| "remove_all k (path # paths) =
     (case Remove k path of
        (k, Some e) \<Rightarrow> if errors_is e ErrNotExist then remove_all k paths else (k, Some e)
      | (k, None) \<Rightarrow> remove_all k paths)"

definition removeName :: "'s kernel \<Rightarrow> string \<Rightarrow> 's kernel \<times> ipc_error option" where
  "removeName k name = remove_all k [incPath name, namePath name]"

text \<open>\<open>gap\<close> is what other processes do between the read of the incarnation and the removal.\<close>

definition unlinkName :: "('s kernel \<Rightarrow> 's kernel) \<Rightarrow> 's kernel \<Rightarrow> string \<Rightarrow> string \<Rightarrow> 's kernel \<times> ipc_error option" where
  "unlinkName gap k name inc =
     (case ReadFile k (incPath name) of
        Inl e \<Rightarrow> (k, if errors_is e ErrNotExist then None else Some e)
      | Inr content \<Rightarrow>
          if (case parseIncarnation content of None \<Rightarrow> [] | Some c \<Rightarrow> c) \<noteq> inc then (k, None)
          else removeName (gap k) name)"

section \<open>Sweeping\<close>

text \<open>A sweep whose lock rounds run out is still at its loop, and has removed nothing.\<close>

definition sweepName :: "'s platform \<Rightarrow> 's kernel lock_round list \<Rightarrow> 's kernel \<Rightarrow> string \<Rightarrow> 's kernel option" where
  "sweepName p ws k name =
     (case lockName ws k name of
        None \<Rightarrow> None
      | Some (k, Inl _) \<Rightarrow> Some k
      | Some (k, Inr i) \<Rightarrow>
          let inc = lock_previous k name in
          case (if inc = [] then (k, None) else removeInstance p k name inc) of
            (k, Some _) \<Rightarrow> Some (lock_release k i)
          | (k, None) \<Rightarrow> Some (lock_release (fst (removeName k name)) i))"

definition CutPrefix :: "string \<Rightarrow> string \<Rightarrow> string option" where
  "CutPrefix s p = (if take (length p) s = p then Some (drop (length p) s) else None)"

definition CutSuffix :: "string \<Rightarrow> string \<Rightarrow> string option" where
  "CutSuffix s p =
     (if length p \<le> length s \<and> drop (length s - length p) s = p then Some (take (length s - length p) s) else None)"

text \<open>The name whose file an entry of the directory is, if it is one.\<close>

definition swept_name :: "string \<Rightarrow> string option" where
  "swept_name entry =
     (case CutPrefix entry namePrefix of
        None \<Rightarrow> None
      | Some name \<Rightarrow>
          (case (case CutSuffix name nameSuffix of None \<Rightarrow> CutSuffix name ''.inc'' | b \<Rightarrow> b) of
             None \<Rightarrow> None
           | Some base \<Rightarrow> if validateName base = None then Some base else None))"

definition is_life :: "string \<Rightarrow> bool" where
  "is_life entry \<longleftrightarrow> CutPrefix entry ''go-ipc-life-'' \<noteq> None \<and> CutSuffix entry ''.sock'' \<noteq> None"

text \<open>
  \<open>entries\<close> is what \<open>os.ReadDir\<close> returned, \<open>dials path\<close> the error of a dial of a life socket
  and \<open>rounds name\<close> what happens while the name is locked.
\<close>

fun sweepDir :: "'s platform \<Rightarrow> (string \<Rightarrow> ipc_error option) \<Rightarrow> (string \<Rightarrow> 's kernel lock_round list) \<Rightarrow>
    's kernel \<Rightarrow> string list \<Rightarrow> 's kernel option" where
  "sweepDir p dials rounds k [] = Some k"
| "sweepDir p dials rounds k (entry # entries) =
     (if is_life entry then
        let path = runtimeDir @ ''/'' @ entry in
        sweepDir p dials rounds (if sweepLife (dials path) then fst (Remove k path) else k) entries
      else case swept_name entry of
             None \<Rightarrow> sweepDir p dials rounds k entries
           | Some name \<Rightarrow>
               (case sweepName p (rounds name) k name of
                  None \<Rightarrow> None
                | Some k \<Rightarrow> sweepDir p dials rounds k entries))"

definition sweepStale :: "'s platform \<Rightarrow> (string \<Rightarrow> ipc_error option) \<Rightarrow> (string \<Rightarrow> 's kernel lock_round list) \<Rightarrow>
    bool \<Rightarrow> 's kernel \<Rightarrow> string list result \<Rightarrow> (bool \<times> 's kernel) option" where
  "sweepStale p dials rounds swept k entries =
     (if swept then Some (True, k)
      else case entries of
             Inl _ \<Rightarrow> Some (True, k)
           | Inr es \<Rightarrow> map_option (\<lambda>k. (True, k)) (sweepDir p dials rounds k es))"

section \<open>Paths do not meet\<close>

lemmas path_defs = namePath_def incPath_def eventPath_def sockPath_def runtimeDir_def namePrefix_def nameSuffix_def

lemma last_eqI: "xs = ys \<Longrightarrow> last xs = last ys"
  by simp

lemma paths_inj [simp]:
  "namePath a = namePath b \<longleftrightarrow> a = b" "incPath a = incPath b \<longleftrightarrow> a = b" "eventPath a = eventPath b \<longleftrightarrow> a = b"
  by (simp_all add: path_defs)

lemma paths_apart [simp]:
  "namePath a \<noteq> incPath b" "incPath b \<noteq> namePath a" "namePath a \<noteq> eventPath b" "eventPath b \<noteq> namePath a"
  "incPath a \<noteq> eventPath b" "eventPath b \<noteq> incPath a"
  "sockPath p a \<noteq> namePath b" "sockPath p a \<noteq> incPath b" "sockPath p a \<noteq> eventPath b"
  "namePath b \<noteq> sockPath p a" "incPath b \<noteq> sockPath p a" "eventPath b \<noteq> sockPath p a"
  by (rule notI, drule last_eqI, simp add: path_defs)+

lemma life_path_apart:
  assumes "is_life entry"
  shows "namePath a \<noteq> runtimeDir @ ''/'' @ entry" "incPath a \<noteq> runtimeDir @ ''/'' @ entry" "eventPath a \<noteq> runtimeDir @ ''/'' @ entry"
proof -
  from assms have "drop (length entry - 5) entry = ''.sock''" "5 \<le> length entry"
    by (auto simp: is_life_def CutSuffix_def numeral_eq_Suc split: if_splits)
  then have "last entry = CHR ''k''" "entry \<noteq> []"
    by (metis append_take_drop_id last_appendR last.simps list.discI, auto)
  then have l: "last (runtimeDir @ ''/'' @ entry) = CHR ''k''" by simp
  show "namePath a \<noteq> runtimeDir @ ''/'' @ entry" "incPath a \<noteq> runtimeDir @ ''/'' @ entry" "eventPath a \<noteq> runtimeDir @ ''/'' @ entry"
    by (rule notI, drule last_eqI, unfold l, simp add: path_defs)+
qed

lemma parseIncarnation_length: "parseIncarnation c = Some inc \<Longrightarrow> inc = c \<and> length inc = incarnationLen"
  by (auto simp: parseIncarnation_def split: if_splits option.splits)

lemma instanceName_inj:
  "length inc = length inc' \<Longrightarrow> instanceName a inc = instanceName b inc' \<longleftrightarrow> a = b \<and> inc = inc'"
  by (auto simp: instanceName_def)

lemma event_paths_inj:
  "length inc = length inc' \<Longrightarrow> eventPath (instanceName a inc @ x) = eventPath (instanceName b inc' @ y) \<Longrightarrow> length x = length y \<Longrightarrow>
     a = b \<and> inc = inc' \<and> x = y"
  by (auto simp: instanceName_def)

section \<open>What a process that holds a name keeps\<close>

text \<open>\<open>held\<close>: the lock file of the name exists and is locked.\<close>

definition held :: "string \<Rightarrow> 's kernel \<Rightarrow> bool" where
  "held name k = (case fs_files k (namePath name) of None \<Rightarrow> False | Some (i, _) \<Rightarrow> fs_locked k i)"

text \<open>
  The files of a name, the FIFOs of its instance, and the segment. The sockets that
  \<open>unlinkEventImpl\<close> removes as well are the events of a host without FIFOs.
\<close>

definition footprint :: "'s platform \<Rightarrow> string \<Rightarrow> string \<Rightarrow> 's kernel \<Rightarrow> (nat \<times> string) option list \<times> segment result" where
  "footprint p name inc k =
     (let inst = instanceName name inc in
      (map (fs_files k) [namePath name, incPath name, eventPath (inst @ ''.ne''), eventPath (inst @ ''.nf'')],
       shm_Open p (fs_shm k) inst))"

text \<open>A step that leaves a held name, and all that belongs to it, as it is.\<close>

definition keeps :: "'s platform \<Rightarrow> string \<Rightarrow> string \<Rightarrow> 's kernel \<Rightarrow> 's kernel \<Rightarrow> bool" where
  "keeps p name inc k k' \<longleftrightarrow> (held name k \<longrightarrow> held name k' \<and> footprint p name inc k' = footprint p name inc k)"

text \<open>The documented behaviour of \<^verbatim>\<open>go-shm\<close> that a sweep relies on: removing one segment leaves the others.\<close>

definition shm_separate :: "'s platform \<Rightarrow> bool" where
  "shm_separate p \<longleftrightarrow> (\<forall>s a b. a \<noteq> b \<longrightarrow> shm_Open p (fst (shm_Unlink p s a)) b = shm_Open p s b)"

lemma keeps_refl [simp]: "keeps p name inc k k"
  by (simp add: keeps_def)

lemma keeps_trans [trans]: "keeps p name inc a b \<Longrightarrow> keeps p name inc b c \<Longrightarrow> keeps p name inc a c"
  by (auto simp: keeps_def)

lemma footprint_cong:
  assumes "\<forall>q \<in> {namePath name, incPath name, eventPath (instanceName name inc @ ''.ne''), eventPath (instanceName name inc @ ''.nf'')}.
      fs_files k' q = fs_files k q" "fs_locked k' = fs_locked k" "shm_Open p (fs_shm k') (instanceName name inc) = shm_Open p (fs_shm k) (instanceName name inc)"
  shows "keeps p name inc k k'"
  using assms by (simp add: keeps_def held_def footprint_def Let_def split: option.split prod.split)

lemma keeps_unlock:
  assumes "\<And>j c. fs_files k (namePath name) = Some (j, c) \<Longrightarrow> j \<noteq> i"
  shows "keeps p name inc k (unlock k i)"
  using assms by (auto simp: keeps_def held_def footprint_def Let_def split: option.splits)

lemma keeps_Remove:
  assumes "q \<notin> {namePath name, incPath name, eventPath (instanceName name inc @ ''.ne''), eventPath (instanceName name inc @ ''.nf'')}"
  shows "keeps p name inc k (fst (Remove k q))"
proof (cases "Remove k q")
  case (Pair k' err)
  note f = Remove_frame [OF Pair]
  show ?thesis by (rule footprint_cong) (use assms Pair f(1) f(3) f(4) in auto)
qed

lemma keeps_unlinkEvent:
  assumes "eventPath n \<notin> {eventPath (instanceName name inc @ ''.ne''), eventPath (instanceName name inc @ ''.nf'')}"
  shows "keeps p name inc k (fst (unlinkEventImpl p k n))"
proof -
  let ?k = "fst (Remove k (sockPath p n))"
  have "keeps p name inc k ?k" by (rule keeps_Remove) simp
  also have "keeps p name inc ?k (fst (Remove ?k (eventPath n)))" by (rule keeps_Remove) (use assms in simp)
  also have "fst (Remove ?k (eventPath n)) = fst (unlinkEventImpl p k n)"
    by (simp add: unlinkEventImpl_def split: prod.split option.split)
  finally show ?thesis .
qed

lemma removeInstance_steps:
  "\<exists>k1. (k1 = k \<or> k1 = fst (unlinkSegment p k (instanceName b binc))) \<and>
     fst (removeInstance p k b binc) =
       fst (unlinkEventImpl p (fst (unlinkEventImpl p k1 (instanceName b binc @ ''.ne''))) (instanceName b binc @ ''.nf''))"
  by (auto simp: removeInstance_def Let_def split: sum.split prod.split) 

lemma keeps_removeInstance:
  assumes sep: "shm_separate p" and ne: "b \<noteq> name" and len: "length binc = length inc"
  shows "keeps p name inc k (fst (removeInstance p k b binc))"
proof -
  let ?b = "instanceName b binc"
  obtain k1 where k1: "k1 = k \<or> k1 = fst (unlinkSegment p k ?b)"
    and r: "fst (removeInstance p k b binc) = fst (unlinkEventImpl p (fst (unlinkEventImpl p k1 (?b @ ''.ne''))) (?b @ ''.nf''))"
    using removeInstance_steps by blast
  have "keeps p name inc k (fst (unlinkSegment p k ?b))"
    by (rule footprint_cong)
      (use sep instanceName_inj [OF len, of b name] ne in \<open>auto simp: unlinkSegment_def shm_separate_def split: prod.splits\<close>,
       metis fst_conv)
  then have 1: "keeps p name inc k k1" using k1 by auto
  have 2: "keeps p name inc k (fst (unlinkEventImpl p k (?b @ x)))" if "x = ''.ne'' \<or> x = ''.nf''" for x k
    by (rule keeps_unlinkEvent) (use event_paths_inj [OF len, of b x name] ne that in auto)
  show ?thesis unfolding r
    using keeps_trans [OF 1 keeps_trans [OF 2 [of "''.ne''"] 2 [of "''.nf''"]]] by simp
qed

lemma keeps_remove_all:
  "\<forall>q \<in> set qs. q \<notin> {namePath name, incPath name, eventPath (instanceName name inc @ ''.ne''), eventPath (instanceName name inc @ ''.nf'')} \<Longrightarrow>
   keeps p name inc k (fst (remove_all k qs))"
proof (induction k qs rule: remove_all.induct)
  case (2 k path paths)
  obtain k' err where r: "Remove k path = (k', err)" by fastforce
  with 2(3) have k': "keeps p name inc k k'" using keeps_Remove [of path name inc p k] by simp
  show ?case
  proof (cases err)
    case None
    with r k' 2 show ?thesis by (auto intro: keeps_trans)
  next
    case (Some e)
    with r k' 2 show ?thesis by (auto intro: keeps_trans)
  qed
qed simp

lemma keeps_removeName: "b \<noteq> name \<Longrightarrow> keeps p name inc k (fst (removeName k b))"
  unfolding removeName_def by (rule keeps_remove_all) simp

lemma keepsD: "keeps p name inc k k' \<Longrightarrow> held name k \<Longrightarrow> held name k' \<and> fs_files k' (namePath name) = fs_files k (namePath name)"
  by (simp add: keeps_def footprint_def Let_def)

text \<open>What the other processes do while a name is locked leaves the held name alone.\<close>

definition rounds_keep :: "'s platform \<Rightarrow> string \<Rightarrow> string \<Rightarrow> 's kernel lock_round list \<Rightarrow> bool" where
  "rounds_keep p name inc ws \<longleftrightarrow>
     (\<forall>w \<in> set ws. \<forall>k. keeps p name inc k (before_flock w k) \<and> keeps p name inc k (before_stat w k))"

lemma keeps_OpenFile: "OpenFile k (namePath b) = (k', res) \<Longrightarrow> keeps p name inc k k'"
proof (cases "b = name \<and> held name k")
  case True
  assume o: "OpenFile k (namePath b) = (k', res)"
  from True have "fs_files k (namePath b) \<noteq> None" by (auto simp: held_def split: option.splits)
  with OpenFile_frame(5) [OF o] show ?thesis by simp
next
  case False
  assume o: "OpenFile k (namePath b) = (k', res)"
  show ?thesis
  proof (cases "b = name")
    case True
    with False show ?thesis by (simp add: keeps_def)
  next
    case ne: False
    show ?thesis by (rule footprint_cong) (use ne OpenFile_frame(1,3,4) [OF o] in auto)
  qed
qed

lemma keeps_Take:
  assumes "Take es k i = (k', err)"
  shows "keeps p name inc k k'"
  using Take_frame [OF assms]
  by (auto simp: keeps_def held_def footprint_def Let_def split: option.splits)

text \<open>One turn: with the lock taken, the inode is not that of a name somebody holds.\<close>

lemma lock_turn:
  assumes o: "OpenFile k (namePath b) = (k1, Inr i)" and t: "Take es (g k1) i = (k3, None)"
    and g: "\<And>k. keeps p name inc k (g k)" "\<And>k. keeps p name inc k (h k)" and held: "held name k"
  shows "keeps p name inc k (h k3)" "b \<noteq> name" "\<And>j c. fs_files (h k3) (namePath name) = Some (j, c) \<Longrightarrow> j \<noteq> i"
proof -
  have 1: "keeps p name inc k (g k1)" by (rule keeps_trans [OF keeps_OpenFile [OF o] g(1)])
  have 2: "keeps p name inc k k3" by (rule keeps_trans [OF 1 keeps_Take [OF t]])
  show 3: "keeps p name inc k (h k3)" by (rule keeps_trans [OF 2 g(2)])
  from held obtain j c where f: "fs_files k (namePath name) = Some (j, c)" by (auto simp: held_def split: option.splits)
  have free: "\<not> fs_locked (g k1) i" using Take_frame [OF t] by simp
  have lk: "fs_locked (g k1) j" using keepsD [OF 1 held] f by (auto simp: held_def)
  then have ij: "j \<noteq> i" using free by auto
  then show "b \<noteq> name" using OpenFile_frame(5,6) [OF o] f by auto
  show "\<And>j c. fs_files (h k3) (namePath name) = Some (j, c) \<Longrightarrow> j \<noteq> i" using keepsD [OF 3 held] f ij by simp
qed

lemma lockName_keeps:
  assumes "rounds_keep p name inc ws" "lockName ws k b = Some (k', res)" "held name k"
  shows "keeps p name inc k k' \<and> (\<forall>i. res = Inr i \<longrightarrow> b \<noteq> name \<and> (\<forall>j c. fs_files k' (namePath name) = Some (j, c) \<longrightarrow> j \<noteq> i))"
  using assms
proof (induction ws arbitrary: k)
  case (Cons w ws)
  have g: "\<And>k. keeps p name inc k (before_flock w k)" "\<And>k. keeps p name inc k (before_stat w k)" and ws: "rounds_keep p name inc ws"
    using Cons.prems(1) by (auto simp: rounds_keep_def)
  obtain k1 r where o: "OpenFile k (namePath b) = (k1, r)" by fastforce
  note k1 = keeps_OpenFile [OF o, of p name inc]
  show ?case
  proof (cases r)
    case (Inl e)
    with Cons.prems(2) o k1 show ?thesis by auto
  next
    case (Inr i)
    obtain k3 err where t: "Take (flock_errs w) (before_flock w k1) i = (k3, err)" by fastforce
    show ?thesis
    proof (cases err)
      case (Some e)
      with Cons.prems(2) o Inr t keeps_trans [OF keeps_trans [OF k1 g(1)] keeps_Take [OF t]] show ?thesis by auto
    next
      case None
      note turn = lock_turn [OF o [unfolded Inr] t [unfolded None] g Cons.prems(3)]
      show ?thesis
      proof (cases "Stat (before_stat w k3) (namePath b) = Inr i")
        case True
        with Cons.prems(2) o Inr t None turn show ?thesis by (auto simp: Let_def)
      next
        case False
        let ?k = "unlock (before_stat w k3) i"
        have l: "lockName ws ?k b = Some (k', res)" using Cons.prems(2) o Inr t None False by (simp add: Let_def)
        have k: "keeps p name inc k ?k" by (rule keeps_trans [OF turn(1) keeps_unlock]) (rule turn(3))
        with keepsD [OF this Cons.prems(3)] have "held name ?k" by blast
        from Cons.IH [OF ws l this] k show ?thesis by (blast intro: keeps_trans)
      qed
    qed
  qed
qed simp

lemma sweepName_keeps:
  assumes "shm_separate p" "rounds_keep p name inc ws" "length inc = incarnationLen" "sweepName p ws k b = Some k'"
  shows "keeps p name inc k k'"
proof (cases "held name k")
  case True
  obtain k1 r where l: "lockName ws k b = Some (k1, r)" using assms(4) by (auto simp: sweepName_def split: option.splits)
  note L = lockName_keeps [OF assms(2) l True]
  show ?thesis
  proof (cases r)
    case (Inl e)
    with assms(4) l L show ?thesis by (simp add: sweepName_def)
  next
    case (Inr i)
    with L have b: "b \<noteq> name" by simp
    let ?inc = "lock_previous k1 b"
    obtain k2 err where r2: "(if ?inc = [] then (k1, None) else removeInstance p k1 b ?inc) = (k2, err)" by fastforce
    have "?inc = [] \<or> length ?inc = length inc"
      using assms(3) by (auto simp: lock_previous_def dest: parseIncarnation_length split: sum.splits option.splits)
    with r2 have "keeps p name inc k1 k2"
      using keeps_removeInstance [OF assms(1) b, of ?inc inc k1] by (auto split: if_splits)
    then have k2: "keeps p name inc k k2" using L by (blast intro: keeps_trans)
    note k3 = keeps_trans [OF k2 keeps_removeName [OF b]]
    have k': "k' = unlock k2 i \<or> k' = unlock (fst (removeName k2 b)) i"
      using assms(4) l Inr r2 by (auto simp: sweepName_def Let_def lock_release_def split: option.splits)
    have free: "\<And>j c x. keeps p name inc k x \<Longrightarrow> fs_files x (namePath name) = Some (j, c) \<Longrightarrow> j \<noteq> i"
      using L Inr keepsD True by metis
    have "keeps p name inc k (unlock x i)" if "keeps p name inc k x" for x
      by (rule keeps_trans [OF that keeps_unlock]) (rule free [OF that])
    with k' k2 k3 show ?thesis by blast
  qed
qed (simp add: keeps_def)

lemma sweepDir_keeps:
  "sweepDir p dials rounds k entries = Some k' \<Longrightarrow> shm_separate p \<Longrightarrow> length inc = incarnationLen \<Longrightarrow>
   (\<And>b. rounds_keep p name inc (rounds b)) \<Longrightarrow> keeps p name inc k k'"
proof (induction p dials rounds k entries rule: sweepDir.induct)
  case (2 p dials rounds k entry entries)
  show ?case
  proof (cases "is_life entry")
    case True
    let ?path = "runtimeDir @ ''/'' @ entry"
    let ?k = "if sweepLife (dials ?path) then fst (Remove k ?path) else k"
    note apart = life_path_apart [OF True]
    have "keeps p name inc k (fst (Remove k ?path))"
      by (rule keeps_Remove) (use apart [symmetric] in simp)
    then have "keeps p name inc k ?k" by simp
    moreover have "sweepDir p dials rounds ?k entries = Some k'" using 2(4) True by (simp only: sweepDir.simps Let_def if_True)
    then have "keeps p name inc ?k k'" by (rule 2(1) [OF True refl _ 2(5,6,7)])
    ultimately show ?thesis by (rule keeps_trans)
  next
    case False
    show ?thesis
    proof (cases "swept_name entry")
      case None
      then show ?thesis using 2(2) [OF False None _ 2(5,6,7)] 2(4) False by simp
    next
      case (Some b)
      then obtain k1 where k1: "sweepName p (rounds b) k b = Some k1" using 2(4) False by (auto split: option.splits)
      have "keeps p name inc k1 k'" using 2(3) [OF False Some k1 _ 2(5,6,7)] 2(4) False Some k1 by simp
      with sweepName_keeps [OF 2(5) 2(7) 2(6) k1] show ?thesis by (rule keeps_trans)
    qed
  qed
qed simp

section \<open>Locking and publishing\<close>

lemma Take_interrupted: "\<forall>e \<in> set es. errors_is e EINTR \<Longrightarrow> Take es k i = Take [] k i"
  by (induction es) simp_all

text \<open>
  A name that a living process holds is in use for everyone else, whatever happens between
  the open and the \<open>flock\<close>, as long as it leaves the holder alone.
\<close>

theorem lock_exclusive:
  assumes "held name k" and "fs_err k (namePath name) = None"
    and "rounds_keep p name inc (w # ws)" and "\<forall>e \<in> set (flock_errs w). errors_is e EINTR"
  shows "lockName (w # ws) k name = Some (before_flock w k, Inl (Wrap ''ipc: name'' ErrInUse))"
proof -
  obtain i c where f: "fs_files k (namePath name) = Some (i, c)" using assms(1) by (auto simp: held_def split: option.splits)
  have g: "keeps p name inc k (before_flock w k)" using assms(3) by (simp add: rounds_keep_def)
  have "fs_locked (before_flock w k) i" using keepsD [OF g assms(1)] f by (auto simp: held_def)
  then have "Take (flock_errs w) (before_flock w k) i = (before_flock w k, Some ErrWouldBlock)"
    by (simp add: Take_interrupted [OF assms(4)])
  with f assms(2) show ?thesis by (simp add: OpenFile_def)
qed

text \<open>
  A lock that \<open>lockName\<close> returns is on the file that has the name now, not on one that was
  removed or replaced between the open and the \<open>flock\<close>: this is what its comparison of the two
  files is for. The others may do anything but release the lock that was just taken.
\<close>

lemma lockName_held:
  assumes "lockName ws k name = Some (k', Inr i)" and "\<forall>w \<in> set ws. \<forall>k i. fs_locked k i \<longrightarrow> fs_locked (before_stat w k) i"
  shows "(\<exists>c. fs_files k' (namePath name) = Some (i, c)) \<and> held name k'"
  using assms
proof (induction ws k name rule: lockName.induct)
  case (2 w ws k name)
  obtain k1 r where o: "OpenFile k (namePath name) = (k1, r)" by fastforce
  obtain j where j: "r = Inr j" using 2(2) o by (cases r) auto
  obtain k2 e where t: "Take (flock_errs w) (before_flock w k1) j = (k2, e)" by fastforce
  have e: "e = None" using 2(2) o j t by (cases e) auto
  have l: "fs_locked (before_stat w k2) j" using Take_frame [OF t] e 2(3) by simp
  show ?case
  proof (cases "Stat (before_stat w k2) (namePath name) = Inr j")
    case True
    then have "k' = before_stat w k2" "i = j" using 2(2) o j t e by (simp_all add: Let_def)
    with True l show ?thesis by (auto simp: Stat_def held_def split: option.splits)
  next
    case False
    then have "lockName ws (unlock (before_stat w k2) j) name = Some (k', Inr i)" using 2(2) o j t e by (simp add: Let_def)
    then show ?thesis using 2(1) o j t e False 2(3) by (auto simp: Let_def)
  qed
qed simp

text \<open>A round in which nothing happens.\<close>

definition quiet_round :: "'k lock_round" where
  "quiet_round = \<lparr>before_flock = (\<lambda>k. k), flock_errs = [], before_stat = (\<lambda>k. k)\<rparr>"

lemma lock_free:
  assumes "\<not> held name k" and "fs_err k (namePath name) = None" and "\<not> fs_locked k (fs_fresh k)"
  shows "\<exists>k' i c. lockName (quiet_round # ws) k name = Some (k', Inr i) \<and> fs_files k' (namePath name) = Some (i, c) \<and> fs_locked k' i \<and>
    fs_err k' = fs_err k \<and> fs_shm k' = fs_shm k \<and> (\<forall>q. q \<noteq> namePath name \<longrightarrow> fs_files k' q = fs_files k q)"
  using assms by (auto simp: quiet_round_def OpenFile_def Stat_def held_def Let_def split: option.splits prod.splits)

lemma publish_ok:
  assumes "fs_err k (incPath name) = None" "parseIncarnation inc = Some inc"
  shows "\<exists>k' i. publish k name inc = (k', None) \<and> fs_files k' (incPath name) = Some (i, inc) \<and>
    fs_err k' = fs_err k \<and> fs_locked k' = fs_locked k \<and> fs_shm k' = fs_shm k \<and> (\<forall>q. q \<noteq> incPath name \<longrightarrow> fs_files k' q = fs_files k q)"
  using assms by (auto simp: publish_def OpenFile_def WriteAt0_def Truncate_def split: option.splits prod.splits)

lemma readName_published:
  assumes "fs_err k (namePath name) = None" "fs_err k (incPath name) = None" "parseIncarnation inc = Some inc"
    and "fs_files k (namePath name) \<noteq> None" "fs_files k (incPath name) = Some (i, inc)"
  shows "readName k name = Inr inc"
  using assms by (auto simp: readName_def Stat_def ReadFile_def)

lemma newIncarnation_parses: "newIncarnation (Inr b) = Inr inc \<Longrightarrow> 8 \<le> length b \<Longrightarrow> parseIncarnation inc = Some inc"
proof -
  have l: "length (hex_encode bs) = 2 * length bs" for bs by (induction bs) auto
  assume "newIncarnation (Inr b) = Inr inc" "8 \<le> length b"
  then show ?thesis
    by (auto simp: newIncarnation_def parseIncarnation_def incarnationLen_def l hex_decode_encode)
qed

lemma removeName_removes:
  assumes "fs_err k (namePath name) = None" "fs_err k (incPath name) = None"
  shows "\<exists>k'. removeName k name = (k', None) \<and> fs_files k' (namePath name) = None \<and> fs_files k' (incPath name) = None \<and>
    fs_err k' = fs_err k \<and> fs_locked k' = fs_locked k \<and> fs_fresh k' = fs_fresh k"
  using assms by (auto simp: removeName_def Remove_def set_file_def split: option.splits)

section \<open>Properties\<close>

text \<open>
  A platform whose segments are a map from names to segments, for the witnesses.
\<close>

definition zero_header :: ringHeader where
  "zero_header = \<lparr>magic = 0, version = 0, flags = 0, capacity = 0, consumer = 0, tail = 0, head = 0, headCache = 0,
     recvWaiters = 0, sendWaiters = 0, slots = []\<rparr>"

definition demo_platform :: "(string \<Rightarrow> segment option) platform" where
  "demo_platform =
     \<lparr>shm_Create = (\<lambda>s n len. let g = \<lparr>seg_len = len, seg_addr = 0, seg_hdr = zero_header, seg_data = (\<lambda>_. 0)\<rparr> in (s(n \<mapsto> g), Inr g)),
      shm_Open = (\<lambda>s n. case s n of None \<Rightarrow> Inl ErrNotExist | Some g \<Rightarrow> Inr g),
      shm_Unlink = (\<lambda>s n. (s(n := None), if s n = None then Some ErrNotExist else None)),
      shm_store = (\<lambda>s n g. s(n \<mapsto> g)),
      sha_prefix = (\<lambda>_. ''0''), poll_err = (\<lambda>_. None)\<rparr>"

definition demo_inc :: string where "demo_inc = ''0123456789abcdef''"

definition other_inc :: string where "other_inc = ''fedcba9876543210''"

text \<open>Two names: \<open>a\<close> is held by a living process, the process that created \<open>b\<close> is gone.\<close>

definition demo_kernel :: "(string \<Rightarrow> segment option) kernel" where
  "demo_kernel =
     \<lparr>fs_files = [namePath ''a'' \<mapsto> (1, []), incPath ''a'' \<mapsto> (2, demo_inc), namePath ''b'' \<mapsto> (3, []), incPath ''b'' \<mapsto> (4, other_inc)],
      fs_fresh = 5, fs_locked = (\<lambda>i. i = 1), fs_err = (\<lambda>_. None), fs_shm = Map.empty\<rparr>"

lemma demo_incs:
  "parseIncarnation demo_inc = Some demo_inc" "parseIncarnation other_inc = Some other_inc" "demo_inc \<noteq> other_inc"
  by code_simp+

lemma demo_kernel_simps:
  "fs_files demo_kernel = [namePath ''a'' \<mapsto> (1, []), incPath ''a'' \<mapsto> (2, demo_inc), namePath ''b'' \<mapsto> (3, []), incPath ''b'' \<mapsto> (4, other_inc)]"
  "fs_fresh demo_kernel = 5" "fs_locked demo_kernel = (\<lambda>i. i = 1)" "fs_err demo_kernel = (\<lambda>_. None)" "fs_shm demo_kernel = Map.empty"
  by (simp_all add: demo_kernel_def)

text \<open>
  C37: A sweep keeps every name that a living process holds: its lock file, still locked, the
  file that names its instance, the events and the segment of the instance, whatever files the
  directory lists and whatever other processes do meanwhile to other names.
\<close>

theorem sweep_keeps_live:
  assumes "held name k" and "length inc = incarnationLen" and "shm_separate p"
    and "\<And>b. rounds_keep p name inc (rounds b)" and "sweepDir p dials rounds k entries = Some k'"
  shows "held name k' \<and> footprint p name inc k' = footprint p name inc k"
  using sweepDir_keeps [OF assms(5,3,2,4)] assms(1) by (simp add: keeps_def)

lemma demo_sweep:
  "map_option (\<lambda>k. (fs_files k (namePath ''b''), fs_files k (incPath ''b'')))
     (sweepDir demo_platform (\<lambda>_. None) (\<lambda>_. [quiet_round]) demo_kernel [''go-ipc-a.name'', ''go-ipc-b.name'', ''go-ipc-b.inc'']) =
     Some (None, None)"
  by code_simp

lemma demo_platform_separate: "shm_separate demo_platform"
  by (simp add: shm_separate_def demo_platform_def)

lemma quiet_rounds_keep: "rounds_keep p name inc [quiet_round]"
  by (simp add: rounds_keep_def quiet_round_def)

lemma demo_held: "held ''a'' demo_kernel"
  by (simp add: held_def demo_kernel_simps)

theorem sweep_keeps_live_witness:
  "\<exists>k'. sweepDir demo_platform (\<lambda>_. None) (\<lambda>_. [quiet_round]) demo_kernel [''go-ipc-a.name'', ''go-ipc-b.name'', ''go-ipc-b.inc''] = Some k' \<and>
     held ''a'' k' \<and> footprint demo_platform ''a'' demo_inc k' = footprint demo_platform ''a'' demo_inc demo_kernel \<and>
     fs_files k' (namePath ''b'') = None \<and> fs_files k' (incPath ''b'') = None"
proof -
  let ?sweep = "sweepDir demo_platform (\<lambda>_. None) (\<lambda>_. [quiet_round]) demo_kernel [''go-ipc-a.name'', ''go-ipc-b.name'', ''go-ipc-b.inc'']"
  obtain k' where k': "?sweep = Some k'" "fs_files k' (namePath ''b'') = None" "fs_files k' (incPath ''b'') = None"
    using demo_sweep by (cases ?sweep) simp_all
  have "length demo_inc = incarnationLen" by (simp add: demo_inc_def incarnationLen_def)
  from sweep_keeps_live [OF demo_held this demo_platform_separate quiet_rounds_keep k'(1)] k' show ?thesis by blast
qed

text \<open>
  C40: \<open>unlinkName\<close> is meant to leave the file of a newer instance alone. It compares the
  incarnation first and removes afterwards, without the lock: when another process takes the
  name and publishes its own instance in between, \<open>unlinkName\<close> reports success and the name of
  that living process is gone, so a third process can take the same name.
\<close>

theorem unlink_race:
  assumes "ReadFile k (incPath name) = Inr inc" "parseIncarnation inc = Some inc"
    and "held name (gap k)" "readName (gap k) name = Inr newer" "newer \<noteq> inc"
    and "fs_err (gap k) = (\<lambda>_. None)" "\<not> fs_locked (gap k) (fs_fresh (gap k))"
  shows "\<exists>k' i k''. unlinkName gap k name inc = (k', None) \<and> readName k' name = Inl (Wrap ''ipc: no endpoint named'' ErrNotExist) \<and>
    fs_locked k' = fs_locked (gap k) \<and> lockName [quiet_round] k' name = Some (k'', Inr i) \<and> \<not> fs_locked (gap k) i"
proof -
  obtain k' where k': "removeName (gap k) name = (k', None)" "fs_files k' (namePath name) = None" "fs_err k' = (\<lambda>_. None)"
    "fs_locked k' = fs_locked (gap k)" "fs_fresh k' = fs_fresh (gap k)"
    using removeName_removes [of "gap k" name] assms(6) by auto
  have u: "unlinkName gap k name inc = (k', None)" using assms(1,2) k'(1) by (simp add: unlinkName_def)
  have r: "readName k' name = Inl (Wrap ''ipc: no endpoint named'' ErrNotExist)"
    using k' by (simp add: readName_def Stat_def)
  have l: "\<exists>k''. lockName [quiet_round] k' name = Some (k'', Inr (fs_fresh k'))"
    using k' assms(7) by (simp add: quiet_round_def OpenFile_def Stat_def Let_def)
  show ?thesis using u r k'(4,5) l assms(7) by metis
qed

text \<open>The process that takes the name \<open>b\<close> after its creator is gone, and publishes its own instance.\<close>

definition take_b :: "(string \<Rightarrow> segment option) kernel \<Rightarrow> (string \<Rightarrow> segment option) kernel" where
  "take_b k = (case lockName [quiet_round] k ''b'' of Some (k, Inr _) \<Rightarrow> fst (publish k ''b'' demo_inc) | _ \<Rightarrow> k)"

theorem unlink_race_witness:
  "\<exists>k' i k''. unlinkName take_b demo_kernel ''b'' other_inc = (k', None) \<and>
    readName k' ''b'' = Inl (Wrap ''ipc: no endpoint named'' ErrNotExist) \<and> held ''b'' (take_b demo_kernel) \<and>
    lockName [quiet_round] k' ''b'' = Some (k'', Inr i) \<and> \<not> fs_locked (take_b demo_kernel) i"
proof -
  have r: "ReadFile demo_kernel (incPath ''b'') = Inr other_inc" by code_simp
  have h: "held ''b'' (take_b demo_kernel)" by code_simp
  have n: "readName (take_b demo_kernel) ''b'' = Inr demo_inc" by code_simp
  have f: "\<not> fs_locked (take_b demo_kernel) (fs_fresh (take_b demo_kernel))" by code_simp
  have "fs_err (take_b demo_kernel) = (\<lambda>_. None)"
    by (simp add: take_b_def quiet_round_def OpenFile_def Stat_def publish_def WriteAt0_def Truncate_def demo_kernel_simps)
  from unlink_race [of demo_kernel "''b''" other_inc take_b, OF r demo_incs(2) h n demo_incs(3) this f] h show ?thesis by blast
qed

end
