(* ===== verification/Endpoint.thy ===== *)
theory Endpoint
  imports Names Conn
begin

text \<open>
  How queues, channels and connections come into being and lose their names: the constructors
  of \<^verbatim>\<open>src/queue.go\<close>, \<^verbatim>\<open>src/channel.go\<close> and \<^verbatim>\<open>src/conn.go\<close>, the events of \<^verbatim>\<open>src/event.go\<close> and
  \<^verbatim>\<open>src/event_unix.go\<close> they create and open, and \<open>Unlink\<close>. A process reads and writes the
  segment that the kernel holds, so what one process creates another one can open.
\<close>

section \<open>State\<close>

text \<open>What a handle has beside the queue: its name, its incarnation, the lock and the mapped segment.\<close>

record handle =
  h_name :: string
  h_inc :: string
  h_lock :: "nat option"
  h_seg :: segment
  h_cfg :: config
  h_queue :: Queue

text \<open>
  The process that makes a call: its identity, its exit watches and whether it has swept, the
  random bytes it gets, and what happens while it sweeps and while it locks the name.
\<close>

record 's caller =
  c_self :: procID
  c_watching :: "callback watches"
  c_swept :: bool
  c_entries :: "string list result"
  c_dials :: "string \<Rightarrow> ipc_error option"
  c_sweeps :: "string \<Rightarrow> 's kernel lock_round list"
  c_locking :: "'s kernel lock_round list"
  c_rand :: "bytes result"

section \<open>Events\<close>

text \<open>The descriptor must be known to the poller; \<open>errors.Join\<close> makes the error one that is \<open>ErrNotPollable\<close>.\<close>

definition openFIFO :: "'s platform \<Rightarrow> 's kernel \<Rightarrow> string \<Rightarrow> eventImpl result" where
  "openFIFO p k path =
     (case fs_err k path of
        Some e \<Rightarrow> Inl (Wrap ''open'' e)
      | None \<Rightarrow>
          (case fs_files k path of
             None \<Rightarrow> Inl (Wrap ''open'' ErrNotExist)
           | Some (_, c) \<Rightarrow>
               (case poll_err p path of
                  Some e \<Rightarrow> Inl (Wrap ''has mode'' ErrNotPollable)
                | None \<Rightarrow> Inr (new_eventImpl (length c)))))"

text \<open>\<open>mkfifo\<close> of a path that exists is not an error here.\<close>

definition Mkfifo :: "'s kernel \<Rightarrow> string \<Rightarrow> 's kernel \<times> ipc_error option" where
  "Mkfifo k path = (case OpenFile k path of (k, Inl e) \<Rightarrow> (k, Some e) | (k, Inr _) \<Rightarrow> (k, None))"

definition createEventImpl :: "'s platform \<Rightarrow> 's kernel \<Rightarrow> string \<Rightarrow> 's kernel \<times> eventImpl result" where
  "createEventImpl p k name =
     (let path = eventPath name in
      case Remove k path of (k, rerr) \<Rightarrow>
        if (case rerr of Some e \<Rightarrow> \<not> errors_is e ErrNotExist | None \<Rightarrow> False) then (k, Inl (the rerr))
        else case Mkfifo k path of
               (k, Some e) \<Rightarrow> (k, Inl (Wrap ''mkfifo'' e))
             | (k, None) \<Rightarrow> (k, openFIFO p k path))"

definition CreateEvent :: "'s platform \<Rightarrow> 's kernel \<Rightarrow> string \<Rightarrow> 's kernel \<times> eventImpl result" where
  "CreateEvent p k name = (case validateName name of Some e \<Rightarrow> (k, Inl e) | None \<Rightarrow> createEventImpl p k name)"

definition OpenEvent :: "'s platform \<Rightarrow> 's kernel \<Rightarrow> string \<Rightarrow> eventImpl result" where
  "OpenEvent p k name = (case validateName name of Some e \<Rightarrow> Inl e | None \<Rightarrow> openFIFO p k (eventPath name))"

section \<open>Queues\<close>

definition newQueue :: "'s caller \<Rightarrow> Ring \<Rightarrow> eventImpl \<Rightarrow> eventImpl \<Rightarrow> bool \<Rightarrow> Queue" where
  "newQueue c rg ne nf rd =
     \<lparr>ring = rg, notEmpty = ne, notFull = nf, q_self = c_self c, reader = rd, q_idle = [], owned = [],
      peer = \<lparr>pw_id = noProc, pw_gone = False, pw_failed = None, pw_cancel = None\<rparr>,
      producers = \<lparr>cancels = [], pr_closed = False, pr_failed = None\<rparr>,
      q_closing = False, q_active = 0, q_drained = False, mapped = True, watching = c_watching c, spawned = []\<rparr>"

text \<open>
  \<open>build\<close> returns the incarnation it chose even when a later step fails, since \<open>unwind\<close>
  removes that instance; it is empty while none is chosen.
\<close>

definition build_instance :: "'s platform \<Rightarrow> 's kernel \<Rightarrow> string \<Rightarrow> config \<Rightarrow> procID \<Rightarrow>
    's kernel \<times> (segment \<times> Ring \<times> eventImpl \<times> eventImpl) result" where
  "build_instance p k inst cfg rd =
     (case CreateEvent p k (inst @ ''.ne'') of
        (k, Inl e) \<Rightarrow> (k, Inl e)
      | (k, Inr ne) \<Rightarrow>
     (case CreateEvent p k (inst @ ''.nf'') of
        (k, Inl e) \<Rightarrow> (k, Inl e)
      | (k, Inr nf) \<Rightarrow>
     (case shm_Create p (fs_shm k) inst (RingSize (nat (cfg_capacity cfg))) of
        (s, Inl e) \<Rightarrow> (k\<lparr>fs_shm := s\<rparr>, Inl e)
      | (s, Inr seg) \<Rightarrow>
     (case initRing seg rd of
        Inl e \<Rightarrow> (k\<lparr>fs_shm := s\<rparr>, Inl e)
      | Inr rg \<Rightarrow> (k\<lparr>fs_shm := shm_store p s inst (seg_of seg rg)\<rparr>, Inr (seg_of seg rg, rg, ne, nf))))))"

definition build :: "'s platform \<Rightarrow> 's caller \<Rightarrow> 's kernel \<Rightarrow> string \<Rightarrow> config \<Rightarrow> procID \<Rightarrow>
    's kernel \<times> string \<times> (segment \<times> Ring \<times> eventImpl \<times> eventImpl) result" where
  "build p c k name cfg rd =
     (let old = lock_previous k name in
      case (if old = [] then (k, None) else removeInstance p k name old) of
        (k, Some e) \<Rightarrow> (k, [], Inl e)
      | (k, None) \<Rightarrow>
     (case newIncarnation (c_rand c) of
        Inl e \<Rightarrow> (k, [], Inl e)
      | Inr inc \<Rightarrow>
     (case build_instance p k (instanceName name inc) cfg rd of
        (k, Inl e) \<Rightarrow> (k, inc, Inl e)
      | (k, Inr made) \<Rightarrow>
     (case publish k name inc of
        (k, Some e) \<Rightarrow> (k, inc, Inl e)
      | (k, None) \<Rightarrow> (k, inc, Inr made)))))"

definition unwind :: "'s platform \<Rightarrow> 's kernel \<Rightarrow> string \<Rightarrow> string \<Rightarrow> nat option \<Rightarrow> 's kernel" where
  "unwind p k name inc lock =
     (case lock of
        None \<Rightarrow> k
      | Some i \<Rightarrow> lock_release (if inc = [] then k else fst (removeInstance p k name inc)) i)"

definition createQueue :: "'s platform \<Rightarrow> 's caller \<Rightarrow> 's kernel \<Rightarrow> string \<Rightarrow> option_fn list \<Rightarrow> bool \<Rightarrow> ('s kernel \<times> handle result) option" where
  "createQueue p c k name opts later =
     (case validateName name of
        Some e \<Rightarrow> Some (k, Inl e)
      | None \<Rightarrow>
     (case apply_opts defaultConfig opts of
        (cfg, Some e) \<Rightarrow> Some (k, Inl e)
      | (cfg, None) \<Rightarrow>
     (case sweepStale p (c_dials c) (c_sweeps c) (c_swept c) k (c_entries c) of
        None \<Rightarrow> None
      | Some (_, k) \<Rightarrow>
     (case lockName (c_locking c) k name of
        None \<Rightarrow> None
      | Some (k, Inl e) \<Rightarrow> Some (k, Inl (Wrap ''ipc: create queue'' e))
      | Some (k, Inr i) \<Rightarrow>
     (case build p c k name cfg (if later then pendingProc else c_self c) of
        (k, inc, Inl e) \<Rightarrow> Some (unwind p k name inc (Some i), Inl (Wrap ''ipc: create queue'' e))
      | (k, inc, Inr (seg, rg, ne, nf)) \<Rightarrow>
          Some (k, Inr \<lparr>h_name = name, h_inc = inc, h_lock = Some i, h_seg = seg, h_cfg = cfg,
                        h_queue = newQueue c rg ne nf (\<not> later)\<rparr>))))))"

definition CreateQueue :: "'s platform \<Rightarrow> 's caller \<Rightarrow> 's kernel \<Rightarrow> string \<Rightarrow> option_fn list \<Rightarrow> ('s kernel \<times> handle result) option" where
  "CreateQueue p c k name opts = createQueue p c k name opts False"

definition attach :: "'s platform \<Rightarrow> 's kernel \<Rightarrow> string \<Rightarrow> (segment \<times> Ring \<times> eventImpl \<times> eventImpl) result" where
  "attach p k inst =
     (case shm_Open p (fs_shm k) inst of
        Inl e \<Rightarrow> Inl e
      | Inr seg \<Rightarrow>
     (case AttachRing seg of
        Inl e \<Rightarrow> Inl e
      | Inr rg \<Rightarrow>
     (case OpenEvent p k (inst @ ''.ne'') of
        Inl e \<Rightarrow> Inl e
      | Inr ne \<Rightarrow>
     (case OpenEvent p k (inst @ ''.nf'') of
        Inl e \<Rightarrow> Inl e
      | Inr nf \<Rightarrow> Inr (seg, rg, ne, nf)))))"

definition openQueue :: "'s platform \<Rightarrow> 's caller \<Rightarrow> 's kernel \<Rightarrow> string \<Rightarrow> option_fn list \<Rightarrow> 's kernel \<times> handle result" where
  "openQueue p c k name opts =
     (case validateName name of
        Some e \<Rightarrow> (k, Inl e)
      | None \<Rightarrow>
     (case apply_opts defaultConfig opts of
        (cfg, Some e) \<Rightarrow> (k, Inl e)
      | (cfg, None) \<Rightarrow>
     (case readName k name of
        Inl e \<Rightarrow> (k, Inl (Wrap ''ipc: open queue'' e))
      | Inr inc \<Rightarrow>
     (case attach p k (instanceName name inc) of
        Inl e \<Rightarrow> (unwind p k name inc None, Inl (Wrap ''ipc: open queue'' e))
      | Inr (seg, rg, ne, nf) \<Rightarrow>
          (k, Inr \<lparr>h_name = name, h_inc = inc, h_lock = None, h_seg = seg,
                   h_cfg = cfg\<lparr>cfg_capacity := int (Capacity rg)\<rparr>, h_queue = newQueue c rg ne nf False\<rparr>)))))"

text \<open>
  What a process wrote to the memory of a segment and to its FIFOs is what the kernel holds
  for everyone; a FIFO that lost its name is out of reach of a later open.
\<close>

definition put_tokens :: "'s kernel \<Rightarrow> string \<Rightarrow> eventImpl \<Rightarrow> 's kernel" where
  "put_tokens k path e =
     (case fs_files k path of None \<Rightarrow> k | Some (i, _) \<Rightarrow> set_file k path (Some (i, replicate (tokens e) CHR 0x00)))"

definition share :: "'s platform \<Rightarrow> 's kernel \<Rightarrow> handle \<Rightarrow> 's kernel" where
  "share p k h =
     (let inst = instanceName (h_name h) (h_inc h); q = h_queue h in
      put_tokens (put_tokens (k\<lparr>fs_shm := shm_store p (fs_shm k) inst (seg_of (h_seg h) (ring q))\<rparr>)
        (eventPath (inst @ ''.ne'')) (notEmpty q)) (eventPath (inst @ ''.nf'')) (notFull q))"

text \<open>\<open>Close\<close> of a handle: the queue closes and the lock, if there is one, is released.\<close>

definition close_handle :: "env \<Rightarrow> 's platform \<Rightarrow> 's kernel \<Rightarrow> handle \<Rightarrow> ('s kernel \<times> handle \<times> ipc_error option) option" where
  "close_handle v p k h =
     (case Close v None None (h_queue h) of
        None \<Rightarrow> None
      | Some (q, err) \<Rightarrow>
          let h = h\<lparr>h_queue := q\<rparr>;
              k = share p k h
          in Some (case h_lock h of None \<Rightarrow> k | Some i \<Rightarrow> lock_release k i, h, err))"

definition OpenQueue :: "env \<Rightarrow> 's platform \<Rightarrow> 's caller \<Rightarrow> 's kernel \<Rightarrow> string \<Rightarrow> option_fn list \<Rightarrow> ('s kernel \<times> handle result) option" where
  "OpenQueue v p c k name opts =
     (case openQueue p c k name opts of
        (k, Inl e) \<Rightarrow> Some (k, Inl e)
      | (k, Inr h) \<Rightarrow>
          (case checkPeer v (h_queue h) of
             (q, None) \<Rightarrow> Some (k, Inr (h\<lparr>h_queue := q\<rparr>))
           | (q, Some e) \<Rightarrow>
               map_option (\<lambda>(k, _). (k, Inl (Wrap ''ipc: open queue'' e))) (close_handle v p k (h\<lparr>h_queue := q\<rparr>))))"

definition Queue_Unlink :: "'s platform \<Rightarrow> ('s kernel \<Rightarrow> 's kernel) \<Rightarrow> 's kernel \<Rightarrow> handle \<Rightarrow> 's kernel \<times> ipc_error option" where
  "Queue_Unlink p between k h =
     (case removeInstance p k (h_name h) (h_inc h) of (k, err) \<Rightarrow>
      case unlinkName between k (h_name h) (h_inc h) of (k, uerr) \<Rightarrow> (k, first_err err uerr))"

section \<open>Channels and connections\<close>

text \<open>
  The handles of the two directions. Creating them takes two calls, so there is a caller for each.
\<close>

record chan_handle =
  tx_handle :: handle
  rx_handle :: handle
  the_chan :: Channel

definition chanCreatorToOpener :: string where "chanCreatorToOpener = ''.c2o''"

definition chanOpenerToCreator :: string where "chanOpenerToCreator = ''.o2c''"

definition new_chan :: "string \<Rightarrow> handle \<Rightarrow> handle \<Rightarrow> bool \<Rightarrow> chan_handle" where
  "new_chan name t r owner =
     \<lparr>tx_handle = t, rx_handle = r, the_chan = newChannel name (h_queue t) (h_queue r) owner\<rparr>"

definition CreateChannel :: "env \<Rightarrow> 's platform \<Rightarrow> 's caller \<times> 's caller \<Rightarrow> ('s kernel \<Rightarrow> 's kernel) \<Rightarrow> 's kernel \<Rightarrow>
    string \<Rightarrow> option_fn list \<Rightarrow> ('s kernel \<times> chan_handle result) option" where
  "CreateChannel v p cs between k name opts =
     (case validateName name of
        Some e \<Rightarrow> Some (k, Inl e)
      | None \<Rightarrow>
     (case createQueue p (fst cs) k (name @ chanCreatorToOpener) opts True of
        None \<Rightarrow> None
      | Some (k, Inl e) \<Rightarrow> Some (k, Inl e)
      | Some (k, Inr t) \<Rightarrow>
     (case createQueue p (snd cs) k (name @ chanOpenerToCreator) opts False of
        None \<Rightarrow> None
      | Some (k, Inl e) \<Rightarrow>
          (case close_handle v p k t of
             None \<Rightarrow> None
           | Some (k, t, _) \<Rightarrow> Some (fst (Queue_Unlink p between k t), Inl e))
      | Some (k, Inr r) \<Rightarrow> Some (k, Inr (new_chan name t r True)))))"

text \<open>The compare-and-swap that makes the opener the reader of its direction.\<close>

definition cas_consumer :: "procID \<Rightarrow> procID \<Rightarrow> Queue \<Rightarrow> Queue \<times> bool" where
  "cas_consumer old new q =
     (if consumer (hdr (ring q)) = old then (upd_ring (\<lambda>r. r\<lparr>hdr := (hdr r)\<lparr>consumer := new\<rparr>\<rparr>) q, True) else (q, False))"

definition OpenChannel :: "env \<Rightarrow> 's platform \<Rightarrow> 's caller \<Rightarrow> 's kernel \<Rightarrow> string \<Rightarrow> option_fn list \<Rightarrow> ('s kernel \<times> chan_handle result) option" where
  "OpenChannel v p c k name opts =
     (case validateName name of
        Some e \<Rightarrow> Some (k, Inl e)
      | None \<Rightarrow>
     (case OpenQueue v p c k (name @ chanOpenerToCreator) opts of
        None \<Rightarrow> None
      | Some (k, Inl e) \<Rightarrow> Some (k, Inl e)
      | Some (k, Inr t) \<Rightarrow>
     (case openQueue p (c\<lparr>c_watching := watching (h_queue t)\<rparr>) k (name @ chanCreatorToOpener) opts of
        (k, Inl e) \<Rightarrow> map_option (\<lambda>(k, _). (k, Inl e)) (close_handle v p k t)
      | (k, Inr r) \<Rightarrow>
     (case cas_consumer pendingProc (q_self (h_queue r)) (h_queue r) of
        (_, False) \<Rightarrow>
          (case close_handle v p k r of
             None \<Rightarrow> None
           | Some (k, _) \<Rightarrow> map_option (\<lambda>(k, _). (k, Inl (Wrap ''ipc: open channel'' ErrInUse))) (close_handle v p k t))
      | (q, True) \<Rightarrow>
          let tq = (h_queue t)\<lparr>notEmpty := fst (Signal (pipe_of v) (notEmpty (h_queue t)))\<rparr>;
              rq = wakeSenders v (q\<lparr>reader := True\<rparr>);
              t = t\<lparr>h_queue := tq\<rparr>;
              r = r\<lparr>h_queue := rq\<rparr>
          in Some (share p (share p k t) r, Inr (new_chan name t r False))))))"

definition Channel_Unlink :: "'s platform \<Rightarrow> ('s kernel \<Rightarrow> 's kernel) \<Rightarrow> 's kernel \<Rightarrow> chan_handle \<Rightarrow> 's kernel \<times> ipc_error option" where
  "Channel_Unlink p between k c =
     (case Queue_Unlink p between k (tx_handle c) of (k, err) \<Rightarrow>
      case Queue_Unlink p between k (rx_handle c) of (k, uerr) \<Rightarrow> (k, first_err err uerr))"

definition Listen :: "env \<Rightarrow> 's platform \<Rightarrow> 's caller \<times> 's caller \<Rightarrow> ('s kernel \<Rightarrow> 's kernel) \<Rightarrow> 's kernel \<Rightarrow>
    string \<Rightarrow> option_fn list \<Rightarrow> ('s kernel \<times> (chan_handle \<times> Conn) result) option" where
  "Listen v p cs between k name opts =
     (case CreateChannel v p cs between k name opts of
        None \<Rightarrow> None
      | Some (k, Inl e) \<Rightarrow> Some (k, Inl e)
      | Some (k, Inr c) \<Rightarrow> Some (k, Inr (c, newConn (the_chan c) name)))"

definition Dial :: "env \<Rightarrow> 's platform \<Rightarrow> 's caller \<Rightarrow> 's kernel \<Rightarrow> string \<Rightarrow> option_fn list \<Rightarrow>
    ('s kernel \<times> (chan_handle \<times> Conn) result) option" where
  "Dial v p c k name opts =
     (case OpenChannel v p c k name opts of
        None \<Rightarrow> None
      | Some (k, Inl e) \<Rightarrow> Some (k, Inl e)
      | Some (k, Inr d) \<Rightarrow> Some (k, Inr (d, newConn (the_chan d) name)))"

definition Conn_Unlink :: "'s platform \<Rightarrow> ('s kernel \<Rightarrow> 's kernel) \<Rightarrow> 's kernel \<Rightarrow> chan_handle \<times> Conn \<Rightarrow> 's kernel \<times> ipc_error option" where
  "Conn_Unlink p between k c = Channel_Unlink p between k (fst c)"

end
