(* ===== verification/Endpoint_Props.thy ===== *)
theory Endpoint_Props
  imports Endpoint Queue_Props
begin

text \<open>
  What creating and opening promise: a queue that one process creates is the queue another
  process opens, and only one process can open a channel.
\<close>

section \<open>The segments\<close>

text \<open>
  The documented behaviour of \<^verbatim>\<open>go-shm\<close>: a segment that was created is as long as asked for and
  page-aligned, an open finds the segment of that name, and what is written to its memory is
  seen by every later open of it and of no other segment.
\<close>

definition shm_creates :: "'s platform \<Rightarrow> bool" where
  "shm_creates p \<longleftrightarrow>
     (\<forall>s n len s' seg. shm_Create p s n len = (s', Inr seg) \<longrightarrow>
        seg_len seg = len \<and> seg_addr seg mod 8 = 0 \<and> shm_Open p s' n = Inr seg)"

definition shm_memory :: "'s platform \<Rightarrow> bool" where
  "shm_memory p \<longleftrightarrow>
     (\<forall>s n seg seg'. shm_Open p s n = Inr seg \<and> seg_len seg' = seg_len seg \<and> seg_addr seg' = seg_addr seg \<longrightarrow>
        shm_Open p (shm_store p s n seg') n = Inr seg') \<and>
     (\<forall>s a b seg. a \<noteq> b \<longrightarrow> shm_Open p (shm_store p s a seg) b = shm_Open p s b)"

text \<open>
  What a run in which nothing fails needs of the host, beyond that documentation: room for
  segments of the length asked for, removals that fail at most because the segment is gone, and
  FIFOs that the poller takes.
\<close>

definition pollable :: "'s platform \<Rightarrow> bool" where
  "pollable p \<longleftrightarrow> (\<forall>path. poll_err p path = None)"

definition host_serves :: "'s platform \<Rightarrow> nat \<Rightarrow> bool" where
  "host_serves p len \<longleftrightarrow> pollable p \<and>
     (\<forall>s n. \<exists>s' seg. shm_Create p s n len = (s', Inr seg)) \<and>
     (\<forall>s n. snd (shm_Unlink p s n) = None \<or> snd (shm_Unlink p s n) = Some ErrNotExist)"

definition shm_works :: "'s platform \<Rightarrow> config \<Rightarrow> bool" where
  "shm_works p cfg \<longleftrightarrow> shm_creates p \<and> host_serves p (RingSize (nat (cfg_capacity cfg)))"

lemma demo_platform_works: "shm_memory demo_platform" "shm_works demo_platform cfg" "pollable demo_platform"
  by (simp_all add: shm_memory_def shm_works_def shm_creates_def host_serves_def pollable_def demo_platform_def Let_def)

lemma shm_works_pollable: "shm_works p cfg \<Longrightarrow> pollable p"
  by (simp add: shm_works_def host_serves_def)

lemma Len64_pow2: "Len64 (2 ^ n) = Suc n"
proof (induction n)
  case 0
  show ?case by (simp add: Len64.simps)
next
  case (Suc n)
  then show ?case by (subst Len64.simps) simp
qed

text \<open>The ring of a queue has the capacity that was asked for.\<close>

lemma apply_capacity:
  assumes "apply_opts cfg0 opts = (cfg, None)"
  shows "int MinCapacity \<le> cfg_capacity cfg" "\<exists>n. nat (cfg_capacity cfg) = 2 ^ n"
proof -
  let ?c = "cfg_capacity cfg"
  have c: "int MinCapacity \<le> ?c" "?c AND (?c - 1) = 0"
    using assms by (auto simp: apply_opts_def Let_def split: if_splits)
  then show "int MinCapacity \<le> ?c" by simp
  have pos: "0 < ?c" using c by (simp add: MinCapacity_def)
  have "int (nat ?c AND (nat ?c - 1)) = ?c AND (?c - 1)"
    using pos by (simp add: of_nat_and_eq of_nat_diff nat_le_iff)
  then have "nat ?c AND (nat ?c - 1) = 0" using c(2) by simp
  then show "\<exists>n. nat ?c = 2 ^ n" using pos by (intro and_pred_pow2) auto
qed

lemma initRing_capacity:
  assumes "MinCapacity \<le> c" "c = 2 ^ n" "seg_len seg = RingSize c" "seg_addr seg mod 8 = 0"
  shows "\<exists>rg. initRing seg rd = Inr rg \<and> Capacity rg = c \<and> consumer (hdr rg) = rd"
proof -
  have "seg_len seg - HeaderSize = 2 ^ n" "\<not> seg_len seg < HeaderSize + MinCapacity"
    using assms by (auto simp: RingSize_def)
  then show ?thesis
    using assms by (simp add: initRing_def Let_def newRing_def Capacity_def Len64_pow2)
qed

section \<open>Creating\<close>

lemma CreateEvent_ok:
  assumes "validateName n = None" "fs_err k (eventPath n) = None" "pollable p"
  shows "\<exists>k' i. CreateEvent p k n = (k', Inr (new_eventImpl 0)) \<and> fs_files k' = (fs_files k)(eventPath n \<mapsto> (i, [])) \<and>
    fs_err k' = fs_err k \<and> fs_locked k' = fs_locked k \<and> fs_shm k' = fs_shm k"
  using assms
  by (auto simp: CreateEvent_def createEventImpl_def Remove_def Mkfifo_def OpenFile_def openFIFO_def pollable_def Let_def fun_eq_iff split: option.splits)

lemma hex_decode_digits: "hex_decode cs = Some bs \<Longrightarrow> c \<in> set cs \<Longrightarrow> digit_val 16 c \<noteq> None"
  by (induction cs arbitrary: bs rule: hex_decode.induct) (auto split: option.splits)

lemma validate_instance:
  assumes "validateName name = None" "parseIncarnation inc = Some inc" "set x \<inter> {CHR ''/'', CHR 0x5C} = {}"
  shows "validateName (instanceName name inc @ x) = None"
proof -
  obtain bs where "hex_decode inc = Some bs" using assms(2) by (auto simp: parseIncarnation_def split: if_splits option.splits)
  note d = hex_decode_digits [OF this]
  have "digit_val 16 CHR ''/'' = None" "digit_val 16 (CHR 0x5C) = None" by code_simp+
  then have i: "CHR ''/'' \<notin> set inc" "CHR 0x5C \<notin> set inc" by (metis d)+
  have l: "length inc = 16" using parseIncarnation_length [OF assms(2)] by (simp add: incarnationLen_def)
  then have "length (instanceName name inc @ x) > 2" by (simp add: instanceName_def)
  then have "instanceName name inc @ x \<noteq> y" if "length y \<le> 2" for y using that by auto
  from this [of "''.''"] this [of "''..''"] this [of "[]"]
  have "instanceName name inc @ x \<noteq> ''.''" "instanceName name inc @ x \<noteq> ''..''" "instanceName name inc @ x \<noteq> []" by simp_all
  then show ?thesis using assms(1,3) i by (auto simp: validateName_def instanceName_def split: if_splits)
qed

lemma unlinkEventImpl_frame:
  assumes "unlinkEventImpl p k n = (k', err)"
  shows "fs_err k' = fs_err k" "fs_locked k' = fs_locked k" "fs_files k' (namePath a) = fs_files k (namePath a)" "fs_shm k' = fs_shm k"
    "fs_err k = (\<lambda>_. None) \<Longrightarrow> err = None"
  using assms by (auto simp: unlinkEventImpl_def Remove_def split: option.splits prod.splits)

lemma shm_Unlink_works:
  assumes "shm_works p cfg" "shm_Unlink p s n = (s', err)"
  shows "err = None \<or> err = Some ErrNotExist"
proof -
  have "snd (shm_Unlink p s n) = None \<or> snd (shm_Unlink p s n) = Some ErrNotExist" using assms(1) by (simp add: shm_works_def host_serves_def)
  with assms(2) show ?thesis by simp
qed

lemma unlinkSegment_frame:
  assumes "unlinkSegment p k inst = (k', err)"
  shows "fs_err k' = fs_err k" "fs_locked k' = fs_locked k" "fs_files k' = fs_files k" "shm_works p cfg \<Longrightarrow> err = None"
proof -
  obtain s e where u: "shm_Unlink p (fs_shm k) inst = (s, e)" by fastforce
  with assms show "fs_err k' = fs_err k" "fs_locked k' = fs_locked k" "fs_files k' = fs_files k" by (auto simp: unlinkSegment_def)
  show "err = None" if "shm_works p cfg"
    using shm_Unlink_works [OF that u] assms u by (auto simp: unlinkSegment_def)
qed

lemma removeInstance_frame:
  assumes "removeInstance p k b binc = (k', err)"
  shows "fs_err k' = fs_err k \<and> fs_locked k' = fs_locked k \<and> fs_files k' (namePath a) = fs_files k (namePath a) \<and>
    (fs_err k = (\<lambda>_. None) \<longrightarrow> shm_works p cfg \<longrightarrow> err = None)"
proof -
  let ?i = "instanceName b binc"
  obtain k1 e1 where 1: "(case shm_Open p (fs_shm k) ?i of Inl _ \<Rightarrow> (k, None) | Inr _ \<Rightarrow> unlinkSegment p k ?i) = (k1, e1)" by fastforce
  obtain k2 e2 where 2: "unlinkEventImpl p k1 (?i @ ''.ne'') = (k2, e2)" by fastforce
  obtain k3 e3 where 3: "unlinkEventImpl p k2 (?i @ ''.nf'') = (k3, e3)" by fastforce
  have r: "k' = k3" "err = map_option (Wrap ''ipc: remove'') (first_err (first_err e1 e2) e3)"
    using assms unfolding removeInstance_def Let_def 1 prod.case 2 3 by simp_all
  have "(k1, e1) = (k, None) \<or> unlinkSegment p k ?i = (k1, e1)" using 1 by (auto split: sum.splits)
  then have "fs_err k1 = fs_err k \<and> fs_locked k1 = fs_locked k \<and> fs_files k1 = fs_files k \<and> (shm_works p cfg \<longrightarrow> e1 = None)"
    using unlinkSegment_frame [of p k ?i k1 e1] by (elim disjE) simp_all
  then have "fs_err k1 = fs_err k" "fs_locked k1 = fs_locked k" "fs_files k1 = fs_files k" "shm_works p cfg \<Longrightarrow> e1 = None" by simp_all
  note s1 = this and s2 = unlinkEventImpl_frame [OF 2] and s3 = unlinkEventImpl_frame [OF 3]
  have "fs_err k3 = fs_err k" "fs_locked k3 = fs_locked k" "fs_files k3 (namePath a) = fs_files k (namePath a)"
    using s1(1-3) s2(1-3) s3(1-3) by metis+
  moreover have "e1 = None \<and> e2 = None \<and> e3 = None" if "fs_err k = (\<lambda>_. None)" "shm_works p cfg"
    using s1(1,4) s2(1,5) s3(5) that by metis
  ultimately show ?thesis unfolding r by (metis first_err_simps(1) option.map_disc_iff)
qed

text \<open>The ring an instance gets: empty, of the capacity asked for, with its reader in the header.\<close>

definition new_ring :: "config \<Rightarrow> procID \<Rightarrow> Ring \<Rightarrow> bool" where
  "new_ring cfg rd rg \<longleftrightarrow>
     int (Capacity rg) = cfg_capacity cfg \<and> consumer (hdr rg) = rd \<and> (cfg_capacity cfg < 2 ^ 32 \<longrightarrow> ring_inv rg [])"

lemma build_instance_ok:
  assumes err: "fs_err k = (\<lambda>_. None)" and shm: "shm_works p cfg" "shm_memory p"
    and names: "validateName (inst @ ''.ne'') = None" "validateName (inst @ ''.nf'') = None"
    and cfg: "int MinCapacity \<le> cfg_capacity cfg" "nat (cfg_capacity cfg) = 2 ^ n"
  shows "\<exists>k' seg rg. build_instance p k inst cfg rd = (k', Inr (seg, rg, new_eventImpl 0, new_eventImpl 0)) \<and> new_ring cfg rd rg \<and>
    AttachRing seg = Inr rg \<and> shm_Open p (fs_shm k') inst = Inr seg \<and>
    fs_files k' (eventPath (inst @ ''.ne'')) \<noteq> None \<and> fs_files k' (eventPath (inst @ ''.nf'')) \<noteq> None \<and>
    fs_err k' = fs_err k \<and> fs_locked k' = fs_locked k \<and> (\<forall>a. fs_files k' (namePath a) = fs_files k (namePath a))"
proof -
  let ?c = "nat (cfg_capacity cfg)"
  obtain k1 i1 where 1: "CreateEvent p k (inst @ ''.ne'') = (k1, Inr (new_eventImpl 0))"
    "fs_files k1 = (fs_files k)(eventPath (inst @ ''.ne'') \<mapsto> (i1, []))" "fs_err k1 = fs_err k" "fs_locked k1 = fs_locked k"
    using CreateEvent_ok [OF names(1) _ shm_works_pollable [OF shm(1)], of k] err by auto
  obtain k2 i2 where 2: "CreateEvent p k1 (inst @ ''.nf'') = (k2, Inr (new_eventImpl 0))"
    "fs_files k2 = (fs_files k1)(eventPath (inst @ ''.nf'') \<mapsto> (i2, []))" "fs_err k2 = fs_err k1" "fs_locked k2 = fs_locked k1"
    using CreateEvent_ok [OF names(2) _ shm_works_pollable [OF shm(1)], of k1] err 1(3) by auto
  obtain s seg where 3: "shm_Create p (fs_shm k2) inst (RingSize ?c) = (s, Inr seg)" "seg_len seg = RingSize ?c"
    "seg_addr seg mod 8 = 0" "shm_Open p s inst = Inr seg"
    using shm(1) unfolding shm_works_def host_serves_def shm_creates_def by meson
  have min: "MinCapacity \<le> ?c" "0 \<le> cfg_capacity cfg" using cfg(1) by auto
  obtain rg where 4: "initRing seg rd = Inr rg" "Capacity rg = ?c" "consumer (hdr rg) = rd"
    using initRing_capacity [OF min(1) cfg(2) 3(2,3)] by blast
  have "ring_inv rg []" if "cfg_capacity cfg < 2 ^ 32"
    by (rule initRing_inv(1) [OF 4(1)]) (use 3(2) that min(2) in \<open>simp add: RingSize_def nat_less_iff\<close>)
  then have new: "new_ring cfg rd rg" using 4(2,3) min(2) by (simp add: new_ring_def)
  have o: "shm_Open p (shm_store p s inst (seg_of seg rg)) inst = Inr (seg_of seg rg)"
    using shm(2) 3(4) by (simp add: shm_memory_def seg_of_def)
  show ?thesis
    using new attach_init [OF 4(1)] o 1(2-4) 2(2-4) by (simp add: build_instance_def 1(1) 2(1) 3(1) 4(1))
qed

text \<open>The name points at a complete instance with the ring \<open>rg\<close>.\<close>

definition published :: "'s platform \<Rightarrow> 's kernel \<Rightarrow> string \<Rightarrow> string \<Rightarrow> Ring \<Rightarrow> bool" where
  "published p k name inc rg \<longleftrightarrow>
     (let inst = instanceName name inc in
      fs_files k (namePath name) \<noteq> None \<and> (\<exists>i. fs_files k (incPath name) = Some (i, inc)) \<and> parseIncarnation inc = Some inc \<and>
      fs_files k (eventPath (inst @ ''.ne'')) \<noteq> None \<and> fs_files k (eventPath (inst @ ''.nf'')) \<noteq> None \<and>
      (\<exists>seg. shm_Open p (fs_shm k) inst = Inr seg \<and> AttachRing seg = Inr rg))"

lemma published_footprint:
  assumes "published p k name inc rg" "footprint p name inc k' = footprint p name inc k"
  shows "published p k' name inc rg"
  using assms by (simp add: published_def footprint_def Let_def)

lemma published_opens:
  assumes "published p k name inc rg" "validateName name = None" "apply_opts defaultConfig opts = (cfg, None)" "fs_err k = (\<lambda>_. None)" "pollable p"
  shows "\<exists>g. openQueue p c k name opts = (k, Inr g) \<and> ring (h_queue g) = rg \<and> h_inc g = inc \<and> h_name g = name \<and> h_lock g = None \<and>
    cfg_capacity (h_cfg g) = int (Capacity rg) \<and> q_self (h_queue g) = c_self c \<and> \<not> reader (h_queue g)"
proof -
  let ?i = "instanceName name inc"
  obtain i seg where pub: "fs_files k (namePath name) \<noteq> None" "fs_files k (incPath name) = Some (i, inc)" "parseIncarnation inc = Some inc"
    "fs_files k (eventPath (?i @ ''.ne'')) \<noteq> None" "fs_files k (eventPath (?i @ ''.nf'')) \<noteq> None"
    "shm_Open p (fs_shm k) ?i = Inr seg" "AttachRing seg = Inr rg"
    using assms(1) by (auto simp: published_def Let_def)
  have r: "readName k name = Inr inc" by (rule readName_published [OF _ _ pub(3,1,2)]) (simp_all add: assms(4))
  have v: "validateName (?i @ ''.ne'') = None" "validateName (?i @ ''.nf'') = None"
    by (rule validate_instance [OF assms(2) pub(3)], simp)+
  obtain ne nf where e: "OpenEvent p k (?i @ ''.ne'') = Inr ne" "OpenEvent p k (?i @ ''.nf'') = Inr nf"
    using v pub(4,5) assms(4,5) by (auto simp: OpenEvent_def openFIFO_def pollable_def)
  have "attach p k ?i = Inr (seg, rg, ne, nf)" by (simp add: attach_def pub(6,7) e)
  then show ?thesis by (simp add: openQueue_def assms(2,3) r newQueue_def)
qed

lemma build_ok:
  assumes err: "fs_err k = (\<lambda>_. None)" and shm: "shm_works p cfg" "shm_memory p" and name: "validateName name = None"
    and rand: "c_rand c = Inr raw" "8 \<le> length raw"
    and cfg: "int MinCapacity \<le> cfg_capacity cfg" "nat (cfg_capacity cfg) = 2 ^ n"
    and lock: "fs_files k (namePath name) \<noteq> None"
  shows "\<exists>k' inc seg rg. build p c k name cfg rd = (k', inc, Inr (seg, rg, new_eventImpl 0, new_eventImpl 0)) \<and> new_ring cfg rd rg \<and>
    published p k' name inc rg \<and> fs_err k' = fs_err k \<and> fs_locked k' = fs_locked k \<and> fs_files k' (namePath name) = fs_files k (namePath name)"
proof -
  let ?old = "lock_previous k name"
  obtain k1 e where 1: "(if ?old = [] then (k, None) else removeInstance p k name ?old) = (k1, e)" by fastforce
  have k1: "e = None" "fs_err k1 = fs_err k" "fs_locked k1 = fs_locked k" "fs_files k1 (namePath name) = fs_files k (namePath name)"
    using 1 removeInstance_frame [of p k name ?old k1 e name] err shm(1) by (auto split: if_splits)
  obtain inc where inc: "newIncarnation (Inr raw) = Inr inc" by (simp add: newIncarnation_def)
  note parse = newIncarnation_parses [OF inc rand(2)]
  let ?i = "instanceName name inc"
  have v: "validateName (?i @ ''.ne'') = None" "validateName (?i @ ''.nf'') = None"
    by (rule validate_instance [OF name parse], simp)+
  obtain k2 seg rg where 2: "build_instance p k1 ?i cfg rd = (k2, Inr (seg, rg, new_eventImpl 0, new_eventImpl 0))" "new_ring cfg rd rg"
    "AttachRing seg = Inr rg" "shm_Open p (fs_shm k2) ?i = Inr seg"
    "fs_files k2 (eventPath (?i @ ''.ne'')) \<noteq> None" "fs_files k2 (eventPath (?i @ ''.nf'')) \<noteq> None"
    "fs_err k2 = fs_err k1" "fs_locked k2 = fs_locked k1" "fs_files k2 (namePath name) = fs_files k1 (namePath name)"
    using build_instance_ok [OF _ shm v cfg, of k1 rd] k1(2) err by metis
  obtain k3 i where 3: "publish k2 name inc = (k3, None)" "fs_files k3 (incPath name) = Some (i, inc)"
    "fs_err k3 = fs_err k2" "fs_locked k3 = fs_locked k2" "fs_shm k3 = fs_shm k2" "\<And>q. q \<noteq> incPath name \<Longrightarrow> fs_files k3 q = fs_files k2 q"
    using publish_ok [OF _ parse, of k2 name] 2(7) k1(2) err by metis
  have b: "build p c k name cfg rd = (k3, inc, Inr (seg, rg, new_eventImpl 0, new_eventImpl 0))"
    by (simp add: build_def Let_def 1 k1(1) rand(1) inc 2(1) 3(1))
  have "published p k3 name inc rg"
    using 2 3 parse lock k1(4) by (auto simp: published_def Let_def)
  with b 2 3 k1 show ?thesis by auto
qed

text \<open>What a call of a process that can create a queue has: random bytes, and a lock taken undisturbed.\<close>

definition calm :: "'s caller \<Rightarrow> bool" where
  "calm c \<longleftrightarrow> c_swept c \<and> (\<exists>ws. c_locking c = quiet_round # ws) \<and> (\<exists>raw. c_rand c = Inr raw \<and> 8 \<le> length raw)"

lemma createQueue_ok:
  assumes "fs_err k = (\<lambda>_. None)" "\<not> fs_locked k (fs_fresh k)" "\<not> held name k" "shm_works p cfg" "shm_memory p"
    and "validateName name = None" "apply_opts defaultConfig opts = (cfg, None)" "calm c"
  shows "\<exists>k' h. createQueue p c k name opts later = Some (k', Inr h) \<and> h_name h = name \<and>
    new_ring cfg (if later then pendingProc else c_self c) (ring (h_queue h)) \<and> reader (h_queue h) = (\<not> later) \<and>
    published p k' name (h_inc h) (ring (h_queue h)) \<and> held name k' \<and> fs_err k' = (\<lambda>_. None) \<and>
    h_queue h = newQueue c (ring (h_queue h)) (new_eventImpl 0) (new_eventImpl 0) (\<not> later)"
proof -
  let ?rd = "if later then pendingProc else c_self c"
  obtain ws raw where c: "c_swept c" "c_locking c = quiet_round # ws" "c_rand c = Inr raw" "8 \<le> length raw"
    using assms(8) by (auto simp: calm_def)
  obtain k1 i s where l: "lockName (quiet_round # ws) k name = Some (k1, Inr i)" "fs_files k1 (namePath name) = Some (i, s)"
    "fs_locked k1 i" "fs_err k1 = fs_err k"
    using lock_free [OF assms(3) _ assms(2)] assms(1) by metis
  obtain n where n: "int MinCapacity \<le> cfg_capacity cfg" "nat (cfg_capacity cfg) = 2 ^ n"
    using apply_capacity [OF assms(7)] by blast
  obtain k2 inc seg rg where b: "build p c k1 name cfg ?rd = (k2, inc, Inr (seg, rg, new_eventImpl 0, new_eventImpl 0))"
    "new_ring cfg ?rd rg" "published p k2 name inc rg" "fs_err k2 = fs_err k1" "fs_locked k2 = fs_locked k1"
    "fs_files k2 (namePath name) = fs_files k1 (namePath name)"
    using build_ok [OF _ assms(4,5,6) c(3,4) n, of k1 ?rd] l assms(1) by force
  have "createQueue p c k name opts later =
      Some (k2, Inr \<lparr>h_name = name, h_inc = inc, h_lock = Some i, h_seg = seg, h_cfg = cfg,
        h_queue = newQueue c rg (new_eventImpl 0) (new_eventImpl 0) (\<not> later)\<rparr>)"
    unfolding createQueue_def assms(6,7) sweepStale_def using c(1) by (simp only: c(2) l(1) b(1) if_True option.case prod.case sum.case)
  with b l assms(1) show ?thesis by (simp add: newQueue_def held_def)
qed

section \<open>Creating and opening a queue\<close>

definition demo_caller :: "procID \<Rightarrow> (string \<Rightarrow> segment option) caller" where
  "demo_caller pid =
     \<lparr>c_self = pid, c_watching = no_watches, c_swept = True, c_entries = Inr [], c_dials = (\<lambda>_. None), c_sweeps = (\<lambda>_. []),
      c_locking = [quiet_round], c_rand = Inr [1, 2, 3, 4, 5, 6, 7, 8]\<rparr>"

lemma demo_caller_calm: "calm (demo_caller pid)"
  by (simp add: calm_def demo_caller_def)

lemma default_opts:
  "apply_opts defaultConfig [] = (defaultConfig, None)"
  "apply_opts defaultConfig [WithCapacity 4096] = (\<lparr>cfg_capacity = 4096\<rparr>, None)"
  by code_simp+

text \<open>
  C38: A process that creates a queue under a free name gets an empty ring of the capacity it
  asked for, holds the name, and is the reader. Whoever opens the name afterwards, as long as
  nobody touches what belongs to it, attaches to that same ring as a sender; the capacity its
  handle reports is the one of the creator, not one of its own options.
\<close>

theorem create_open:
  assumes "fs_err k = (\<lambda>_. None)" "\<not> fs_locked k (fs_fresh k)" "\<not> held name k" "shm_works p cfg" "shm_memory p"
    and "validateName name = None" "apply_opts defaultConfig opts = (cfg, None)" "calm c"
    and "apply_opts defaultConfig opts' = (cfg', None)"
  shows "\<exists>k' h. CreateQueue p c k name opts = Some (k', Inr h) \<and> held name k' \<and> reader (h_queue h) \<and>
    new_ring cfg (c_self c) (ring (h_queue h)) \<and>
    (\<forall>k''. footprint p name (h_inc h) k'' = footprint p name (h_inc h) k' \<and> fs_err k'' = fs_err k' \<longrightarrow>
      (\<exists>g. openQueue p c' k'' name opts' = (k'', Inr g) \<and> ring (h_queue g) = ring (h_queue h) \<and> h_inc g = h_inc h \<and>
        q_self (h_queue g) = c_self c' \<and> \<not> reader (h_queue g) \<and> cfg_capacity (h_cfg g) = cfg_capacity cfg))"
proof -
  obtain k' h where h: "createQueue p c k name opts False = Some (k', Inr h)" "new_ring cfg (c_self c) (ring (h_queue h))"
    "reader (h_queue h)" "published p k' name (h_inc h) (ring (h_queue h))" "held name k'" "fs_err k' = (\<lambda>_. None)"
    using createQueue_ok [OF assms(1-8), of False] by auto
  have "\<exists>g. openQueue p c' k'' name opts' = (k'', Inr g) \<and> ring (h_queue g) = ring (h_queue h) \<and> h_inc g = h_inc h \<and>
        q_self (h_queue g) = c_self c' \<and> \<not> reader (h_queue g) \<and> cfg_capacity (h_cfg g) = cfg_capacity cfg"
    if "footprint p name (h_inc h) k'' = footprint p name (h_inc h) k'" "fs_err k'' = fs_err k'" for k''
    using published_opens [OF published_footprint [OF h(4) that(1)] assms(6,9) _ shm_works_pollable [OF assms(4)], of c'] that(2) h(2,6)
    by (auto simp: new_ring_def)
  with h show ?thesis unfolding CreateQueue_def by blast
qed

lemma demo_free: "\<not> held ''b'' demo_kernel" "\<not> held ''c'' demo_kernel" "validateName ''b'' = None" "\<not> fs_locked demo_kernel (fs_fresh demo_kernel)"
  by (simp_all add: held_def demo_kernel_simps validateName_def)

theorem create_open_witness:
  "\<exists>k' h g. CreateQueue demo_platform (demo_caller 7) demo_kernel ''b'' [WithCapacity 4096] = Some (k', Inr h) \<and> held ''b'' k' \<and>
    openQueue demo_platform (demo_caller 8) k' ''b'' [] = (k', Inr g) \<and> ring (h_queue g) = ring (h_queue h) \<and>
    ring_inv (ring (h_queue g)) [] \<and> consumer (hdr (ring (h_queue g))) = 7"
proof -
  from create_open [OF _ demo_free(4,1) demo_platform_works(2,1) demo_free(3) default_opts(2) demo_caller_calm [of 7] default_opts(1), of "demo_caller 8"]
  obtain k' h where h: "CreateQueue demo_platform (demo_caller 7) demo_kernel ''b'' [WithCapacity 4096] = Some (k', Inr h)" "held ''b'' k'"
    "new_ring \<lparr>cfg_capacity = 4096\<rparr> (c_self (demo_caller 7)) (ring (h_queue h))"
    "\<exists>g. openQueue demo_platform (demo_caller 8) k' ''b'' [] = (k', Inr g) \<and> ring (h_queue g) = ring (h_queue h)"
    by (auto simp: demo_kernel_simps)
  from h(3) have "ring_inv (ring (h_queue h)) []" "consumer (hdr (ring (h_queue h))) = 7"
    by (simp_all add: new_ring_def demo_caller_def)
  with h(1,2,4) show ?thesis by metis
qed

section \<open>Opening a channel\<close>

lemma openQueue_inv:
  assumes "openQueue p c k name opts = (k', Inr g)"
  shows "k' = k" "h_name g = name" "readName k name = Inr (h_inc g)" "h_lock g = None"
    "shm_Open p (fs_shm k) (instanceName name (h_inc g)) = Inr (h_seg g)" "AttachRing (h_seg g) = Inr (ring (h_queue g))"
    "q_self (h_queue g) = c_self c" "q_active (h_queue g) = 0" "\<not> q_closing (h_queue g)"
  using assms by (auto simp: openQueue_def attach_def newQueue_def split: option.splits prod.splits sum.splits)

lemma close_handle_returns:
  assumes "q_active (h_queue h) \<le> 0"
  shows "\<exists>k' h' err. close_handle v p k h = Some (k', h', err)"
proof -
  obtain q1 e where b: "close_begin v (h_queue h) = (q1, e)" by fastforce
  have "Close v None None (h_queue h) \<noteq> None"
    using close_begin_fields(4) [OF b] assms by (simp add: Close_def b)
  then show ?thesis by (auto simp: close_handle_def Let_def)
qed

lemma OpenQueue_inv:
  assumes "OpenQueue v p c k name opts = Some (k', Inr g)"
  shows "k' = k" "q_active (h_queue g) = 0" "h_name g = name" "readName k name = Inr (h_inc g)"
proof -
  obtain k1 g1 where o: "openQueue p c k name opts = (k1, Inr g1)"
    using assms by (auto simp: OpenQueue_def split: prod.splits sum.splits)
  obtain q e where ch: "checkPeer v (h_queue g1) = (q, e)" by fastforce
  have g: "k' = k1" "g = g1\<lparr>h_queue := q\<rparr>" using assms o ch by (auto simp: OpenQueue_def split: option.splits)
  show "k' = k" "q_active (h_queue g) = 0" "h_name g = name" "readName k name = Inr (h_inc g)"
    using openQueue_inv [OF o] core_eqD(9) [OF core_checkPeer [OF ch]] g by simp_all
qed

lemma OpenQueue_returns: "\<exists>k' res. OpenQueue v p c k name opts = Some (k', res)"
proof -
  obtain k1 res where o: "openQueue p c k name opts = (k1, res)" by fastforce
  show ?thesis
  proof (cases res)
    case (Inl e)
    with o show ?thesis by (simp add: OpenQueue_def)
  next
    case (Inr g)
    obtain q e where ch: "checkPeer v (h_queue g) = (q, e)" by fastforce
    have "q_active (h_queue (g\<lparr>h_queue := q\<rparr>)) \<le> 0"
      using openQueue_inv(8) [OF o [unfolded Inr]] core_eqD(9) [OF core_checkPeer [OF ch]] by simp
    from close_handle_returns [OF this, of v p k1] show ?thesis
      by (cases e) (auto simp: OpenQueue_def o Inr ch)
  qed
qed

lemma put_tokens_simps [simp]:
  "fs_err (put_tokens k q e) = fs_err k" "fs_shm (put_tokens k q e) = fs_shm k" "fs_locked (put_tokens k q e) = fs_locked k"
  "a \<noteq> q \<Longrightarrow> fs_files (put_tokens k q e) a = fs_files k a"
  by (auto simp: put_tokens_def split: option.splits)

lemma share_simps [simp]:
  "fs_err (share p k h) = fs_err k" "fs_locked (share p k h) = fs_locked k"
  "fs_files (share p k h) (namePath a) = fs_files k (namePath a)" "fs_files (share p k h) (incPath a) = fs_files k (incPath a)"
  "fs_shm (share p k h) = shm_store p (fs_shm k) (instanceName (h_name h) (h_inc h)) (seg_of (h_seg h) (ring (h_queue h)))"
  by (simp_all add: share_def Let_def)

lemma readName_share [simp]: "readName (share p k h) a = readName k a"
  unfolding readName_def Stat_def ReadFile_def share_simps ..

lemma attach_consumer:
  assumes "AttachRing seg = Inr r"
  shows "AttachRing (seg_of seg (r\<lparr>hdr := (hdr r)\<lparr>consumer := pid\<rparr>\<rparr>)) = Inr (r\<lparr>hdr := (hdr r)\<lparr>consumer := pid\<rparr>\<rparr>)"
  using assms by (auto simp: AttachRing_def seg_of_def newRing_def Let_def split: if_splits)

lemma readName_length: "readName k name = Inr inc \<Longrightarrow> length inc = incarnationLen"
  by (auto simp: readName_def Let_def dest: parseIncarnation_length split: if_splits sum.splits option.splits)

text \<open>The state another process finds after a channel was opened: the direction to the opener has its reader.\<close>

lemma OpenChannel_takes:
  assumes "OpenChannel v p c k name opts = Some (k', Inr d)" "shm_memory p"
  shows "\<exists>inc seg r. readName k' (name @ chanCreatorToOpener) = Inr inc \<and>
    shm_Open p (fs_shm k') (instanceName (name @ chanCreatorToOpener) inc) = Inr seg \<and> AttachRing seg = Inr r \<and>
    consumer (hdr r) = c_self c \<and> ring (rx (the_chan d)) = r \<and> reader (rx (the_chan d))"
proof -
  let ?n = "name @ chanCreatorToOpener"
  obtain k1 t where t: "OpenQueue v p c k (name @ chanOpenerToCreator) opts = Some (k1, Inr t)"
    using assms(1) by (auto simp: OpenChannel_def split: option.splits sum.splits)
  obtain k2 r where r: "openQueue p (c\<lparr>c_watching := watching (h_queue t)\<rparr>) k1 ?n opts = (k2, Inr r)"
    using assms(1) t by (auto simp: OpenChannel_def split: option.splits prod.splits sum.splits)
  note ri = openQueue_inv [OF r]
  let ?t = "t\<lparr>h_queue := (h_queue t)\<lparr>notEmpty := fst (Signal (pipe_of v) (notEmpty (h_queue t)))\<rparr>\<rparr>"
  let ?rg = "(ring (h_queue r))\<lparr>hdr := (hdr (ring (h_queue r)))\<lparr>consumer := c_self c\<rparr>\<rparr>"
  let ?r = "r\<lparr>h_queue := wakeSenders v ((h_queue r)\<lparr>ring := ?rg, reader := True\<rparr>)\<rparr>"
  have ok: "k' = share p (share p k2 ?t) ?r" "rx (the_chan d) = h_queue ?r"
    using assms(1) t r ri(7)
    by (auto simp: OpenChannel_def cas_consumer_def upd_ring_def Let_def new_chan_def newChannel_def split: option.splits prod.splits if_splits)
  have ring_r: "ring (h_queue ?r) = ?rg" "reader (h_queue ?r)"
    by (simp_all add: wakeSenders_def Let_def)
  let ?i = "instanceName ?n (h_inc r)"
  let ?s = "shm_store p (fs_shm k2) (instanceName (h_name t) (h_inc t)) (seg_of (h_seg t) (ring (h_queue t)))"
  note ti = OpenQueue_inv [OF t]
  have "instanceName (h_name t) (h_inc t) \<noteq> ?i"
    using ti(1,3,4) ri(3) by (simp add: instanceName_inj readName_length chanCreatorToOpener_def chanOpenerToCreator_def)
  then have "shm_Open p ?s ?i = Inr (h_seg r)"
    using assms(2) ri(1,5) unfolding shm_memory_def by metis
  moreover have "seg_len (seg_of (h_seg r) ?rg) = seg_len (h_seg r)" "seg_addr (seg_of (h_seg r) ?rg) = seg_addr (h_seg r)"
    by (simp_all add: seg_of_def)
  ultimately have "shm_Open p (shm_store p ?s ?i (seg_of (h_seg r) ?rg)) ?i = Inr (seg_of (h_seg r) ?rg)"
    using assms(2) unfolding shm_memory_def by metis
  then have s: "shm_Open p (fs_shm k') ?i = Inr (seg_of (h_seg r) ?rg)"
    unfolding ok(1) by (simp add: ri(2) ring_r)
  have n: "readName k' ?n = Inr (h_inc r)" using ri(1,3) ok(1) by simp
  show ?thesis
    using n s attach_consumer [OF ri(6), of "c_self c"] ok(2) ring_r by (intro exI [of _ "h_inc r"] exI [of _ "seg_of (h_seg r) ?rg"] exI [of _ ?rg]) simp
qed

section \<open>Creating a channel\<close>

text \<open>
  The file system itself: inodes are not shared between paths, new ones are new, and a lock is
  on a file.
\<close>

definition fs_sound :: "'s kernel \<Rightarrow> bool" where
  "fs_sound k \<longleftrightarrow>
     (\<forall>q i c. fs_files k q = Some (i, c) \<longrightarrow> i < fs_fresh k) \<and>
     (\<forall>q r i c d. fs_files k q = Some (i, c) \<longrightarrow> fs_files k r = Some (i, d) \<longrightarrow> q = r) \<and>
     (\<forall>i \<ge> fs_fresh k. \<not> fs_locked k i)"

lemma sound_OpenFile: "fs_sound k \<Longrightarrow> OpenFile k q = (k', res) \<Longrightarrow> fs_sound k'"
  by (auto simp: OpenFile_def fs_sound_def set_file_def split: option.splits if_splits) (metis less_irrefl less_SucI)+

lemma sound_drop: "fs_sound k \<Longrightarrow> fs_sound (set_file k q None)"
  by (simp add: fs_sound_def set_file_def)

lemma sound_Remove: "fs_sound k \<Longrightarrow> fs_sound (fst (Remove k q))"
  by (auto simp: Remove_def intro: sound_drop split: option.splits)

lemma sound_content: "fs_sound k \<Longrightarrow> fs_files k q = Some (i, c) \<Longrightarrow> fs_sound (set_file k q (Some (i, d)))"
  unfolding fs_sound_def set_file_def by (auto split: if_splits)

lemma sound_shm [simp]: "fs_sound (k\<lparr>fs_shm := s\<rparr>) = fs_sound k"
  by (simp add: fs_sound_def)

lemma sound_unlinkEvent: "fs_sound k \<Longrightarrow> fs_sound (fst (unlinkEventImpl p k n))"
  unfolding unlinkEventImpl_def using sound_Remove [OF sound_Remove, of k "sockPath p n" "eventPath n"]
  by (cases "Remove (fst (Remove k (sockPath p n))) (eventPath n)") (simp split: option.splits)

lemma sound_removeInstance: "fs_sound k \<Longrightarrow> fs_sound (fst (removeInstance p k b binc))"
proof -
  assume k: "fs_sound k"
  obtain k1 where k1: "k1 = k \<or> k1 = fst (unlinkSegment p k (instanceName b binc))"
    and r: "fst (removeInstance p k b binc) =
      fst (unlinkEventImpl p (fst (unlinkEventImpl p k1 (instanceName b binc @ ''.ne''))) (instanceName b binc @ ''.nf''))"
    using removeInstance_steps by blast
  have "fs_sound k1" using k k1 by (auto simp: unlinkSegment_def split: prod.splits)
  then show ?thesis unfolding r by (intro sound_unlinkEvent)
qed

lemma sound_CreateEvent: "fs_sound k \<Longrightarrow> CreateEvent p k n = (k', res) \<Longrightarrow> fs_sound k'"
proof -
  assume k: "fs_sound k" and c: "CreateEvent p k n = (k', res)"
  let ?k1 = "fst (Remove k (eventPath n))"
  obtain k2 r2 where o: "OpenFile ?k1 (eventPath n) = (k2, r2)" by fastforce
  have "k' = k \<or> k' = ?k1 \<or> k' = k2"
    using c o by (auto simp: CreateEvent_def createEventImpl_def Mkfifo_def Let_def split: option.splits prod.splits sum.splits if_splits)
  with sound_Remove [OF k] sound_OpenFile [OF sound_Remove [OF k] o] k show ?thesis by auto
qed

lemma build_instance_inv:
  assumes "build_instance p k inst cfg rd = (k', Inr made)"
  obtains k1 ne k2 nf s seg rg where "CreateEvent p k (inst @ ''.ne'') = (k1, Inr ne)" "CreateEvent p k1 (inst @ ''.nf'') = (k2, Inr nf)"
    "shm_Create p (fs_shm k2) inst (RingSize (nat (cfg_capacity cfg))) = (s, Inr seg)" "k' = k2\<lparr>fs_shm := shm_store p s inst (seg_of seg rg)\<rparr>"
  using assms by (auto simp: build_instance_def split: prod.splits sum.splits)

lemma sound_build_instance: "fs_sound k \<Longrightarrow> build_instance p k inst cfg rd = (k', Inr made) \<Longrightarrow> fs_sound k'"
  by (erule build_instance_inv) (simp, metis sound_CreateEvent)

lemma sound_WriteAt0: "fs_sound k \<Longrightarrow> fs_sound (WriteAt0 k q s)"
  by (auto simp: WriteAt0_def intro: sound_content split: option.splits)

lemma sound_Truncate: "fs_sound k \<Longrightarrow> fs_sound (Truncate k q n)"
  by (auto simp: Truncate_def intro: sound_content split: option.splits)

lemma sound_publish: "fs_sound k \<Longrightarrow> publish k name inc = (k', err) \<Longrightarrow> fs_sound k'"
  by (auto simp: publish_def intro: sound_WriteAt0 sound_Truncate dest: sound_OpenFile split: prod.splits sum.splits)

lemma build_inv:
  assumes "build p c k name cfg rd = (k', inc, Inr made)"
  obtains k1 k2 where "k1 = k \<or> k1 = fst (removeInstance p k name (lock_previous k name)) \<and> lock_previous k name \<noteq> []"
    "newIncarnation (c_rand c) = Inr inc" "build_instance p k1 (instanceName name inc) cfg rd = (k2, Inr made)" "publish k2 name inc = (k', None)"
  using assms by (auto simp: build_def Let_def split: prod.splits option.splits sum.splits if_splits)

lemma sound_build: "fs_sound k \<Longrightarrow> build p c k name cfg rd = (k', inc, Inr made) \<Longrightarrow> fs_sound k'"
  by (erule build_inv) (metis sound_build_instance sound_publish sound_removeInstance)

section \<open>Creating leaves other names alone\<close>

text \<open>Creating a segment leaves the others, as removing one does.\<close>

definition shm_apart :: "'s platform \<Rightarrow> bool" where
  "shm_apart p \<longleftrightarrow> shm_separate p \<and> (\<forall>s a b len. a \<noteq> b \<longrightarrow> shm_Open p (fst (shm_Create p s a len)) b = shm_Open p s b)"

lemma demo_platform_apart: "shm_apart demo_platform"
  by (simp add: shm_apart_def demo_platform_separate) (simp add: demo_platform_def Let_def)

lemma keeps_CreateEvent:
  assumes c: "CreateEvent p k n = (k', res)"
    and n: "eventPath n \<notin> {eventPath (instanceName name inc @ ''.ne''), eventPath (instanceName name inc @ ''.nf'')}"
  shows "keeps p name inc k k'"
proof -
  let ?k1 = "fst (Remove k (eventPath n))"
  obtain k2 r2 where o: "OpenFile ?k1 (eventPath n) = (k2, r2)" by fastforce
  have "k' = k \<or> k' = ?k1 \<or> k' = k2"
    using c o by (auto simp: CreateEvent_def createEventImpl_def Mkfifo_def Let_def split: option.splits prod.splits sum.splits if_splits)
  moreover have 1: "keeps p name inc k ?k1" by (rule keeps_Remove) (use n in simp)
  moreover have "keeps p name inc ?k1 k2"
    by (rule footprint_cong) (use n OpenFile_frame(1,3,4) [OF o] in auto)
  ultimately show ?thesis using keeps_trans by auto
qed

lemma keeps_shm:
  "shm_Open p s (instanceName name inc) = shm_Open p (fs_shm k) (instanceName name inc) \<Longrightarrow> keeps p name inc k (k\<lparr>fs_shm := s\<rparr>)"
  by (rule footprint_cong) simp_all

lemma keeps_build_instance:
  assumes b: "build_instance p k (instanceName b binc) cfg rd = (k', Inr made)" and ne: "b \<noteq> name" and len: "length binc = length inc"
    and shm: "shm_apart p" "shm_memory p"
  shows "keeps p name inc k k'"
proof -
  let ?i = "instanceName b binc"
  have i: "?i \<noteq> instanceName name inc" using instanceName_inj [OF len, of b name] ne by simp
  have e: "eventPath (?i @ x) \<notin> {eventPath (instanceName name inc @ ''.ne''), eventPath (instanceName name inc @ ''.nf'')}"
    if "x = ''.ne'' \<or> x = ''.nf''" for x
    using event_paths_inj [OF len, of b x name] ne that by auto
  obtain k1 ne' k2 nf s seg rg where 1: "CreateEvent p k (?i @ ''.ne'') = (k1, Inr ne')" "CreateEvent p k1 (?i @ ''.nf'') = (k2, Inr nf)"
    "shm_Create p (fs_shm k2) ?i (RingSize (nat (cfg_capacity cfg))) = (s, Inr seg)" "k' = k2\<lparr>fs_shm := shm_store p s ?i (seg_of seg rg)\<rparr>"
    by (rule build_instance_inv [OF b])
  have "shm_Open p s (instanceName name inc) = shm_Open p (fs_shm k2) (instanceName name inc)"
    using shm(1) i 1(3) unfolding shm_apart_def by (metis fst_conv)
  moreover have "shm_Open p (shm_store p s ?i (seg_of seg rg)) (instanceName name inc) = shm_Open p s (instanceName name inc)"
    using shm(2) i unfolding shm_memory_def by metis
  ultimately have "keeps p name inc k2 k'" unfolding 1(4) by (intro keeps_shm) simp
  with keeps_CreateEvent [OF 1(1) e] keeps_CreateEvent [OF 1(2) e] show ?thesis by (metis keeps_trans)
qed

lemma keeps_publish:
  assumes "publish k b binc = (k', err)" "b \<noteq> name"
  shows "keeps p name inc k k'"
proof (rule footprint_cong)
  have a: "fs_files k' q = fs_files k q \<and> fs_locked k' = fs_locked k \<and> fs_shm k' = fs_shm k" if "q \<noteq> incPath b" for q
    using assms(1) that by (auto simp: publish_def OpenFile_def WriteAt0_def Truncate_def split: prod.splits sum.splits option.splits)
  show "\<forall>q \<in> {namePath name, incPath name, eventPath (instanceName name inc @ ''.ne''), eventPath (instanceName name inc @ ''.nf'')}.
      fs_files k' q = fs_files k q"
    using a assms(2) by simp
  show "fs_locked k' = fs_locked k" "shm_Open p (fs_shm k') (instanceName name inc) = shm_Open p (fs_shm k) (instanceName name inc)"
    using a [of "namePath b"] by simp_all
qed

lemma keeps_build:
  assumes b: "build p c k b cfg rd = (k', binc, Inr made)" and ne: "b \<noteq> name" and inc: "length inc = incarnationLen"
    and rand: "c_rand c = Inr raw" "8 \<le> length raw" and shm: "shm_apart p" "shm_memory p"
  shows "keeps p name inc k k'"
  using b
proof (rule build_inv)
  fix k1 k2
  assume k1: "k1 = k \<or> k1 = fst (removeInstance p k b (lock_previous k b)) \<and> lock_previous k b \<noteq> []"
    and i: "newIncarnation (c_rand c) = Inr binc" and k2: "build_instance p k1 (instanceName b binc) cfg rd = (k2, Inr made)"
    and k3: "publish k2 b binc = (k', None)"
  have l: "length binc = length inc"
    using newIncarnation_parses [OF i [unfolded rand(1)] rand(2)] inc parseIncarnation_length by metis
  have "length (lock_previous k b) = length inc" if "lock_previous k b \<noteq> []"
    using that inc by (auto simp: lock_previous_def dest: parseIncarnation_length split: sum.splits option.splits)
  then have "keeps p name inc k k1"
    using k1 keeps_removeInstance [OF _ ne] shm(1) by (auto simp: shm_apart_def)
  also note keeps_build_instance [OF k2 ne l shm]
  also note keeps_publish [OF k3 ne]
  finally show ?thesis .
qed

text \<open>What creating a queue leaves of the locks and of the lock files of other names.\<close>

lemma CreateEvent_frame:
  assumes c: "CreateEvent p k n = (k', res)"
  shows "fs_locked k' = fs_locked k \<and> fs_files k' (namePath a) = fs_files k (namePath a)"
proof -
  obtain k1 e where r: "Remove k (eventPath n) = (k1, e)" by fastforce
  obtain k2 r2 where o: "OpenFile k1 (eventPath n) = (k2, r2)" by fastforce
  have "k' = k \<or> k' = k1 \<or> k' = k2"
    using c r o by (auto simp: CreateEvent_def createEventImpl_def Mkfifo_def Let_def split: option.splits prod.splits sum.splits if_splits)
  with Remove_frame(1,4) [OF r] OpenFile_frame(1,4) [OF o] show ?thesis by auto
qed

lemma build_frame:
  assumes "build p c k name cfg rd = (k', inc, Inr made)"
  shows "fs_locked k' = fs_locked k \<and> fs_files k' (namePath a) = fs_files k (namePath a)"
  using assms
proof (rule build_inv)
  fix k1 k2
  assume k1: "k1 = k \<or> k1 = fst (removeInstance p k name (lock_previous k name)) \<and> lock_previous k name \<noteq> []"
    and k2: "build_instance p k1 (instanceName name inc) cfg rd = (k2, Inr made)" and k3: "publish k2 name inc = (k', None)"
  have 1: "fs_locked k1 = fs_locked k \<and> fs_files k1 (namePath a) = fs_files k (namePath a)"
    using k1 removeInstance_frame [of p k name "lock_previous k name"] by (metis prod.collapse)
  have 2: "fs_locked k2 = fs_locked k1 \<and> fs_files k2 (namePath a) = fs_files k1 (namePath a)"
    by (rule build_instance_inv [OF k2]) (simp add: CreateEvent_frame)
  have 3: "fs_locked k' = fs_locked k2 \<and> fs_files k' (namePath a) = fs_files k2 (namePath a)"
    using k3 by (auto simp: publish_def OpenFile_def WriteAt0_def Truncate_def split: prod.splits sum.splits option.splits)
  from 1 2 3 show ?thesis by simp
qed

lemma quiet_lock:
  assumes "fs_err k (namePath b) = None" "lockName (quiet_round # ws) k b = Some (k1, Inr i)"
  obtains k0 where "OpenFile k (namePath b) = (k0, Inr i)" "\<not> fs_locked k0 i" "k1 = k0\<lparr>fs_locked := (fs_locked k0)(i := True)\<rparr>"
proof -
  obtain k0 r where o: "OpenFile k (namePath b) = (k0, r)" by fastforce
  obtain j where r: "r = Inr j" using o assms(1) by (auto simp: OpenFile_def split: option.splits)
  obtain c where f: "fs_files k0 (namePath b) = Some (j, c)" using OpenFile_frame(6) [OF o r] by blast
  have e: "fs_err k0 (namePath b) = None" using OpenFile_frame(2) [OF o] assms(1) by simp
  have "\<not> fs_locked k0 j" "i = j" "k1 = k0\<lparr>fs_locked := (fs_locked k0)(j := True)\<rparr>"
    using assms(2) o r f e by (auto simp: quiet_round_def Stat_def Let_def split: if_splits)
  with o r that show thesis by simp
qed

lemma createQueue_inv:
  assumes "createQueue p c k name opts later = Some (k', Inr h)" "calm c"
  obtains ws k1 i cfg inc made where "lockName (quiet_round # ws) k name = Some (k1, Inr i)"
    "build p c k1 name cfg (if later then pendingProc else c_self c) = (k', inc, Inr made)"
proof -
  obtain ws where c: "c_swept c" "c_locking c = quiet_round # ws" using assms(2) by (auto simp: calm_def)
  obtain cfg where cfg: "validateName name = None" "apply_opts defaultConfig opts = (cfg, None)"
    using assms(1) by (auto simp: createQueue_def split: option.splits prod.splits)
  have sw: "sweepStale p (c_dials c) (c_sweeps c) (c_swept c) k (c_entries c) = Some (True, k)"
    by (simp add: sweepStale_def c(1))
  obtain k1 i where l: "lockName (quiet_round # ws) k name = Some (k1, Inr i)"
    using assms(1) unfolding createQueue_def cfg c(2) sw
    by (auto simp del: lockName.simps split: option.splits prod.splits sum.splits)
  obtain inc made where "build p c k1 name cfg (if later then pendingProc else c_self c) = (k', inc, Inr made)"
    using assms(1) unfolding createQueue_def cfg c(2) sw option.case prod.case l sum.case
    by (auto split: prod.splits sum.splits)
  from that [OF l this] show thesis .
qed

lemma createQueue_others:
  assumes q: "createQueue p c k name opts later = Some (k', Inr h)" "calm c" and k: "fs_sound k" "fs_err k (namePath name) = None"
    and shm: "shm_apart p" "shm_memory p" and a: "a \<noteq> name"
  shows "fs_sound k'" "held a k' = held a k" "length inc = incarnationLen \<Longrightarrow> keeps p a inc k k'"
proof -
  obtain ws k1 i cfg binc made where l: "lockName (quiet_round # ws) k name = Some (k1, Inr i)"
    and b: "build p c k1 name cfg (if later then pendingProc else c_self c) = (k', binc, Inr made)"
    by (rule createQueue_inv [OF q])
  obtain k0 where k0: "OpenFile k (namePath name) = (k0, Inr i)" "\<not> fs_locked k0 i" "k1 = k0\<lparr>fs_locked := (fs_locked k0)(i := True)\<rparr>"
    by (rule quiet_lock [OF k(2) l])
  note f = OpenFile_frame [OF k0(1)]
  obtain x where x: "fs_files k0 (namePath name) = Some (i, x)" using f(6) by blast
  have s0: "fs_sound k0" by (rule sound_OpenFile [OF k(1) k0(1)])
  moreover have "i < fs_fresh k0" using s0 x unfolding fs_sound_def by blast
  ultimately have "fs_sound k1" by (auto simp: k0(3) fs_sound_def)
  then show "fs_sound k'" by (rule sound_build [OF _ b])
  have other: "j \<noteq> i" if "fs_files k0 (namePath a) = Some (j, d)" for j d
    using s0 x that a unfolding fs_sound_def by (metis paths_inj(1))
  have "held a k1 = held a k"
    using f(1) f(4) [of "namePath a"] a other by (auto simp: held_def k0(3) split: option.splits)
  then show "held a k' = held a k" using build_frame [OF b, of a] unfolding held_def by metis
  obtain raw where raw: "c_rand c = Inr raw" "8 \<le> length raw" using q(2) by (auto simp: calm_def)
  assume inc: "length inc = incarnationLen"
  have "keeps p a inc k k0" by (rule keeps_OpenFile [OF k0(1)])
  also have "keeps p a inc k0 k1" by (rule keeps_Take [of "[]" k0 i _ None]) (simp add: k0)
  also note keeps_build [OF b not_sym [OF a] inc raw shm]
  finally show "keeps p a inc k k'" .
qed

section \<open>Both ends of a channel\<close>

lemma published_len: "published p k name inc rg \<Longrightarrow> length inc = incarnationLen"
  by (auto simp: published_def Let_def dest: parseIncarnation_length)

lemma validate_direction: "validateName name = None \<Longrightarrow> set x \<inter> {CHR ''/'', CHR 0x5C} = {} \<Longrightarrow> length x = 4 \<Longrightarrow> validateName (name @ x) = None"
proof -
  assume a: "validateName name = None" "set x \<inter> {CHR ''/'', CHR 0x5C} = {}" "length x = 4"
  have "name @ x \<noteq> y" if "length y \<le> 2" for y using that a(3) by auto
  from this [of "''.''"] this [of "''..''"] this [of "[]"] a show ?thesis by (auto simp: validateName_def split: if_splits)
qed

lemma directions [simp]:
  "validateName name = None \<Longrightarrow> validateName (name @ chanCreatorToOpener) = None"
  "validateName name = None \<Longrightarrow> validateName (name @ chanOpenerToCreator) = None"
  "name @ chanCreatorToOpener \<noteq> name @ chanOpenerToCreator"
  by (auto intro: validate_direction simp: chanCreatorToOpener_def chanOpenerToCreator_def)

text \<open>
  The creator of a channel is alive for the process that opens it: its life socket answers.
\<close>

definition alive :: "env \<Rightarrow> 's caller \<Rightarrow> procID \<Rightarrow> bool" where
  "alive v c pid \<longleftrightarrow> pid \<noteq> noProc \<and> dial_of v pid = None \<and> \<not> exited (c_watching c) pid"

lemma alive_checkPeer:
  assumes "alive v c pid" "q = newQueue c rg ne nf rd" "consumer (hdr rg) = pid"
  shows "snd (checkPeer v q) = None"
  using assms
  by (auto simp: alive_def newQueue_def checkPeer_def watchPeer_def peer_stop_def q_isDead_def isDead_def onExit_def openExit_def add_fn_def
      Let_def split: option.splits)

lemma OpenQueue_ok:
  assumes o: "openQueue p c k name opts = (k, Inr g)" and a: "alive v c (consumer (hdr (ring (h_queue g))))"
  shows "\<exists>g'. OpenQueue v p c k name opts = Some (k, Inr g') \<and> ring (h_queue g') = ring (h_queue g)"
proof -
  obtain rg ne nf where g: "h_queue g = newQueue c rg ne nf False"
    using o by (auto simp: openQueue_def split: option.splits prod.splits sum.splits)
  obtain q e where ch: "checkPeer v (h_queue g) = (q, e)" by fastforce
  have "e = None" using alive_checkPeer [OF a g] g ch by (simp add: newQueue_def)
  then show ?thesis using core_eqD(1) [OF core_checkPeer [OF ch]] by (simp add: OpenQueue_def o ch)
qed

lemma CreateChannel_ok:
  assumes k: "fs_err k = (\<lambda>_. None)" "fs_sound k" "\<not> held (name @ chanCreatorToOpener) k" "\<not> held (name @ chanOpenerToCreator) k"
    and shm: "shm_works p cfg" "shm_memory p" "shm_apart p" and name: "validateName name = None"
    and opts: "apply_opts defaultConfig opts = (cfg, None)" and c: "calm c1" "calm c2"
  shows "\<exists>k2 t r. CreateChannel v p (c1, c2) between k name opts = Some (k2, Inr (new_chan name t r True)) \<and> fs_err k2 = (\<lambda>_. None) \<and>
    published p k2 (name @ chanCreatorToOpener) (h_inc t) (ring (h_queue t)) \<and> new_ring cfg pendingProc (ring (h_queue t)) \<and>
    published p k2 (name @ chanOpenerToCreator) (h_inc r) (ring (h_queue r)) \<and> new_ring cfg (c_self c2) (ring (h_queue r)) \<and> reader (h_queue r)"
proof -
  let ?t = "name @ chanCreatorToOpener" and ?r = "name @ chanOpenerToCreator"
  have fresh: "\<not> fs_locked k (fs_fresh k)" if "fs_sound k" for k :: "'a kernel" using that by (simp add: fs_sound_def)
  obtain k1 t where t: "createQueue p c1 k ?t opts True = Some (k1, Inr t)" "new_ring cfg pendingProc (ring (h_queue t))"
    "published p k1 ?t (h_inc t) (ring (h_queue t))" "held ?t k1" "fs_err k1 = (\<lambda>_. None)"
    using createQueue_ok [OF k(1) fresh [OF k(2)] k(3) shm(1,2) directions(1) [OF name] opts c(1), of True] by auto
  note o1 = createQueue_others [OF t(1) c(1) k(2) _ shm(3,2)]
  have k1: "fs_sound k1" "\<not> held ?r k1" using o1(1,2) [of ?r] k(1,4) directions(3) [of name, symmetric] by auto
  obtain k2 r where r: "createQueue p c2 k1 ?r opts False = Some (k2, Inr r)" "new_ring cfg (c_self c2) (ring (h_queue r))"
    "reader (h_queue r)" "published p k2 ?r (h_inc r) (ring (h_queue r))" "fs_err k2 = (\<lambda>_. None)"
    using createQueue_ok [OF t(5) fresh [OF k1(1)] k1(2) shm(1,2) directions(2) [OF name] opts c(2), of False] by auto
  have "keeps p ?t (h_inc t) k1 k2"
    by (rule createQueue_others(3) [OF r(1) c(2) k1(1) _ shm(3,2) directions(3) published_len [OF t(3)]]) (simp add: t(5))
  then have "published p k2 ?t (h_inc t) (ring (h_queue t))"
    using published_footprint [OF t(3)] t(4) by (simp add: keeps_def)
  with t r show ?thesis by (auto simp: CreateChannel_def name)
qed

lemma OpenChannel_ok:
  assumes t: "published p k (name @ chanOpenerToCreator) tinc trg" "alive v c (consumer (hdr trg))"
    and r: "published p k (name @ chanCreatorToOpener) rinc rrg" "consumer (hdr rrg) = pendingProc"
    and k: "fs_err k = (\<lambda>_. None)" "validateName name = None" "apply_opts defaultConfig opts = (cfg, None)" "pollable p"
  shows "\<exists>k' e. OpenChannel v p c k name opts = Some (k', Inr e) \<and> ring (tx (the_chan e)) = trg \<and>
    ring (rx (the_chan e)) = rrg\<lparr>hdr := (hdr rrg)\<lparr>consumer := c_self c\<rparr>\<rparr> \<and> reader (rx (the_chan e))"
proof -
  obtain g where g: "openQueue p c k (name @ chanOpenerToCreator) opts = (k, Inr g)" "ring (h_queue g) = trg"
    using published_opens [OF t(1) directions(2) [OF k(2)] k(3,1,4)] by blast
  obtain g' where g': "OpenQueue v p c k (name @ chanOpenerToCreator) opts = Some (k, Inr g')" "ring (h_queue g') = trg"
    using OpenQueue_ok [OF g(1), of v] g(2) t(2) by auto
  obtain h where h: "openQueue p (c\<lparr>c_watching := watching (h_queue g')\<rparr>) k (name @ chanCreatorToOpener) opts = (k, Inr h)"
    "ring (h_queue h) = rrg" "q_self (h_queue h) = c_self c"
    using published_opens [OF r(1) directions(1) [OF k(2)] k(3,1,4), of "c\<lparr>c_watching := watching (h_queue g')\<rparr>"] by auto
  show ?thesis
    by (simp add: OpenChannel_def k(2) g'(1) h(1) cas_consumer_def h(2,3) r(2) Let_def new_chan_def newChannel_def g'(2) upd_ring_def wakeSenders_def)
qed

lemma OpenChannel_refused:
  assumes o: "OpenChannel v p c k name opts = Some (k', Inr d)" and shm: "shm_memory p" and self: "c_self c \<noteq> pendingProc"
  shows "\<exists>k'' err. OpenChannel v' p c' k' name opts' = Some (k'', Inl err)"
proof -
  let ?n = "name @ chanCreatorToOpener"
  have v: "validateName name = None" using o by (auto simp: OpenChannel_def split: option.splits)
  obtain inc seg rg where took: "readName k' ?n = Inr inc" "shm_Open p (fs_shm k') (instanceName ?n inc) = Inr seg" "AttachRing seg = Inr rg"
    "consumer (hdr rg) = c_self c"
    using OpenChannel_takes [OF o shm] by blast
  obtain k1 res where t: "OpenQueue v' p c' k' (name @ chanOpenerToCreator) opts' = Some (k1, res)" using OpenQueue_returns by blast
  show ?thesis
  proof (cases res)
    case (Inl e)
    with t v show ?thesis by (simp add: OpenChannel_def)
  next
    case (Inr g)
    note ti = OpenQueue_inv [OF t [unfolded Inr]]
    note closes = close_handle_returns [of g v' p, OF eq_refl [OF ti(2)]]
    obtain k2 res2 where r: "openQueue p (c'\<lparr>c_watching := watching (h_queue g)\<rparr>) k1 ?n opts' = (k2, res2)" by fastforce
    show ?thesis
    proof (cases res2)
      case (Inl e)
      with t v r \<open>res = Inr g\<close> closes [of k2] show ?thesis by (auto simp: OpenChannel_def)
    next
      case (Inr h)
      note hi = openQueue_inv [OF r [unfolded Inr]]
      have "h_inc h = inc" using hi(3) took(1) ti(1) by simp
      then have "ring (h_queue h) = rg" using hi(5,6) took(2,3) ti(1) by simp
      then have cas: "cas_consumer pendingProc (q_self (h_queue h)) (h_queue h) = (h_queue h, False)"
        using took(4) self by (simp add: cas_consumer_def)
      obtain k3 h' e3 where c3: "close_handle v' p k2 h = Some (k3, h', e3)"
        using close_handle_returns [of h v' p k2] hi(8) by auto
      show ?thesis
        using t v r \<open>res = Inr g\<close> Inr cas c3 closes [of k3] by (auto simp: OpenChannel_def)
    qed
  qed
qed

text \<open>
  C39: After one process has created a channel and another one has opened it, each reads from
  the ring the other writes to, and the opener is the reader of its direction. A third process
  cannot open the same channel.
\<close>

theorem channel_pairs:
  assumes "fs_err k = (\<lambda>_. None)" "fs_sound k" "\<not> held (name @ chanCreatorToOpener) k" "\<not> held (name @ chanOpenerToCreator) k"
    and "shm_works p cfg" "shm_memory p" "shm_apart p" "validateName name = None" "apply_opts defaultConfig opts = (cfg, None)"
    and "calm c1" "calm c2" "alive v c3 (c_self c2)" "apply_opts defaultConfig opts' = (cfg', None)" "c_self c3 \<noteq> pendingProc"
  shows "\<exists>k1 d k2 e. CreateChannel v p (c1, c2) between k name opts = Some (k1, Inr d) \<and>
    OpenChannel v p c3 k1 name opts' = Some (k2, Inr e) \<and>
    ring (tx (the_chan e)) = ring (rx (the_chan d)) \<and> reader (rx (the_chan d)) \<and>
    ring (rx (the_chan e)) = (ring (tx (the_chan d)))\<lparr>hdr := (hdr (ring (tx (the_chan d))))\<lparr>consumer := c_self c3\<rparr>\<rparr> \<and> reader (rx (the_chan e)) \<and>
    (\<exists>k3 err. OpenChannel v' p c4 k2 name opts'' = Some (k3, Inl err))"
proof -
  obtain k1 t r where c: "CreateChannel v p (c1, c2) between k name opts = Some (k1, Inr (new_chan name t r True))" "fs_err k1 = (\<lambda>_. None)"
    and t: "published p k1 (name @ chanCreatorToOpener) (h_inc t) (ring (h_queue t))" "new_ring cfg pendingProc (ring (h_queue t))"
    and r: "published p k1 (name @ chanOpenerToCreator) (h_inc r) (ring (h_queue r))" "new_ring cfg (c_self c2) (ring (h_queue r))"
      "reader (h_queue r)"
    using CreateChannel_ok [OF assms(1-11), of v between] by blast
  obtain k2 e where e: "OpenChannel v p c3 k1 name opts' = Some (k2, Inr e)" "ring (tx (the_chan e)) = ring (h_queue r)"
    "ring (rx (the_chan e)) = (ring (h_queue t))\<lparr>hdr := (hdr (ring (h_queue t)))\<lparr>consumer := c_self c3\<rparr>\<rparr>" "reader (rx (the_chan e))"
    using OpenChannel_ok [OF r(1) _ t(1) _ c(2) assms(8,13) shm_works_pollable [OF assms(5)], of v c3] t(2) r(2) assms(12) by (auto simp: new_ring_def)
  from c(1) r(3) e OpenChannel_refused [OF e(1) assms(6,14), of v' c4 opts''] show ?thesis
    by (intro exI [of _ k1] exI [of _ "new_chan name t r True"] exI [of _ k2] exI [of _ e]) (simp add: new_chan_def newChannel_def)
qed

theorem channel_pairs_witness:
  "\<exists>k1 d k2 e k3 err. CreateChannel demo_env demo_platform (demo_caller 7, demo_caller 7) (\<lambda>k. k) demo_kernel ''b'' [WithCapacity 4096] = Some (k1, Inr d) \<and>
    OpenChannel demo_env demo_platform (demo_caller 8) k1 ''b'' [] = Some (k2, Inr e) \<and>
    ring (tx (the_chan e)) = ring (rx (the_chan d)) \<and> reader (rx (the_chan e)) \<and>
    OpenChannel demo_env demo_platform (demo_caller 9) k2 ''b'' [] = Some (k3, Inl err)"
proof -
  have k: "fs_err demo_kernel = (\<lambda>_. None)" "fs_sound demo_kernel" "\<not> held (''b'' @ chanCreatorToOpener) demo_kernel"
    "\<not> held (''b'' @ chanOpenerToCreator) demo_kernel"
    by (auto simp: fs_sound_def held_def demo_kernel_simps chanCreatorToOpener_def chanOpenerToCreator_def split: if_splits)
  have a: "alive demo_env (demo_caller 8) (c_self (demo_caller 7))"
    by (simp add: alive_def demo_caller_def demo_env_def no_watches_def noProc_def)
  have s: "c_self (demo_caller 8) \<noteq> pendingProc" by (simp add: demo_caller_def pendingProc_def)
  from channel_pairs [OF k demo_platform_works(2,1) demo_platform_apart demo_free(3) default_opts(2) demo_caller_calm demo_caller_calm a default_opts(1) s]
  show ?thesis by blast
qed

end
