(* ===== verification/Service.thy ===== *)
theory Service
  imports Endpoint
begin

text \<open>
  The service layer of \<^verbatim>\<open>src/service.go\<close>: a server that answers the calls of any number of
  clients, each over a channel of its own, and a queue through which a client announces its
  channel. The handler of the server, with its state, and the messages of a typed call are
  arguments. A goroutine that serves a session is the sequence of its turns.
\<close>

section \<open>Constants and messages\<close>

definition serviceRegistrySuffix :: string where "serviceRegistrySuffix = ''.svc''"

definition serviceClientPrefix :: string where "serviceClientPrefix = ''.c.''"

definition serviceReservedMin :: u32 where "serviceReservedMin = 0xFFFFFFF0"

definition typeServiceKnock :: u32 where "typeServiceKnock = 0xFFFFFFF0"

definition typeServiceHello :: u32 where "typeServiceHello = 0xFFFFFFF1"

definition typeServiceError :: u32 where "typeServiceError = 0xFFFFFFF2"

definition serviceSeqSize :: nat where "serviceSeqSize = 8"

definition serviceFirstSeq :: u64 where "serviceFirstSeq = 1"

definition serviceCapacity :: int where "serviceCapacity = 2 ^ 24"

text \<open>A conversion between a string and its bytes.\<close>

definition text_bytes :: "string \<Rightarrow> bytes" where
  "text_bytes s = map (\<lambda>c. word_of_nat (of_char c)) s"

definition bytes_text :: "bytes \<Rightarrow> string" where
  "bytes_text bs = map (\<lambda>b. char_of (unat b)) bs"

definition frame :: "u64 \<Rightarrow> bytes \<Rightarrow> bytes" where
  "frame sq payload = le_bytes serviceSeqSize sq @ payload"

text \<open>\<open>binary.LittleEndian.Uint64\<close> of the first bytes of a message.\<close>

definition seq_of :: "bytes \<Rightarrow> u64" where
  "seq_of msg = le_val (take serviceSeqSize msg)"

text \<open>The methods of a message, as the generated code has them.\<close>

record 'm message_ops =
  TypeID :: "'m \<Rightarrow> u32"
  MarshalBinary :: "'m \<Rightarrow> bytes result"
  UnmarshalBinary :: "'m \<Rightarrow> bytes \<Rightarrow> 'm result"

section \<open>Sessions and handlers\<close>

record Session =
  s_ordinal :: int
  s_id :: string
  s_ch :: chan_handle

text \<open>
  \<open>h_Call\<close> and \<open>h_Gone\<close> take the state of the handler; \<open>h_Error\<close> is the text of an error.
\<close>

record 'h handler =
  h_Call :: "'h \<Rightarrow> Session \<Rightarrow> u32 \<Rightarrow> bytes \<Rightarrow> 'h \<times> (u32 \<times> bytes) result"
  h_Gone :: "'h \<Rightarrow> Session \<Rightarrow> 'h"
  h_Error :: "ipc_error \<Rightarrow> string"

text \<open>\<open>typedHandler.Call\<close>: \<open>new\<close> is the \<open>New\<close> of the handler and \<open>call\<close> its \<open>Call\<close>, which may return nil.\<close>

definition typed_Call :: "'m message_ops \<Rightarrow> (u32 \<Rightarrow> 'm option) \<Rightarrow> ('h \<Rightarrow> Session \<Rightarrow> 'm \<Rightarrow> 'h \<times> 'm option result) \<Rightarrow>
    'h \<Rightarrow> Session \<Rightarrow> u32 \<Rightarrow> bytes \<Rightarrow> 'h \<times> (u32 \<times> bytes) result" where
  "typed_Call ops new call h s ty payload =
     (case new ty of
        None \<Rightarrow> (h, Inl (ErrOther (''ipc: no message has type ID '' @ dec (unat ty))))
      | Some req \<Rightarrow>
     (case UnmarshalBinary ops req payload of
        Inl e \<Rightarrow> (h, Inl e)
      | Inr req \<Rightarrow>
     (case call h s req of
        (h, Inl e) \<Rightarrow> (h, Inl e)
      | (h, Inr None) \<Rightarrow> (h, Inl (ErrOther ''ipc: the handler returned no reply''))
      | (h, Inr (Some reply)) \<Rightarrow>
     (case MarshalBinary ops reply of
        Inl e \<Rightarrow> (h, Inl e)
      | Inr b \<Rightarrow> (h, Inr (TypeID ops reply, b))))))"

definition set_chan :: "Channel \<Rightarrow> chan_handle \<Rightarrow> chan_handle" where
  "set_chan c d =
     d\<lparr>the_chan := c, tx_handle := (tx_handle d)\<lparr>h_queue := tx c\<rparr>, rx_handle := (rx_handle d)\<lparr>h_queue := rx c\<rparr>\<rparr>"

definition service_reply :: "env \<Rightarrow> Queue park_round list \<Rightarrow> Session \<Rightarrow> u32 \<Rightarrow> u64 \<Rightarrow> bytes \<Rightarrow> (Session \<times> unit result) option" where
  "service_reply v ws s ty sq payload =
     map_option (\<lambda>(c, res). (s\<lparr>s_ch := set_chan c (s_ch s)\<rparr>, res)) (Channel_SendTyped v ws (the_chan (s_ch s)) ty (frame sq payload))"

definition answer :: "env \<Rightarrow> Queue park_round list \<Rightarrow> 'h handler \<Rightarrow> 'h \<Rightarrow> Session \<Rightarrow> u32 \<Rightarrow> bytes \<Rightarrow>
    'h \<times> (Session \<times> unit result) option" where
  "answer v ws hn h s ty msg =
     (if length msg < serviceSeqSize then
        (h, service_reply v ws s typeServiceError 0 (text_bytes ''ipc: request is shorter than its sequence number''))
      else
        let sq = seq_of msg in
        if ty \<ge> serviceReservedMin then
          (h, service_reply v ws s typeServiceError sq (text_bytes (''ipc: request type '' @ dec (unat ty) @ '' is reserved'')))
        else case h_Call hn h s ty (drop serviceSeqSize msg) of
               (h, Inl e) \<Rightarrow> (h, service_reply v ws s typeServiceError sq (text_bytes (h_Error hn e)))
             | (h, Inr (replyTyp, reply)) \<Rightarrow>
                 if replyTyp \<ge> serviceReservedMin then
                   (h, service_reply v ws s typeServiceError sq (text_bytes (''ipc: reply type '' @ dec (unat replyTyp) @ '' is reserved'')))
                 else (h, service_reply v ws s replyTyp sq reply))"

text \<open>
  One turn of the loop of \<open>serve\<close>: the client has gone, the loop ends for another reason, or
  it goes on. \<open>ws\<close> are the rounds of the receive and \<open>us\<close> those of the reply.
\<close>

datatype serve_next = Went | Ends | Serves

definition serve_turn :: "env \<Rightarrow> Channel park_round list \<Rightarrow> Queue park_round list \<Rightarrow> 'h handler \<Rightarrow> 'h \<Rightarrow> Session \<Rightarrow>
    ('h \<times> Session \<times> serve_next) option" where
  "serve_turn v ws us hn h s =
     (case Channel_RecvInto v ws (the_chan (s_ch s)) of
        None \<Rightarrow> None
      | Some (c, Inl e) \<Rightarrow> Some (h, s\<lparr>s_ch := set_chan c (s_ch s)\<rparr>, if errors_is e ErrPeerGone then Went else Ends)
      | Some (c, Inr (ty, msg)) \<Rightarrow>
          (case answer v us hn h (s\<lparr>s_ch := set_chan c (s_ch s)\<rparr>) ty msg of
             (h, None) \<Rightarrow> None
           | (h, Some (s, Inl e)) \<Rightarrow> Some (h, s, Ends)
           | (h, Some (s, Inr _)) \<Rightarrow> Some (h, s, Serves)))"

section \<open>The service\<close>

text \<open>
  \<open>sv_done\<close> says that the context is cancelled and \<open>sv_closed\<close> that \<open>closing\<close> has run. The
  sessions are those whose goroutine has not yet forgotten them.
\<close>

record Service =
  sv_name :: string
  sv_reg :: handle
  sv_next :: int
  sv_sessions :: "Session list"
  sv_err :: "ipc_error option"
  sv_done :: bool
  sv_closed :: bool

definition stop :: "Service \<Rightarrow> ipc_error \<Rightarrow> Service" where
  "stop svc err =
     svc\<lparr>sv_err := (if sv_err svc = None \<and> \<not> errors_is err ErrClosed \<and> \<not> errors_is err ErrCanceled then Some err else sv_err svc),
         sv_done := True\<rparr>"

text \<open>\<open>Close\<close> of a channel with its handles: the locks that its process holds are released.\<close>

definition release_lock :: "'s kernel \<Rightarrow> handle \<Rightarrow> 's kernel" where
  "release_lock k h = (case h_lock h of None \<Rightarrow> k | Some i \<Rightarrow> lock_release k i)"

definition close_chan :: "env \<Rightarrow> 's platform \<Rightarrow> 's kernel \<Rightarrow> chan_handle \<Rightarrow> ('s kernel \<times> chan_handle \<times> ipc_error option) option" where
  "close_chan v p k d =
     (let closed = q_closing (rx (the_chan d)) in
      case Channel_Close v (None, None) (None, None) (the_chan d) of
        None \<Rightarrow> None
      | Some (c, err) \<Rightarrow>
          let d = set_chan c d in
          Some (if closed then k
                else release_lock (release_lock (share p (share p k (rx_handle d)) (tx_handle d)) (rx_handle d)) (tx_handle d), d, err))"

definition forget :: "env \<Rightarrow> 's platform \<Rightarrow> 's kernel \<Rightarrow> Service \<Rightarrow> Session \<Rightarrow> ('s kernel \<times> Service) option" where
  "forget v p k svc s =
     map_option (\<lambda>(k, _). (k, svc\<lparr>sv_sessions := filter (\<lambda>t. s_ordinal t \<noteq> s_ordinal s) (sv_sessions svc)\<rparr>))
       (close_chan v p k (s_ch s))"

definition put_session :: "Session \<Rightarrow> Service \<Rightarrow> Service" where
  "put_session s svc = svc\<lparr>sv_sessions := map (\<lambda>t. if s_ordinal t = s_ordinal s then s else t) (sv_sessions svc)\<rparr>"

definition adopt :: "env \<Rightarrow> 's platform \<Rightarrow> 's caller \<Rightarrow> Queue park_round list \<Rightarrow> 's kernel \<Rightarrow> Service \<Rightarrow> string \<Rightarrow>
    ('s kernel \<times> Service) option" where
  "adopt v p c ws k svc sid =
     (case OpenChannel v p c k (sv_name svc @ serviceClientPrefix @ sid) [] of
        None \<Rightarrow> None
      | Some (k, Inl e) \<Rightarrow> Some (k, svc)
      | Some (k, Inr d) \<Rightarrow>
          let s = \<lparr>s_ordinal = sv_next svc, s_id = sid, s_ch = d\<rparr>;
              svc = svc\<lparr>sv_next := sv_next svc + 1, sv_sessions := sv_sessions svc @ [s]\<rparr>
          in case Channel_SendTyped v ws (the_chan d) typeServiceHello (le_bytes serviceSeqSize (nat (s_ordinal s mod 2 ^ 64))) of
               None \<Rightarrow> None
             | Some (ch', Inl e) \<Rightarrow> forget v p k svc (s\<lparr>s_ch := set_chan ch' d\<rparr>)
             | Some (ch', Inr _) \<Rightarrow>
                 let d = set_chan ch' d in
                 Some (share p k (tx_handle d), put_session (s\<lparr>s_ch := d\<rparr>) svc))"

text \<open>A turn of \<open>serve\<close> with what follows when the loop ends; \<open>forget\<close> is deferred, so it comes last.\<close>

definition serve_step :: "env \<Rightarrow> 's platform \<Rightarrow> ('s kernel \<Rightarrow> 's kernel) \<Rightarrow> Channel park_round list \<Rightarrow> Queue park_round list \<Rightarrow>
    'h handler \<Rightarrow> 's kernel \<Rightarrow> 'h \<Rightarrow> Service \<Rightarrow> Session \<Rightarrow> ('s kernel \<times> 'h \<times> Service) option" where
  "serve_step v p between ws us hn k h svc s =
     (case serve_turn v ws us hn h s of
        None \<Rightarrow> None
      | Some (h, s, Serves) \<Rightarrow> Some (share p (share p k (rx_handle (s_ch s))) (tx_handle (s_ch s)), h, put_session s svc)
      | Some (h, s, Ends) \<Rightarrow> map_option (\<lambda>(k, svc). (k, h, svc)) (forget v p k svc s)
      | Some (h, s, Went) \<Rightarrow>
          (case close_chan v p k (s_ch s) of
             None \<Rightarrow> None
           | Some (k, d, _) \<Rightarrow>
               let s = s\<lparr>s_ch := d\<rparr>;
                   h = h_Gone hn h s
               in map_option (\<lambda>(k, svc). (k, h, svc)) (forget v p (fst (Channel_Unlink p between k d)) svc s)))"

text \<open>
  \<open>entries\<close> is what \<open>os.ReadDir\<close> returned.
\<close>

definition client_of :: "string \<Rightarrow> string \<Rightarrow> string option" where
  "client_of name entry =
     (case CutPrefix entry (''go-ipc-'' @ name @ serviceClientPrefix) of
        None \<Rightarrow> None
      | Some rest \<Rightarrow>
          (case CutSuffix rest (chanOpenerToCreator @ ''.name'') of
             None \<Rightarrow> None
           | Some sid \<Rightarrow> parseIncarnation sid))"

definition scanClients :: "string \<Rightarrow> string list result \<Rightarrow> string list" where
  "scanClients name entries = (case entries of Inl _ \<Rightarrow> [] | Inr es \<Rightarrow> List.map_filter (client_of name) es)"

text \<open>How the process stands when it adopts a client, and the rounds of the hello.\<close>

type_synonym 's adopting = "string \<Rightarrow> 's caller \<times> Queue park_round list"

fun adopt_all :: "env \<Rightarrow> 's platform \<Rightarrow> 's adopting \<Rightarrow> 's kernel \<Rightarrow> Service \<Rightarrow> string list \<Rightarrow> ('s kernel \<times> Service) option" where
  "adopt_all v p ad k svc [] = Some (k, svc)"
| "adopt_all v p ad k svc (sid # sids) =
     (case adopt v p (fst (ad sid)) (snd (ad sid)) k svc sid of
        None \<Rightarrow> None
      | Some (k, svc) \<Rightarrow> adopt_all v p ad k svc sids)"

definition Serve :: "env \<Rightarrow> 's platform \<Rightarrow> 's caller \<Rightarrow> 's adopting \<Rightarrow> 's kernel \<Rightarrow> string \<Rightarrow> 'h handler option \<Rightarrow> option_fn list \<Rightarrow>
    string list result \<Rightarrow> ('s kernel \<times> Service result) option" where
  "Serve v p c ad k name hn opts entries =
     (case validateName name of
        Some e \<Rightarrow> Some (k, Inl e)
      | None \<Rightarrow>
          if hn = None then Some (k, Inl (ErrOther ''ipc: serve needs a handler''))
          else case CreateQueue p c k (name @ serviceRegistrySuffix) opts of
                 None \<Rightarrow> None
               | Some (k, Inl e) \<Rightarrow> Some (k, Inl (Wrap ''ipc: serve'' e))
               | Some (k, Inr reg) \<Rightarrow>
                   map_option (\<lambda>(k, svc). (k, Inr svc))
                     (adopt_all v p ad k
                        \<lparr>sv_name = name, sv_reg = reg, sv_next = 0, sv_sessions = [], sv_err = None, sv_done = False, sv_closed = False\<rparr>
                        (scanClients name entries)))"

text \<open>One turn of the loop of \<open>run\<close>, which says whether the loop goes on.\<close>

definition run_turn :: "env \<Rightarrow> 's platform \<Rightarrow> 's adopting \<Rightarrow> Queue park_round list \<Rightarrow> 's kernel \<Rightarrow> Service \<Rightarrow>
    ('s kernel \<times> Service \<times> bool) option" where
  "run_turn v p ad ws k svc =
     (case RecvInto v ws (h_queue (sv_reg svc)) of
        None \<Rightarrow> None
      | Some (q, res) \<Rightarrow>
          let reg = (sv_reg svc)\<lparr>h_queue := q\<rparr>;
              svc = svc\<lparr>sv_reg := reg\<rparr>;
              k = share p k reg
          in case res of
               Inl e \<Rightarrow> Some (k, stop svc e, False)
             | Inr (ty, payload) \<Rightarrow>
                 if ty \<noteq> typeServiceKnock then Some (k, svc, True)
                 else case parseIncarnation (bytes_text payload) of
                        None \<Rightarrow> Some (k, svc, True)
                      | Some sid \<Rightarrow> map_option (\<lambda>(k, svc). (k, svc, True)) (adopt v p (fst (ad sid)) (snd (ad sid)) k svc sid))"

fun close_sessions :: "env \<Rightarrow> 's platform \<Rightarrow> 's kernel \<Rightarrow> Session list \<Rightarrow> ('s kernel \<times> Session list) option" where
  "close_sessions v p k [] = Some (k, [])"
| "close_sessions v p k (s # ss) =
     (case close_chan v p k (s_ch s) of
        None \<Rightarrow> None
      | Some (k, d, _) \<Rightarrow> map_option (\<lambda>(k, ss). (k, s\<lparr>s_ch := d\<rparr> # ss)) (close_sessions v p k ss))"

text \<open>
  \<open>Close\<close> waits behind the close of the queue for the goroutine of \<open>run\<close>, which finds the queue
  closed and stops. The channels stay with their sessions until each is forgotten.
\<close>

definition Service_Close :: "env \<Rightarrow> 's platform \<Rightarrow> ('s kernel \<Rightarrow> 's kernel) \<Rightarrow> 's kernel \<Rightarrow> Service \<Rightarrow>
    ('s kernel \<times> Service \<times> ipc_error option) option" where
  "Service_Close v p between k svc =
     (if sv_closed svc then Some (k, svc, None)
      else case close_handle v p k (sv_reg svc) of
             None \<Rightarrow> None
           | Some (k, reg, err) \<Rightarrow>
               let svc = stop (svc\<lparr>sv_reg := reg, sv_done := True, sv_closed := True\<rparr>) ErrClosed in
               (case close_sessions v p k (sv_sessions svc) of
                  None \<Rightarrow> None
                | Some (k, ss) \<Rightarrow>
                    (case Queue_Unlink p between k reg of
                       (k, uerr) \<Rightarrow> Some (k, svc\<lparr>sv_sessions := ss\<rparr>, first_err err uerr))))"

text \<open>\<open>Wait\<close> blocks while the context is not cancelled.\<close>

definition Service_Wait :: "Service \<Rightarrow> ipc_error option option" where
  "Service_Wait svc = (if sv_done svc then Some (sv_err svc) else None)"

section \<open>Clients\<close>

record Client =
  k_name :: string
  k_ordinal :: int
  k_ch :: chan_handle
  k_seq :: u64

definition serviceOptions :: "option_fn list \<Rightarrow> option_fn list" where
  "serviceOptions opts = WithCapacity serviceCapacity # opts"

definition knock :: "env \<Rightarrow> 's platform \<Rightarrow> 's caller \<Rightarrow> Queue park_round list \<Rightarrow> 's kernel \<Rightarrow> string \<Rightarrow> string \<Rightarrow> 's kernel option" where
  "knock v p c ws k name sid =
     (case OpenQueue v p c k (name @ serviceRegistrySuffix) [] of
        None \<Rightarrow> None
      | Some (k, Inl e) \<Rightarrow> Some k
      | Some (k, Inr h) \<Rightarrow>
          (case SendTyped v ws (h_queue h) typeServiceKnock (text_bytes sid) of
             None \<Rightarrow> None
           | Some (q, _) \<Rightarrow> map_option fst (close_handle v p k (h\<lparr>h_queue := q\<rparr>))))"

definition drop_chan :: "env \<Rightarrow> 's platform \<Rightarrow> ('s kernel \<Rightarrow> 's kernel) \<Rightarrow> 's kernel \<Rightarrow> chan_handle \<Rightarrow> ('s kernel \<times> ipc_error option) option" where
  "drop_chan v p between k d =
     (case close_chan v p k d of
        None \<Rightarrow> None
      | Some (k, d, err) \<Rightarrow> (case Channel_Unlink p between k d of (k, uerr) \<Rightarrow> Some (k, first_err err uerr)))"

text \<open>\<open>int\<close> of a \<open>uint64\<close>.\<close>

definition int_of_u64 :: "u64 \<Rightarrow> int" where
  "int_of_u64 n = (if n < 2 ^ 63 then int n else int n - 2 ^ 64)"

text \<open>
  The client makes its channel and knocks. What happens until its first look at the channel is
  \<open>wld\<close>, and \<open>ws\<close> are the rounds of the receive behind it.
\<close>

definition Connect :: "env \<Rightarrow> 's platform \<Rightarrow> 's caller \<times> 's caller \<Rightarrow> 's caller \<Rightarrow> ('s kernel \<Rightarrow> 's kernel) \<Rightarrow> Queue park_round list \<Rightarrow>
    (Channel \<Rightarrow> Channel) \<Rightarrow> Channel park_round list \<Rightarrow> 's kernel \<Rightarrow> string \<Rightarrow> option_fn list \<Rightarrow> bytes result \<Rightarrow> ('s kernel \<times> Client result) option" where
  "Connect v p cs kc between us wld ws k name opts raw =
     (case validateName name of
        Some e \<Rightarrow> Some (k, Inl e)
      | None \<Rightarrow>
     (case newIncarnation raw of
        Inl e \<Rightarrow> Some (k, Inl e)
      | Inr sid \<Rightarrow>
     (case CreateChannel v p cs between k (name @ serviceClientPrefix @ sid) (serviceOptions opts) of
        None \<Rightarrow> None
      | Some (k, Inl e) \<Rightarrow> Some (k, Inl (Wrap ''ipc: connect'' e))
      | Some (k, Inr d) \<Rightarrow>
     (case knock v p kc us k name sid of
        None \<Rightarrow> None
      | Some k \<Rightarrow>
     (case Channel_Recv v ws (wld (the_chan d)) of
        None \<Rightarrow> None
      | Some (c, res) \<Rightarrow>
          let d = set_chan c d;
              res = (case res of
                       Inr (ty, msg) \<Rightarrow>
                         if ty \<noteq> typeServiceHello \<or> length msg \<noteq> serviceSeqSize
                         then Inl (Wrap ''the service sent another type before hello'' ErrCorrupt) else Inr msg
                     | Inl e \<Rightarrow> Inl e)
          in case res of
               Inl e \<Rightarrow> map_option (\<lambda>(k, _). (k, Inl (Wrap ''ipc: connect'' e))) (drop_chan v p between k d)
             | Inr msg \<Rightarrow>
                 Some (k, Inr \<lparr>k_name = name, k_ordinal = int_of_u64 (seq_of msg), k_ch = d, k_seq = sub64 serviceFirstSeq 1\<rparr>))))))"

definition MaxPayloadSize :: "Client \<Rightarrow> int" where
  "MaxPayloadSize c = Channel_MaxMessageSize (the_chan (k_ch c)) - int serviceSeqSize"

definition k_chan :: "Channel \<Rightarrow> Client \<Rightarrow> Client" where
  "k_chan ch' c = c\<lparr>k_ch := set_chan ch' (k_ch c)\<rparr>"

text \<open>
  The loop of \<open>Call\<close>: for each receive, what others did to the channel since the step before,
  and the rounds the receive waits. It is \<open>None\<close> when the receives run out.
\<close>

fun await_reply :: "env \<Rightarrow> ((Channel \<Rightarrow> Channel) \<times> Channel park_round list) list \<Rightarrow> u64 \<Rightarrow> Client \<Rightarrow> (Client \<times> (u32 \<times> bytes) result) option" where
  "await_reply v [] sq c = None"
| "await_reply v ((wld, ws) # rs) sq c =
     (case Channel_Recv v ws (wld (the_chan (k_ch c))) of
        None \<Rightarrow> None
      | Some (ch', Inl e) \<Rightarrow> Some (k_chan ch' c, Inl e)
      | Some (ch', Inr (rtyp, msg)) \<Rightarrow>
          let c = k_chan ch' c in
          if length msg < serviceSeqSize then Some (c, Inl (Wrap ''a reply is shorter than its sequence number'' ErrCorrupt))
          else let rseq = seq_of msg in
               if rseq < sq then await_reply v rs sq c
               else if rseq > sq then Some (c, Inl (Wrap ''reply sequence is ahead of call'' ErrCorrupt))
               else if rtyp = typeServiceError then Some (c, Inl (CallError (bytes_text (drop serviceSeqSize msg))))
               else if rtyp \<ge> serviceReservedMin then Some (c, Inl (Wrap ''reply type is reserved'' ErrCorrupt))
               else Some (c, Inr (rtyp, drop serviceSeqSize msg)))"

definition Call :: "env \<Rightarrow> Queue park_round list \<Rightarrow> ((Channel \<Rightarrow> Channel) \<times> Channel park_round list) list \<Rightarrow> Client \<Rightarrow> u32 \<Rightarrow> bytes \<Rightarrow>
    (Client \<times> (u32 \<times> bytes) result) option" where
  "Call v us rs c ty payload =
     (if ty \<ge> serviceReservedMin then Some (c, Inl ErrReservedType)
      else if int (length payload) > MaxPayloadSize c then Some (c, Inl ErrMessageTooLarge)
      else
        let sq = add64 (k_seq c) 1;
            c = c\<lparr>k_seq := sq\<rparr>
        in case Channel_SendTyped v us (the_chan (k_ch c)) ty (frame sq payload) of
             None \<Rightarrow> None
           | Some (ch', Inl e) \<Rightarrow> Some (k_chan ch' c, Inl e)
           | Some (ch', Inr _) \<Rightarrow> await_reply v rs sq (k_chan ch' c))"

definition CallTyped :: "env \<Rightarrow> Queue park_round list \<Rightarrow> ((Channel \<Rightarrow> Channel) \<times> Channel park_round list) list \<Rightarrow> 'm message_ops \<Rightarrow>
    Client \<Rightarrow> 'm \<Rightarrow> 'm \<Rightarrow> (Client \<times> 'm result) option" where
  "CallTyped v us rs ops c req reply =
     (case MarshalBinary ops req of
        Inl e \<Rightarrow> Some (c, Inl e)
      | Inr payload \<Rightarrow>
     (case Call v us rs c (TypeID ops req) payload of
        None \<Rightarrow> None
      | Some (c, Inl e) \<Rightarrow> Some (c, Inl e)
      | Some (c, Inr (ty, msg)) \<Rightarrow>
          if ty \<noteq> TypeID ops reply
          then Some (c, Inl (ErrOther (''ipc: call of type '' @ dec (unat (TypeID ops req)) @ '' got a reply of type '' @ dec (unat ty) @
                 '', want '' @ dec (unat (TypeID ops reply)))))
          else Some (c, UnmarshalBinary ops reply msg)))"

definition Client_Close :: "env \<Rightarrow> 's platform \<Rightarrow> ('s kernel \<Rightarrow> 's kernel) \<Rightarrow> 's kernel \<Rightarrow> Client \<Rightarrow> ('s kernel \<times> ipc_error option) option" where
  "Client_Close v p between k c = drop_chan v p between k (k_ch c)"

end
