(* ===== verification/Service_Props.thy ===== *)
theory Service_Props
  imports Service
begin

text \<open>
  The properties of the service layer: what a server replies, that a client takes no reply for
  its own that belongs to an earlier call, a call from end to end, and the numbers of the
  sessions.
\<close>

section \<open>Frames\<close>

lemma seq_of_frame [simp]: "seq_of (frame sq p) = sq mod 2 ^ 64"
  by (simp add: seq_of_def frame_def serviceSeqSize_def le_val_le_bytes)

lemma frame_simps [simp]: "drop serviceSeqSize (frame sq p) = p" "\<not> length (frame sq p) < serviceSeqSize"
  by (simp_all add: frame_def)

lemma frame_of: "\<not> length msg < serviceSeqSize \<Longrightarrow> frame (seq_of msg) (drop serviceSeqSize msg) = msg"
  by (simp add: frame_def seq_of_def le_bytes_le_val)

lemma text_roundtrip [simp]: "bytes_text (text_bytes s) = s"
proof -
  have "char_of (unat (word_of_nat (of_char c) :: 8 word)) = c" for c :: char
    by (simp add: unat_of_nat)
  then show ?thesis by (simp add: bytes_text_def text_bytes_def comp_def)
qed

lemma service_types [simp]:
  "\<not> typeServiceError < serviceReservedMin" "serviceReservedMin \<le> typeServiceError" "serviceReservedMin \<le> TypePadding"
  by (simp_all add: typeServiceError_def serviceReservedMin_def TypePadding_def)

section \<open>The reply of a server\<close>

text \<open>
  What the handler's result becomes: an error and a reserved type go to the client as the text
  of an error.
\<close>

definition reply_to :: "'h handler \<Rightarrow> (u32 \<times> bytes) result \<Rightarrow> u32 \<times> bytes" where
  "reply_to hn res =
     (case res of
        Inl e \<Rightarrow> (typeServiceError, text_bytes (h_Error hn e))
      | Inr (rt, r) \<Rightarrow>
          if serviceReservedMin \<le> rt then (typeServiceError, text_bytes (''ipc: reply type '' @ dec (unat rt) @ '' is reserved''))
          else (rt, r))"

text \<open>
  A server sends one reply for a request. It bears the number of the request and a type that
  is either that of an error or not reserved, and the handler sees only requests that are whole
  and whose type is not reserved.
\<close>

theorem answer_replies:
  "\<exists>ty sq p. answer v ws hn h s rtyp msg = (fst (answer v ws hn h s rtyp msg), service_reply v ws s ty sq p) \<and>
     (ty = typeServiceError \<or> ty < serviceReservedMin) \<and>
     (serviceSeqSize \<le> length msg \<longrightarrow> sq = seq_of msg) \<and>
     (if serviceSeqSize \<le> length msg \<and> rtyp < serviceReservedMin
      then fst (answer v ws hn h s rtyp msg) = fst (h_Call hn h s rtyp (drop serviceSeqSize msg)) \<and>
        (ty, p) = reply_to hn (snd (h_Call hn h s rtyp (drop serviceSeqSize msg)))
      else ty = typeServiceError \<and> fst (answer v ws hn h s rtyp msg) = h)"
  by (auto simp: answer_def reply_to_def Let_def not_le not_less split: prod.splits sum.splits)

section \<open>The replies a client takes\<close>

text \<open>
  Whatever others do to the channel, a call returns only a message with its own number, whose
  type is not reserved: no late reply to a call that was given up.
\<close>

theorem reply_is_own:
  assumes "await_reply v rs sq c = Some (c', Inr (ty, p))"
  shows "ty < serviceReservedMin \<and> (\<exists>(w, ws) \<in> set rs. \<exists>a b. Channel_Recv v ws a = Some (b, Inr (ty, frame sq p)))"
  using assms
proof (induction rs arbitrary: c)
  case (Cons r rs)
  obtain w ws where r: "r = (w, ws)" by force
  then obtain ch' rtyp msg where m: "Channel_Recv v ws (w (the_chan (k_ch c))) = Some (ch', Inr (rtyp, msg))" "\<not> length msg < serviceSeqSize"
    using Cons.prems by (auto simp: Let_def split: option.splits sum.splits if_splits)
  show ?case
  proof (cases "seq_of msg < sq")
    case True
    then have "await_reply v rs sq (k_chan ch' c) = Some (c', Inr (ty, p))" using Cons.prems r m by (simp add: Let_def)
    from Cons.IH [OF this] show ?thesis by auto
  next
    case False
    then have "rtyp = ty" "\<not> serviceReservedMin \<le> ty" "seq_of msg = sq" "drop serviceSeqSize msg = p"
      using Cons.prems r m by (auto simp: Let_def split: if_splits)
    then show ?thesis using m frame_of [OF m(2)] r by (force simp: not_le)
  qed
qed simp

section \<open>A call from end to end\<close>

lemma set_chan_simps [simp]: "the_chan (set_chan c d) = c"
  by (simp add: set_chan_def)

lemma k_chan_simps [simp]: "the_chan (k_ch (k_chan ch' c)) = ch'" "k_seq (k_chan ch' c) = k_seq c"
  by (simp_all add: k_chan_def)

definition receiving :: "Channel \<Rightarrow> entry list \<Rightarrow> bool" where
  "receiving c es \<longleftrightarrow> ring_inv (ring (rx c)) es \<and> quiet es \<and> \<not> q_closing (rx c) \<and> reader (rx c) \<and> shared c"

lemma recv_message:
  assumes "receiving c es" "messages es = m # ms"
  shows "\<exists>c' es'. Channel_RecvInto v ws c = Some (c', Inr m) \<and> receiving c' es' \<and> messages es' = ms"
proof -
  have q: "ring_inv (ring (rx c)) es" "quiet es" "\<not> q_closing (rx c)" "reader (rx c)" "shared c"
    using assms(1) by (simp_all add: receiving_def)
  obtain c' where "Channel_RecvInto v ws c = Some (c', Inr m)" "ring_inv (ring (rx c')) (drop_ready 1 es)"
    "\<not> q_closing (rx c')" "reader (rx c')" "shared c'"
    using RecvInto_first [OF q, of v ws] assms(2) by auto
  moreover have "quiet (drop_ready 1 es)" "messages (drop_ready 1 es) = ms"
    using quiet_take_ready [OF q(2)] assms(2) by auto
  ultimately show ?thesis by (auto simp: receiving_def)
qed

text \<open>What a reply is for the client that waits for it.\<close>

definition outcome :: "u32 \<times> bytes \<Rightarrow> (u32 \<times> bytes) result" where
  "outcome m = (if fst m = typeServiceError then Inl (CallError (bytes_text (snd m))) else Inr m)"

definition late_replies :: "u64 \<Rightarrow> (u32 \<times> bytes) list \<Rightarrow> bool" where
  "late_replies sq ms \<longleftrightarrow> (\<forall>(ty, msg) \<in> set ms. serviceSeqSize \<le> length msg \<and> seq_of msg < sq)"

lemma await_outcome:
  assumes "receiving (w (the_chan (k_ch c))) es" "messages es = late @ (ty, frame sq p) # rest" "late_replies sq late"
    and "sq < 2 ^ 64" "ty = typeServiceError \<or> ty < serviceReservedMin" "length late \<le> n"
  shows "\<exists>c' es'. await_reply v ((w, ws) # replicate n (id, [])) sq c = Some (c', outcome (ty, p)) \<and> k_seq c' = k_seq c \<and>
    receiving (the_chan (k_ch c')) es' \<and> messages es' = rest"
  using assms
proof (induction late arbitrary: w ws c es n)
  case Nil
  obtain ch' es' where r: "Channel_RecvInto v ws (w (the_chan (k_ch c))) = Some (ch', Inr (ty, frame sq p))"
    "receiving ch' es'" "messages es' = rest"
    using recv_message [OF Nil.prems(1), of "(ty, frame sq p)" rest v ws] Nil.prems(2) by auto
  have "await_reply v ((w, ws) # replicate n (id, [])) sq c = Some (k_chan ch' c, outcome (ty, p))"
    using r(1) Nil.prems(4,5) by (auto simp: Channel_Recv_def Let_def outcome_def not_le)
  then show ?case using r(2,3) k_chan_simps by metis
next
  case (Cons m late)
  obtain t x where m: "m = (t, x)" "\<not> length x < serviceSeqSize" "seq_of x < sq" "late_replies sq late"
    using Cons.prems(3) by (cases m) (auto simp: late_replies_def)
  obtain n' where n: "n = Suc n'" "length late \<le> n'" using Cons.prems(6) by (cases n) auto
  obtain ch' es' where r: "Channel_RecvInto v ws (w (the_chan (k_ch c))) = Some (ch', Inr (t, x))"
    "receiving ch' es'" "messages es' = late @ (ty, frame sq p) # rest"
    using recv_message [OF Cons.prems(1), of m "late @ (ty, frame sq p) # rest" v ws] Cons.prems(2) m(1) by auto
  have "await_reply v ((w, ws) # replicate n (id, [])) sq c = await_reply v ((id, []) # replicate n' (id, [])) sq (k_chan ch' c)"
    using r(1) m n(1) by (simp add: Channel_Recv_def Let_def)
  moreover have "\<exists>c' es'. await_reply v ((id, []) # replicate n' (id, [])) sq (k_chan ch' c) = Some (c', outcome (ty, p)) \<and>
      k_seq c' = k_seq (k_chan ch' c) \<and> receiving (the_chan (k_ch c')) es' \<and> messages es' = rest"
    by (rule Cons.IH [OF _ r(3) m(4) Cons.prems(4,5) n(2)]) (simp add: r(2))
  ultimately show ?case by (simp only: k_chan_simps)
qed


text \<open>The side that sends is left as it is by a receive, but for the watch it may start.\<close>

lemma checkPeer_sender: "checkPeer v q = (q', e) \<Longrightarrow> sender_at view room ms q' = sender_at view room ms q"
  using core_eqD [OF core_checkPeer [of v q q' e]] slots_ok_cong [of q' q] by (simp add: sender_at_def)

lemma chan_recvOne_sender:
  assumes "chan_recvOne v c = Some (c', res)" "sender_at view room ms (tx c)"
  shows "sender_at view room ms (tx c')"
  using assms by (auto simp: chan_recvOne_def peerErr_def on_rx_def checkPeer_sender split: prod.splits)

lemma RecvInto_sender:
  assumes "Channel_RecvInto v [] c = Some (c', res)" "sender_at view room ms (tx c)"
  shows "sender_at view room ms (tx c')"
proof -
  have "Channel_TryRecv v c = Some (c', res)" using assms(1)
    by (auto simp: Channel_RecvInto_def Channel_TryRecv_def as_reader_def park.simps
      split: prod.splits bool.splits if_splits option.splits sum.splits)
  then show ?thesis using assms(2) chan_recvOne_sender [of v _ _ _ view room ms]
    by (auto simp: Channel_TryRecv_def as_reader_def split: prod.splits bool.splits if_splits)
qed

text \<open>
  The two ends of a channel share its rings. While a call waits, the service takes one turn on
  the rings the client left behind, and the client goes on with the rings the service left.
\<close>

definition with_rings :: "Ring \<Rightarrow> Ring \<Rightarrow> Channel \<Rightarrow> Channel" where
  "with_rings r t c = c\<lparr>rx := (rx c)\<lparr>ring := r\<rparr>, tx := (tx c)\<lparr>ring := t\<rparr>\<rparr>"

definition faces :: "Session \<Rightarrow> Channel \<Rightarrow> Session" where
  "faces s c = s\<lparr>s_ch := set_chan (with_rings (ring (tx c)) (ring (rx c)) (the_chan (s_ch s))) (s_ch s)\<rparr>"

definition service_turn :: "env \<Rightarrow> 'h handler \<Rightarrow> 'h \<Rightarrow> Session \<Rightarrow> Channel \<Rightarrow> Channel" where
  "service_turn v hn h s c =
     (case serve_turn v [] [] hn h (faces s c) of
        Some (_, s', Serves) \<Rightarrow> with_rings (ring (tx (the_chan (s_ch s')))) (ring (rx (the_chan (s_ch s')))) c
      | _ \<Rightarrow> c)"

text \<open>A turn of the service that finds a request replies to it, behind the replies there are.\<close>

lemma serve_turn_replies:
  assumes "serve_turn v [] [] hn h s = Some (h', s', Serves)" "receiving (the_chan (s_ch s)) es" "messages es = [(ty, frame sq x)]"
    and "sender_at exact_view 1 ms (tx (the_chan (s_ch s)))" "ty < serviceReservedMin" "sq < 2 ^ 64"
    and "\<And>s. h_Call hn h s ty x = (h1, res)"
  shows "h' = h1 \<and> sender_at exact_view 0 (ms @ [(fst (reply_to hn res), frame sq (snd (reply_to hn res)))]) (tx (the_chan (s_ch s')))"
proof -
  obtain c1 where c1: "Channel_RecvInto v [] (the_chan (s_ch s)) = Some (c1, Inr (ty, frame sq x))"
    using recv_message [OF assms(2), of "(ty, frame sq x)" "[]" v "[]"] assms(3) by auto
  let ?s = "s\<lparr>s_ch := set_chan c1 (s_ch s)\<rparr>"
  obtain t y where ty: "reply_to hn res = (t, y)" by force
  have "answer v [] hn h ?s ty (frame sq x) = (h1, service_reply v [] ?s t sq y)"
    using ty assms(5-7) by (auto simp: answer_def reply_to_def Let_def split: sum.splits prod.splits if_splits)
  then have h: "h' = h1" and r: "service_reply v [] ?s t sq y = Some (s', Inr ())"
    using assms(1) c1 by (auto simp: serve_turn_def split: option.splits sum.splits)
  then obtain q where q: "SendTyped v [] (tx c1) t (frame sq y) = Some (q, Inr ())" "tx (the_chan (s_ch s')) = q"
    by (auto simp: service_reply_def Channel_SendTyped_def on_tx_def)
  have "sender_at exact_view (Suc 0) ms (tx c1)" using RecvInto_sender [OF c1 assms(4)] by simp
  from exact.SendTyped_at [OF q(1) this] h q(2) ty show ?thesis by (simp add: sent_or_not_def drains_def)
qed

text \<open>
  A call that reaches the service returns what the handler made of it: its reply, or an error
  with its text. Replies to calls given up before, which may still lie in the ring, are passed
  over.
\<close>

theorem call_returns_answer:
  fixes c :: Client and s :: Session
  defines "cc \<equiv> the_chan (k_ch c)" and "sc \<equiv> the_chan (s_ch s)" and "sq \<equiv> k_seq c + 1"
  assumes client: "receiving cc es" "late_replies sq (messages es)" "sender_at exact_view 1 [] (tx cc)" "sq < 2 ^ 64"
    and service: "\<not> q_closing (rx sc)" "reader (rx sc)" "shared sc" "sender_at exact_view 1 (messages es) ((tx sc)\<lparr>ring := ring (rx cc)\<rparr>)"
    and request: "ty < serviceReservedMin" "int (length x) \<le> MaxPayloadSize c"
    and sent: "Channel_SendTyped v [] cc ty (frame sq x) = Some (c1, Inr ())"
    and served: "serve_turn v [] [] hn h (faces s c1) = Some (h', s', Serves)"
    and handled: "\<And>s. h_Call hn h s ty x = (h1, res)" and receives: "length (messages es) \<le> n"
  shows "h' = h1 \<and> (\<exists>c'. Call v [] ((service_turn v hn h s, []) # replicate n (id, [])) c ty x = Some (c', outcome (reply_to hn res)) \<and> k_seq c' = sq)"
proof -
  let ?s = "faces s c1" and ?m = "(fst (reply_to hn res), frame sq (snd (reply_to hn res)))"
  obtain q where q: "SendTyped v [] (tx cc) ty (frame sq x) = Some (q, Inr ())" "c1 = set_tx q cc"
    using sent by (auto simp: Channel_SendTyped_def on_tx_def)
  have "sender_at exact_view 0 [(ty, frame sq x)] q"
    using exact.SendTyped_at [OF q(1), of 0 "[]"] client(3) by (simp add: sent_or_not_def drains_def)
  then obtain rs where rs: "ring_inv (ring q) rs" "quiet rs" "messages rs = [(ty, frame sq x)]"
    by (auto simp: sender_at_def exact_view_def)
  have "receiving (the_chan (s_ch ?s)) rs"
    using rs service(1-3) q(2) by (simp add: receiving_def faces_def with_rings_def shared_def sc_def)
  moreover have "tx (the_chan (s_ch ?s)) = (tx sc)\<lparr>ring := ring (rx cc)\<rparr>" by (simp add: faces_def with_rings_def q(2) sc_def)
  ultimately have srv: "h' = h1" "sender_at exact_view 0 (messages es @ [?m]) (tx (the_chan (s_ch s')))"
    using serve_turn_replies [OF served _ rs(3), of "messages es"] service(4) request(1) client(4) handled by auto
  then obtain es' where es': "ring_inv (ring (tx (the_chan (s_ch s')))) es'" "quiet es'" "messages es' = messages es @ [?m]"
    by (auto simp: sender_at_def exact_view_def)
  have "shared c1" using q(2) by simp
  moreover have "service_turn v hn h s c1 = with_rings (ring (tx (the_chan (s_ch s')))) (ring (rx (the_chan (s_ch s')))) c1"
    by (simp add: service_turn_def served)
  ultimately have rcv: "receiving (service_turn v hn h s c1) es'"
    using es' client(1) q(2) by (simp add: receiving_def with_rings_def shared_def)
  let ?c = "k_chan c1 (c\<lparr>k_seq := sq\<rparr>)"
  have "fst (reply_to hn res) = typeServiceError \<or> fst (reply_to hn res) < serviceReservedMin"
    by (auto simp: reply_to_def not_le split: sum.splits)
  then have "\<exists>c' es'. await_reply v ((service_turn v hn h s, []) # replicate n (id, [])) sq ?c = Some (c', outcome (fst (reply_to hn res), snd (reply_to hn res))) \<and>
      k_seq c' = k_seq ?c \<and> receiving (the_chan (k_ch c')) es' \<and> messages es' = []"
    by (intro await_outcome [OF _ es'(3) client(2,4) _ receives]) (simp_all add: rcv)
  then obtain c' where "await_reply v ((service_turn v hn h s, []) # replicate n (id, [])) sq ?c = Some (c', outcome (reply_to hn res))" "k_seq c' = sq"
    by (simp del: await_reply.simps) blast
  then show ?thesis using srv(1) sent request client(4)
    by (auto simp: Call_def cc_def sq_def not_le simp del: await_reply.simps)
qed

text \<open>A client and a service over two empty rings, and a handler that counts its calls.\<close>

lemma empty_send:
  assumes "ring_inv (ring q) []" "slots_ok q" "0 < ring_room (ring q)" "\<not> q_closing q" "0 \<in> set (owners (ring q))"
    and "snd (checkPeer demo_env q) = None" "ty \<noteq> TypePadding" "int (length p) \<le> MaxMessageSize (ring q)"
  shows "\<exists>q'. SendTyped demo_env [] q ty p = Some (q', Inr ())"
proof -
  let ?q = "q\<lparr>q_active := q_active q + 1\<rparr>"
  obtain q' res where w: "q_write demo_env ?q ty p = Some (q', res)"
    "write_post (ring ?q) [] ty p res (ring q') \<or> ring_inv (ring q') [] \<and> ring_room (ring q') = ring_room (ring ?q) \<and>
      (res = Inl ErrTooManyClaims \<and> 0 \<notin> set (owners (ring ?q)) \<or> (\<exists>e. res = Inl e \<and> snd (checkPeer demo_env ?q) = Some e))"
  proof (rule q_write_ok [of ?q "[]" demo_env ty p])
    show "ring_inv (ring ?q) []" "slots_ok ?q" "0 < ring_room (ring ?q)" using assms(1-3) by simp_all
  qed
  moreover have "\<not> refused (ring q) [] ty p e" for e
    using assms(7,8) claim_span_le [OF assms(1,8), of ty] by (auto simp: refused_def)
  ultimately have "res = Inr ()" using assms(5,6) by (cases res) (auto simp: write_post_def)
  then show ?thesis using w(1) assms(4) by (simp add: SendTyped_def enter_open park.simps or_unlinked_def)
qed

lemma demo_send:
  "ty \<noteq> TypePadding \<Longrightarrow> length p \<le> 2040 \<Longrightarrow> \<exists>q'. SendTyped demo_env [] (demo_queue\<lparr>watching := w\<rparr>) ty p = Some (q', Inr ())"
  using demo_queue_ok demo_queue_accepts(2)
  by (intro empty_send) (simp_all add: slots_ok_def checkPeer_def, simp_all add: demo_queue_def noProc_def)

lemma demo_recv:
  assumes "Channel_RecvInto demo_env [] c = Some (c', res)" "tx c = demo_queue\<lparr>watching := w\<rparr>"
  shows "\<exists>w. tx c' = demo_queue\<lparr>watching := w\<rparr>"
proof -
  have p: "checkPeer demo_env (demo_queue\<lparr>watching := w\<rparr>) = (demo_queue\<lparr>watching := w\<rparr>, None)" for w
    by (simp add: checkPeer_def demo_queue_def noProc_def)
  have "\<exists>w. tx c' = demo_queue\<lparr>watching := w\<rparr>" if "chan_recvOne demo_env c = Some (c', res)" "tx c = demo_queue\<lparr>watching := w\<rparr>" for c c' res w
    using that p by (auto simp: chan_recvOne_def peerErr_def on_rx_def set_rx_def set_tx_def)
  from this [of "set_rx (fst (enter (rx c))) c"] assms show ?thesis
    by (fastforce simp: Channel_RecvInto_def as_reader_def park.simps set_rx_def split: prod.splits bool.splits if_splits option.splits sum.splits)
qed

definition demo_handler :: "nat handler" where
  "demo_handler = \<lparr>h_Call = (\<lambda>h s ty p. (h + 1, Inr (ty, rev p))), h_Gone = (\<lambda>h s. h), h_Error = (\<lambda>e. ''failed'')\<rparr>"

definition demo_chan_handle :: chan_handle where
  "demo_chan_handle =
     (let h = \<lparr>h_name = ''demo'', h_inc = ''0123456789abcdef'', h_lock = None, h_seg = demo_segment, h_cfg = defaultConfig, h_queue = demo_queue\<rparr>
      in new_chan ''demo'' h h True)"

definition demo_client :: Client where
  "demo_client = \<lparr>k_name = ''demo'', k_ordinal = 0, k_ch = demo_chan_handle, k_seq = 0\<rparr>"

definition demo_session :: Session where
  "demo_session = \<lparr>s_ordinal = 0, s_id = ''0123456789abcdef'', s_ch = demo_chan_handle\<rparr>"

lemma demo_ends [simp]:
  "the_chan (k_ch demo_client) = newChannel ''demo'' demo_queue demo_queue True" "k_seq demo_client = 0"
  "the_chan (s_ch demo_session) = newChannel ''demo'' demo_queue demo_queue True"
  by (simp_all add: demo_client_def demo_session_def demo_chan_handle_def new_chan_def Let_def)

lemma demo_client_ready:
  "receiving (newChannel ''demo'' demo_queue demo_queue True) []" "sender_at exact_view 1 [] demo_queue"
  using demo_queue_ok
  by (auto simp: receiving_def newChannel_def quiet_def shared_def sender_at_def exact_view_def intro!: exI [of _ "[]"])
    (simp_all add: demo_queue_def)

theorem call_returns_answer_witness:
  "\<exists>c'. Call demo_env [] [(service_turn demo_env demo_handler 0 demo_session, [])] demo_client 5 [1, 2, 3] =
     Some (c', Inr (5, [3, 2, 1])) \<and> k_seq c' = 1"
proof -
  let ?cc = "newChannel ''demo'' demo_queue demo_queue True" and ?m = "(5 :: u32, frame 1 [1, 2, 3])"
  obtain q where q: "SendTyped demo_env [] demo_queue 5 (frame 1 [1, 2, 3]) = Some (q, Inr ())"
    using demo_send [of 5 "frame 1 [1, 2, 3]" "watching demo_queue"] by (auto simp: TypePadding_def frame_def serviceSeqSize_def)
  let ?c1 = "set_tx q ?cc" and ?s = "faces demo_session (set_tx q ?cc)"
  have sent: "Channel_SendTyped demo_env [] ?cc 5 (frame 1 [1, 2, 3]) = Some (?c1, Inr ())"
    by (simp add: Channel_SendTyped_def on_tx_def newChannel_def q del: One_nat_def)
  have "sender_at exact_view 0 [?m] q"
    using exact.SendTyped_at [OF q, of 0 "[]"] demo_client_ready(2) by (simp add: sent_or_not_def drains_def)
  then obtain rs where rs: "ring_inv (ring q) rs" "quiet rs" "messages rs = [?m]" by (auto simp: sender_at_def exact_view_def)
  have ends: "rx (the_chan (s_ch ?s)) = demo_queue\<lparr>ring := ring q\<rparr>" "tx (the_chan (s_ch ?s)) = demo_queue"
    by (simp_all add: faces_def with_rings_def newChannel_def)
  have "receiving (the_chan (s_ch ?s)) rs"
    using rs unfolding receiving_def shared_def ends by (simp add: demo_queue_def)
  then obtain c2 where c2: "Channel_RecvInto demo_env [] (the_chan (s_ch ?s)) = Some (c2, Inr ?m)"
    using recv_message [of _ rs ?m "[]" demo_env "[]"] rs(3) by auto
  obtain w where w: "tx c2 = demo_queue\<lparr>watching := w\<rparr>" using demo_recv [OF c2, of "watching demo_queue"] ends(2) by auto
  obtain q' where "SendTyped demo_env [] (tx c2) 5 (frame 1 [3, 2, 1]) = Some (q', Inr ())"
    using demo_send [of 5 "frame 1 [3, 2, 1]" w] w by (auto simp: TypePadding_def frame_def serviceSeqSize_def)
  then obtain s' where served: "serve_turn demo_env [] [] demo_handler 0 ?s = Some (1, s', Serves)"
    using c2 by (simp add: serve_turn_def answer_def Let_def demo_handler_def serviceReservedMin_def service_reply_def
        Channel_SendTyped_def on_tx_def del: One_nat_def)
  have "int (length [1, 2, 3 :: 8 word]) \<le> MaxPayloadSize demo_client"
    by (simp add: MaxPayloadSize_def Channel_MaxMessageSize_def newChannel_def serviceSeqSize_def demo_queue_def)
  then show ?thesis
    using call_returns_answer [of demo_client "[]" demo_session 5 "[1, 2, 3]" demo_env ?c1 demo_handler 0 1 s' 1 "Inr (5, [3, 2, 1])" 0]
      sent served demo_client_ready
    by (simp add: late_replies_def demo_handler_def reply_to_def outcome_def serviceReservedMin_def typeServiceError_def
        newChannel_def shared_def del: await_reply.simps One_nat_def) (simp add: demo_queue_def)
qed

section \<open>The numbers of the sessions\<close>

text \<open>
  What a service may do, in any order: adopt a client, take a turn for one of its sessions, read
  its queue, and close.
\<close>

inductive service_step :: "'s platform \<Rightarrow> 'h handler \<Rightarrow> Service \<Rightarrow> Service \<Rightarrow> bool" for p hn where
  adopts: "adopt v p c ws k svc sid = Some (k', svc') \<Longrightarrow> service_step p hn svc svc'"
| serves: "s \<in> set (sv_sessions svc) \<Longrightarrow> serve_step v p between ws us hn k h svc s = Some (k', h', svc') \<Longrightarrow> service_step p hn svc svc'"
| runs: "run_turn v p ad ws k svc = Some (k', svc', again) \<Longrightarrow> service_step p hn svc svc'"
| closes: "Service_Close v p between k svc = Some (k', svc', err) \<Longrightarrow> service_step p hn svc svc'"

definition sessions_ok :: "Service \<Rightarrow> bool" where
  "sessions_ok svc \<longleftrightarrow> distinct (map s_ordinal (sv_sessions svc)) \<and> (\<forall>s \<in> set (sv_sessions svc). 0 \<le> s_ordinal s \<and> s_ordinal s < sv_next svc) \<and>
     0 \<le> sv_next svc"

lemma sessions_ok_simps [simp]:
  "sessions_ok (stop svc e) = sessions_ok svc" "sessions_ok (svc\<lparr>sv_reg := r\<rparr>) = sessions_ok svc"
  "sessions_ok (svc\<lparr>sv_done := b\<rparr>) = sessions_ok svc" "sessions_ok (svc\<lparr>sv_closed := b\<rparr>) = sessions_ok svc"
  by (simp_all add: sessions_ok_def stop_def)

lemma forget_ok: "forget v p k svc s = Some (k', svc') \<Longrightarrow> sessions_ok svc \<Longrightarrow> sessions_ok svc'"
  by (auto simp: forget_def sessions_ok_def distinct_map inj_on_def)

lemma sessions_ok_ordinals:
  "map s_ordinal (sv_sessions svc') = map s_ordinal (sv_sessions svc) \<Longrightarrow> sv_next svc' = sv_next svc \<Longrightarrow> sessions_ok svc \<Longrightarrow> sessions_ok svc'"
proof -
  have "sessions_ok svc = (distinct (map s_ordinal (sv_sessions svc)) \<and>
      (\<forall>n \<in> set (map s_ordinal (sv_sessions svc)). 0 \<le> n \<and> n < sv_next svc) \<and> 0 \<le> sv_next svc)" for svc
    by (simp add: sessions_ok_def)
  then show "map s_ordinal (sv_sessions svc') = map s_ordinal (sv_sessions svc) \<Longrightarrow> sv_next svc' = sv_next svc \<Longrightarrow>
      sessions_ok svc \<Longrightarrow> sessions_ok svc'" by metis
qed

lemma put_session_ok: "sessions_ok svc \<Longrightarrow> sessions_ok (put_session s svc)"
  by (rule sessions_ok_ordinals [of _ svc]) (simp_all add: put_session_def)

lemma close_sessions_ordinals: "close_sessions v p k ss = Some (k', ss') \<Longrightarrow> map s_ordinal ss' = map s_ordinal ss"
  by (induction ss arbitrary: k ss') (auto split: option.splits)

lemma adopt_ok:
  assumes "adopt v p c ws k svc sid = Some (k', svc')" "sessions_ok svc"
  shows "sessions_ok svc'"
proof -
  have new: "sessions_ok (svc\<lparr>sv_next := sv_next svc + 1, sv_sessions := sv_sessions svc @ [\<lparr>s_ordinal = sv_next svc, s_id = i, s_ch = d\<rparr>]\<rparr>)" for i d
    using assms(2) by (force simp: sessions_ok_def)
  show ?thesis
    using assms
    by (auto simp: adopt_def Let_def new put_session_ok split: option.splits sum.splits dest!: forget_ok)
qed

lemma service_step_ok:
  assumes "service_step p hn svc svc'" "sessions_ok svc"
  shows "sessions_ok svc'"
  using assms
proof (induction rule: service_step.induct)
  case (serves s svc v between ws us k h k' h' svc')
  then show ?case using put_session_ok [OF serves(3)] forget_ok [OF _ serves(3)]
    by (auto simp: serve_step_def Let_def split: option.splits serve_next.splits prod.splits)
next
  case (runs v ad ws k svc k' svc' again)
  then show ?case
    by (auto simp: run_turn_def Let_def split: option.splits sum.splits if_splits dest!: adopt_ok)
next
  case (closes v between k svc k' svc' err)
  have "map s_ordinal (sv_sessions svc') = map s_ordinal (sv_sessions svc) \<and> sv_next svc' = sv_next svc"
    using closes(1)
    by (auto simp: Service_Close_def stop_def Let_def split: option.splits prod.splits if_splits dest!: close_sessions_ordinals)
  then show ?case using sessions_ok_ordinals closes(2) by blast
qed (rule adopt_ok)

lemma adopt_all_ok: "adopt_all v p ad k svc ids = Some (k', svc') \<Longrightarrow> sessions_ok svc \<Longrightarrow> sessions_ok svc'"
  by (induction ids arbitrary: k svc) (auto split: option.splits dest: adopt_ok)

text \<open>
  No two sessions of a service have the same number, whatever clients come and go: a number
  once given is not given again while the service lives.
\<close>

theorem session_numbers:
  assumes "Serve v p c ad k name hn' opts entries = Some (k', Inr svc)" "(service_step p hn)\<^sup>*\<^sup>* svc svc'"
  shows "distinct (map s_ordinal (sv_sessions svc')) \<and> (\<forall>s \<in> set (sv_sessions svc'). 0 \<le> s_ordinal s \<and> s_ordinal s < sv_next svc')"
proof -
  have "sessions_ok svc"
    using assms(1) by (auto simp: Serve_def sessions_ok_def [of "\<lparr>sv_name = _, sv_reg = _, sv_next = 0, sv_sessions = [], sv_err = _, sv_done = _, sv_closed = _\<rparr>"]
      split: option.splits sum.splits if_splits dest!: adopt_all_ok)
  with assms(2) have "sessions_ok svc'" by (induction rule: rtranclp_induct) (auto dest: service_step_ok)
  then show ?thesis by (simp add: sessions_ok_def)
qed

end
