(* ===== verification/Schema.thy ===== *)
theory Schema
  imports Go_Text
begin

text \<open>
  The data of the schema compiler: \<^verbatim>\<open>src/ipcgen/internal/schema/schema.go\<close> and the name rules
  of \<^verbatim>\<open>names.go\<close> beside it. The messages of a schema live in one list, and the Go pointer
  \<open>Type.Msg\<close> is the index of a message in that list, so that what \<open>Check\<close> stores in a
  message is seen through every reference to it. Text that \<open>fmt\<close> would format into an error
  is a constructor of \<open>problem\<close> with its arguments.
\<close>

named_theorems schema_simps \<open>rewrite rules for schema types and names\<close>

section \<open>Kinds, types and messages\<close>

datatype Kind = Bool | U8 | I8 | U16 | I16 | U32 | I32 | F32 | U64 | I64 | F64
  | String | Bytes | Array | Ref

definition scalarNames :: "(string \<times> Kind) list" where
  "scalarNames = [(''bool'', Bool), (''u8'', U8), (''i8'', I8), (''u16'', U16), (''i16'', I16),
     (''u32'', U32), (''i32'', I32), (''f32'', F32), (''u64'', U64), (''i64'', I64), (''f64'', F64)]"

definition IsVar :: "Kind \<Rightarrow> bool" where
  "IsVar k \<longleftrightarrow> k = String \<or> k = Bytes"

definition IsScalar :: "Kind \<Rightarrow> bool" where
  "IsScalar k \<longleftrightarrow> \<not> (k = String \<or> k = Bytes \<or> k = Array \<or> k = Ref)"

definition IsSigned :: "Kind \<Rightarrow> bool" where
  "IsSigned k \<longleftrightarrow> k = I8 \<or> k = I16 \<or> k = I32 \<or> k = I64"

definition IsFloat :: "Kind \<Rightarrow> bool" where
  "IsFloat k \<longleftrightarrow> k = F32 \<or> k = F64"

fun ScalarSize :: "Kind \<Rightarrow> nat" where
  "ScalarSize U16 = 2"
| "ScalarSize I16 = 2"
| "ScalarSize U32 = 4"
| "ScalarSize I32 = 4"
| "ScalarSize F32 = 4"
| "ScalarSize U64 = 8"
| "ScalarSize I64 = 8"
| "ScalarSize F64 = 8"
| "ScalarSize _ = 1"

fun Kind_String :: "Kind \<Rightarrow> string" where
  "Kind_String String = ''string''"
| "Kind_String Bytes = ''bytes''"
| "Kind_String Array = ''array''"
| "Kind_String Ref = ''message''"
| "Kind_String k = fst (the (find (\<lambda>(n, k'). k' = k) scalarNames))"

record Pos =
  Line :: nat
  Col :: nat

text \<open>
  \<open>Plain\<close> is a scalar, string or bytes type; \<open>ArrayOf\<close> and \<open>RefTo\<close> carry the fields that
  only an array or a reference uses.
\<close>

datatype Type =
    Plain Kind Pos
  | ArrayOf nat Type Pos
  | RefTo string "nat option" Pos

fun kind :: "Type \<Rightarrow> Kind" where
  "kind (Plain k _) = k"
| "kind (ArrayOf _ _ _) = Array"
| "kind (RefTo _ _ _) = Ref"

fun type_pos :: "Type \<Rightarrow> Pos" where
  "type_pos (Plain _ p) = p"
| "type_pos (ArrayOf _ _ p) = p"
| "type_pos (RefTo _ _ p) = p"

fun Type_String :: "Type \<Rightarrow> string" where
  "Type_String (ArrayOf n e _) = ''['' @ dec n @ '']'' @ Type_String e"
| "Type_String (RefTo n _ _) = n"
| "Type_String (Plain k _) = Kind_String k"

record Field =
  f_Name :: string
  f_Type :: Type
  f_Pos :: Pos
  f_Offset :: nat

definition Field_IsVar :: "Field \<Rightarrow> bool" where
  "Field_IsVar f = IsVar (kind (f_Type f))"

record Message =
  m_Name :: string
  m_ID :: u32
  m_Fields :: "Field list"
  m_Pos :: Pos
  m_IDPos :: Pos
  m_FixedSize :: nat
  m_Align :: nat

definition FixedFields :: "Message \<Rightarrow> Field list" where
  "FixedFields m = filter (\<lambda>f. \<not> Field_IsVar f) (m_Fields m)"

definition VarFields :: "Message \<Rightarrow> Field list" where
  "VarFields m = filter Field_IsVar (m_Fields m)"

definition Fixed :: "Message \<Rightarrow> bool" where
  "Fixed m \<longleftrightarrow> VarFields m = []"

text \<open>
  Size and alignment look through a reference at what \<open>Check\<close> stored in the message. They
  are only used once every reference is resolved.
\<close>

fun Type_Size :: "Message list \<Rightarrow> Type \<Rightarrow> nat" where
  "Type_Size ms (ArrayOf n e _) = n * Type_Size ms e"
| "Type_Size ms (RefTo _ r _) = (case r of Some i \<Rightarrow> m_FixedSize (ms ! i) | None \<Rightarrow> 0)"
| "Type_Size ms (Plain k _) = ScalarSize k"

fun Type_Align :: "Message list \<Rightarrow> Type \<Rightarrow> nat" where
  "Type_Align ms (ArrayOf n e _) = Type_Align ms e"
| "Type_Align ms (RefTo _ r _) = (case r of Some i \<Rightarrow> m_Align (ms ! i) | None \<Rightarrow> 1)"
| "Type_Align ms (Plain k _) = ScalarSize k"

datatype problem =
    UnexpectedChar nat
  | Expected string string
  | ExpectedNewline string string
  | NotU32 string
  | LengthTooLarge string
  | PackageDeclared
  | BadPackage string
  | NotUpperCamel string
  | MessageReserved string
  | MessageDeclared string nat
  | SameCName string string string
  | IDReserved
  | IDUsed u32 string
  | GoConstClash string string
  | NotLowerSnake string
  | FieldReserved string
  | FieldDeclared string string
  | SameGoName string string string
  | VarMessageField string string
  | UnknownType string
  | LengthZero
  | BadElem string
  | VarMessageElem string
  | ContainsItself string "string list"
  | SectionTooLarge string

record Error =
  e_File :: string
  e_Pos :: Pos
  e_Msg :: problem

record Schema =
  s_File :: string
  s_Package :: string
  s_PkgPos :: Pos
  s_Messages :: "Message list"
  s_Sorted :: "nat list"
  s_byName :: "string \<rightharpoonup> nat"

definition Lookup :: "Schema \<Rightarrow> string \<Rightarrow> nat option" where
  "Lookup s name = s_byName s name"

text \<open>\<open>sort.SliceStable\<close> by line, then column, as a stable insertion sort.\<close>

definition pos_less :: "Pos \<Rightarrow> Pos \<Rightarrow> bool" where
  "pos_less a b = (if Line a \<noteq> Line b then Line a < Line b else Col a < Col b)"

fun insert_error :: "Error \<Rightarrow> Error list \<Rightarrow> Error list" where
  "insert_error e [] = [e]"
| "insert_error e (x # xs) =
    (if pos_less (e_Pos x) (e_Pos e) then x # insert_error e xs else e # x # xs)"

definition sort_errors :: "Error list \<Rightarrow> Error list" where
  "sort_errors es = foldr insert_error es []"

lemma set_insert_error [simp]: "set (insert_error e es) = insert e (set es)"
  by (induction es) auto

lemma set_sort_errors [simp]: "set (sort_errors es) = set es"
  unfolding sort_errors_def by (induction es) auto

lemma sort_errors_Nil [simp]: "sort_errors es = [] \<longleftrightarrow> es = []"
  using set_sort_errors [of es] by (metis set_empty)

section \<open>Names\<close>

definition IsUpper :: "char \<Rightarrow> bool" where
  "IsUpper c \<longleftrightarrow> CHR ''A'' \<le> c \<and> c \<le> CHR ''Z''"

definition IsLower :: "char \<Rightarrow> bool" where
  "IsLower c \<longleftrightarrow> CHR ''a'' \<le> c \<and> c \<le> CHR ''z''"

definition IsDigit :: "char \<Rightarrow> bool" where
  "IsDigit c \<longleftrightarrow> CHR ''0'' \<le> c \<and> c \<le> CHR ''9''"

definition ToLower :: "char \<Rightarrow> char" where
  "ToLower c = (if IsUpper c then char_of (of_char c + 32 :: nat) else c)"

definition ToUpper :: "char \<Rightarrow> char" where
  "ToUpper c = (if IsLower c then char_of (of_char c - 32 :: nat) else c)"

text \<open>The regular expression \<open>^[A-Z][A-Za-z0-9]*$\<close>.\<close>

definition messageName :: "string \<Rightarrow> bool" where
  "messageName s = (case s of [] \<Rightarrow> False
     | c # cs \<Rightarrow> IsUpper c \<and> list_all (\<lambda>d. IsUpper d \<or> IsLower d \<or> IsDigit d) cs)"

text \<open>The regular expression \<open>^[a-z][a-z0-9]*(_[a-z0-9]+)*$\<close>.\<close>

fun snake_tail :: "string \<Rightarrow> bool" where
  "snake_tail [] = True"
| "snake_tail (c # cs) =
    (if c = CHR ''_'' then (case cs of [] \<Rightarrow> False | d # _ \<Rightarrow> (IsLower d \<or> IsDigit d)) \<and> snake_tail cs
     else (IsLower c \<or> IsDigit c) \<and> snake_tail cs)"

definition snakeName :: "string \<Rightarrow> bool" where
  "snakeName s = (case s of [] \<Rightarrow> False | c # cs \<Rightarrow> IsLower c \<and> snake_tail cs)"

fun snake_from :: "char option \<Rightarrow> string \<Rightarrow> string" where
  "snake_from prev [] = []"
| "snake_from prev (c # cs) =
    (case prev of
       Some p \<Rightarrow> if IsUpper c \<and> (IsLower p \<or> IsDigit p
                    \<or> IsUpper p \<and> (case cs of [] \<Rightarrow> False | d # _ \<Rightarrow> IsLower d))
                 then [CHR ''_''] else []
     | None \<Rightarrow> []) @ ToLower c # snake_from (Some c) cs"

definition Snake :: "string \<Rightarrow> string" where
  "Snake name = snake_from None name"

definition Message_Snake :: "Message \<Rightarrow> string" where
  "Message_Snake m = Snake (m_Name m)"

fun go_split :: "char \<Rightarrow> string \<Rightarrow> string list" where
  "go_split sep [] = [[]]"
| "go_split sep (c # cs) =
    (if c = sep then [] # go_split sep cs
     else (c # hd (go_split sep cs)) # tl (go_split sep cs))"

definition Camel :: "string \<Rightarrow> string" where
  "Camel name = concat (map (\<lambda>part. case part of [] \<Rightarrow> [] | c # cs \<Rightarrow> ToUpper c # cs)
     (go_split (CHR ''_'') name))"

definition reservedWords :: "string list" where
  "reservedWords = [
    ''auto'', ''break'', ''case'', ''char'', ''const'', ''continue'', ''default'', ''do'', ''double'', ''else'', ''enum'', ''extern'',
    ''float'', ''for'', ''goto'', ''if'', ''inline'', ''int'', ''long'', ''register'', ''restrict'', ''return'', ''short'', ''signed'',
    ''sizeof'', ''static'', ''struct'', ''switch'', ''typedef'', ''union'', ''unsigned'', ''void'', ''volatile'', ''while'',
    ''alignas'', ''alignof'', ''bool'', ''true'', ''false'', ''static_assert'', ''thread_local'', ''noreturn'', ''complex'',
    ''imaginary'', ''assert'', ''errno'', ''offsetof'', ''linux'', ''unix'', ''i386'',
    ''and'', ''and_eq'', ''asm'', ''bitand'', ''bitor'', ''catch'', ''char8_t'', ''char16_t'', ''char32_t'', ''class'', ''compl'',
    ''concept'', ''consteval'', ''constexpr'', ''constinit'', ''const_cast'', ''co_await'', ''co_return'', ''co_yield'',
    ''decltype'', ''delete'', ''dynamic_cast'', ''explicit'', ''export'', ''friend'', ''mutable'', ''namespace'', ''new'',
    ''noexcept'', ''not'', ''not_eq'', ''nullptr'', ''operator'', ''or'', ''or_eq'', ''private'', ''protected'', ''public'',
    ''reinterpret_cast'', ''requires'', ''static_cast'', ''template'', ''this'', ''throw'', ''try'', ''typeid'', ''typename'',
    ''using'', ''virtual'', ''wchar_t'', ''xor'', ''xor_eq'', ''std'',
    ''chan'', ''defer'', ''fallthrough'', ''func'', ''go'', ''import'', ''interface'', ''map'', ''package'', ''range'', ''select'',
    ''type'', ''var'',
    ''as'', ''async'', ''await'', ''def'', ''del'', ''elif'', ''except'', ''finally'', ''from'', ''global'', ''in'', ''is'', ''lambda'',
    ''nonlocal'', ''pass'', ''raise'', ''with'', ''yield'', ''none'', ''self'', ''cls'',
    ''size'', ''encode'', ''decode'', ''type_id'', ''fixed_size'']"

definition goMethods :: "string list" where
  "goMethods = [''Size'', ''MarshalTo'', ''MarshalBinary'', ''UnmarshalBinary'', ''TypeID'']"

definition pyNames :: "string list" where
  "pyNames = [''MESSAGES'']"

definition goNames :: "string list" where
  "goNames = [''Message'', ''NewMessage'']"

section \<open>What the name rules give\<close>

lemmas char_class_defs = IsUpper_def IsLower_def IsDigit_def less_eq_char_def

lemma ToLower_lower: "IsUpper c \<Longrightarrow> IsLower (ToLower c)"
  by (simp add: ToLower_def char_class_defs)

lemma ToUpper_upper: "IsLower c \<Longrightarrow> IsUpper (ToUpper c)"
proof -
  assume *: "IsLower c"
  then have "(of_char c - 32 :: nat) mod 256 = of_char c - 32"
    by (intro mod_less) (auto simp: char_class_defs)
  with * show ?thesis by (auto simp: ToUpper_def char_class_defs)
qed

lemma ToUpper_id: "IsDigit c \<Longrightarrow> ToUpper c = c"
  by (simp add: ToUpper_def char_class_defs)

lemma ToLower_id: "IsLower c \<or> IsDigit c \<Longrightarrow> ToLower c = c"
  by (auto simp: ToLower_def char_class_defs)

lemma underscore_class [simp]: "\<not> IsLower (CHR ''_'')" "\<not> IsDigit (CHR ''_'')" "\<not> IsUpper (CHR ''_'')"
  by (simp_all add: char_class_defs)

lemma ToLower_word:
  "IsUpper c \<or> IsLower c \<or> IsDigit c \<Longrightarrow> IsLower (ToLower c) \<or> IsDigit (ToLower c)"
  using ToLower_lower ToLower_id by metis

lemma snake_tail_word: "IsLower c \<or> IsDigit c \<Longrightarrow> snake_tail (c # cs) = snake_tail cs"
  by auto

lemma snake_tail_break: "IsLower c \<or> IsDigit c \<Longrightarrow> snake_tail (CHR ''_'' # c # cs) = snake_tail cs"
  by auto

lemma snake_tail_snake_from:
  "list_all (\<lambda>d. IsUpper d \<or> IsLower d \<or> IsDigit d) cs \<Longrightarrow> snake_tail (snake_from (Some p) cs)"
proof (induction cs arbitrary: p)
  case (Cons c cs)
  then have "IsLower (ToLower c) \<or> IsDigit (ToLower c)" using ToLower_word by simp
  with Cons show ?case
    by (simp only: snake_from.simps option.case) (simp add: snake_tail_word snake_tail_break del: snake_tail.simps)
qed simp

lemma snakeName_Snake: "messageName n \<Longrightarrow> snakeName (Snake n)"
  by (auto simp: messageName_def snakeName_def Snake_def ToLower_lower snake_tail_snake_from
      split: list.splits)

lemma go_split_not_Nil [simp]: "go_split sep s \<noteq> []"
  by (cases s) auto

lemma set_go_split: "x \<in> set (go_split sep s) \<Longrightarrow> set x \<subseteq> set s - {sep}"
proof (induction s arbitrary: x)
  case (Cons c cs)
  obtain w ws where split: "go_split sep cs = w # ws" by (cases "go_split sep cs") auto
  consider "c = sep" "x = []" | "x \<in> set (go_split sep cs)" | "c \<noteq> sep" "x = c # w"
    using Cons.prems split by (auto split: if_splits)
  then show ?case
  proof cases
    case 3
    then show ?thesis using Cons.IH [of w] split by auto
  qed (use Cons.IH [of x] in auto)
qed simp

lemma snake_tail_chars: "snake_tail cs \<Longrightarrow> c \<in> set cs \<Longrightarrow> c = CHR ''_'' \<or> IsLower c \<or> IsDigit c"
  by (induction cs) (auto split: if_splits)

lemma messageName_Camel:
  assumes "snakeName f"
  shows "messageName (Camel f)"
proof -
  obtain c cs where f: "f = c # cs" and c: "IsLower c" and cs: "snake_tail cs"
    using assms by (auto simp: snakeName_def split: list.splits)
  have word: "IsUpper d \<or> IsLower d \<or> IsDigit d"
    if "part \<in> set (go_split (CHR ''_'') f)" "d \<in> set (case part of [] \<Rightarrow> [] | c # cs \<Rightarrow> ToUpper c # cs)" for part d
  proof -
    have "IsLower x \<or> IsDigit x" if "x \<in> set part" for x
      using set_go_split [OF \<open>part \<in> _\<close>] that snake_tail_chars [OF cs] c f by auto
    then show ?thesis using that(2) ToUpper_upper ToUpper_id by (cases part) (simp, metis list.simps(5) set_ConsD list.set_intros)
  qed
  have "c \<noteq> CHR ''_''" using c by auto
  then obtain w ws where "go_split (CHR ''_'') f = (c # w) # ws" using f by simp
  then have "Camel f = ToUpper c # w @ concat (map (\<lambda>part. case part of [] \<Rightarrow> [] | c # cs \<Rightarrow> ToUpper c # cs) ws)"
    by (simp add: Camel_def)
  moreover have "IsUpper d \<or> IsLower d \<or> IsDigit d" if "d \<in> set (Camel f)" for d
    using that word unfolding Camel_def by (auto simp del: go_split.simps)
  ultimately show ?thesis using ToUpper_upper [OF c] by (simp add: messageName_def list_all_iff)
qed

end
