(* ===== verification/Schema_Parse.thy ===== *)
theory Schema_Parse
  imports Schema
begin

text \<open>
  The lexer and the parser of \<^verbatim>\<open>src/ipcgen/internal/schema/parse.go\<close>. The parser's position in
  its token slice is the list of tokens it has yet to read. The lexer and both parser loops
  are total functions: their termination proofs show that every turn consumes input. A type
  printed by \<open>Type.String\<close> and parsed again is the same type, and what \<open>Parse\<close> returns keeps
  the bounds that the checker relies on.
\<close>

section \<open>Tokens\<close>

datatype tokKind = tEOF | tNewline | tIdent | tNumber | tLBrace | tRBrace | tLBrack | tRBrack | tEq

definition quoted :: "char \<Rightarrow> string" where
  "quoted c = [CHR 0x27, c, CHR 0x27]"

fun tokNames :: "tokKind \<Rightarrow> string" where
  "tokNames tEOF = ''end of file''"
| "tokNames tNewline = ''newline''"
| "tokNames tIdent = ''name''"
| "tokNames tNumber = ''number''"
| "tokNames tLBrace = quoted (CHR ''{'')"
| "tokNames tRBrace = quoted (CHR ''}'')"
| "tokNames tLBrack = quoted (CHR ''['')"
| "tokNames tRBrack = quoted (CHR '']'')"
| "tokNames tEq = quoted (CHR ''='')"

record token =
  tk_kind :: tokKind
  tk_text :: string
  tk_pos :: Pos

definition describe :: "token \<Rightarrow> string" where
  "describe t = (if tk_kind t = tIdent \<or> tk_kind t = tNumber
     then CHR 0x22 # tk_text t @ [CHR 0x22] else tokNames (tk_kind t))"

definition isIdentStart :: "nat \<Rightarrow> bool" where
  "isIdentStart r \<longleftrightarrow> r = 95 \<or> 97 \<le> r \<and> r \<le> 122 \<or> 65 \<le> r \<and> r \<le> 90"

definition isDigit :: "nat \<Rightarrow> bool" where
  "isDigit r \<longleftrightarrow> 48 \<le> r \<and> r \<le> 57"

definition wordByte :: "char \<Rightarrow> bool" where
  "wordByte c \<longleftrightarrow> isIdentStart (of_char c) \<or> isDigit (of_char c)"

definition runes :: "string \<Rightarrow> nat list" where
  "runes s = map of_char s"

text \<open>The loop that skips a comment advances by runes up to the end of the line.\<close>

function skip_comment :: "string \<Rightarrow> string" where
  "skip_comment src = (case src of [] \<Rightarrow> [] | c # cs \<Rightarrow>
     if c = CHR 0x0A then src else skip_comment (drop (snd (DecodeRune (runes src)) - 1) cs))"
  by pat_completeness auto
termination
  by (relation "measure length") auto

declare skip_comment.simps [simp del]

definition punct :: "nat \<Rightarrow> tokKind option" where
  "punct r = map_of [(123, tLBrace), (125, tRBrace), (91, tLBrack), (93, tRBrack), (61, tEq)] r"

definition push :: "token \<Rightarrow> Error + token list \<Rightarrow> Error + token list" where
  "push t r = (case r of Inl e \<Rightarrow> Inl e | Inr ts \<Rightarrow> Inr (t # ts))"

lemma mod_block: "k * m \<le> b \<Longrightarrow> b < Suc k * m \<Longrightarrow> b mod m = b - k * (m :: nat)"
proof -
  assume "k * m \<le> b" "b < Suc k * m"
  then obtain d where "b = d + k * m" "d < m" by (metis add.commute le_Suc_ex less_add_eq_less mult_Suc nat_add_left_cancel_less)
  then show ?thesis by simp
qed

lemma DecodeRune_high:
  assumes "DecodeRune (b # p) = (r, w)" "0x80 \<le> b"
  shows "0x80 \<le> r"
proof -
  have m32: "b mod 32 = b - 192" if "194 \<le> b" "b \<le> 223" using that mod_block [of 6 32 b] by simp
  have m16: "b mod 16 = b - 224" if "225 \<le> b" "b \<le> 239" using that mod_block [of 14 16 b] by simp
  have m8: "b mod 8 = b - 240" if "241 \<le> b" "b \<le> 244" using that mod_block [of 30 8 b] by simp
  have lo: "x mod 64 = x - 128" if "144 \<le> x" "x \<le> 191" for x :: nat using that mod_block [of 2 64 x] by simp
  show ?thesis
    using assms m32 m16 m8 lo [of "hd p"]
    by (simp add: DecodeRune_def utf8_first_def RuneError_def split: if_splits option.splits prod.splits list.splits)
      ((elim conjE, linarith)+)
qed

lemma skip_comment_eq: "skip_comment src = dropWhile (\<lambda>c. c \<noteq> CHR 0x0A) src"
proof (induction src rule: skip_comment.induct)
  case (1 src)
  show ?case
  proof (cases src)
    case Nil
    then show ?thesis by (simp add: skip_comment.simps)
  next
    case (Cons c cs)
    obtain r w where rw: "DecodeRune (runes src) = (r, w)" by fastforce
    have no: "x \<noteq> CHR 0x0A" if "x \<in> set (take (w - 1) cs)" for x
    proof -
      have "of_char x \<in> set (take (w - 1) (map of_char cs) :: nat list)"
        using that by (metis image_eqI list.set_map take_map)
      then have "0x80 \<le> (of_char x :: nat)"
        using DecodeRune_covers rw Cons by (metis list.map(2) runes_def)
      then show ?thesis by auto
    qed
    have "dropWhile (\<lambda>c. c \<noteq> CHR 0x0A) cs = dropWhile (\<lambda>c. c \<noteq> CHR 0x0A) (take (w - 1) cs @ drop (w - 1) cs)" by simp
    also have "\<dots> = dropWhile (\<lambda>c. c \<noteq> CHR 0x0A) (drop (w - 1) cs)"
      using no by (subst dropWhile_append2) auto
    finally show ?thesis using 1 Cons rw by (subst skip_comment.simps) auto
  qed
qed

section \<open>The lexer\<close>

lemma word_step:
  assumes "DecodeRune (runes (c # cs)) = (r, w)" "isIdentStart r \<or> isDigit r"
  shows "wordByte c"
proof (cases "of_char c < (0x80 :: nat)")
  case True
  then show ?thesis using assms by (simp add: runes_def wordByte_def)
next
  case False
  then show ?thesis using assms DecodeRune_high [of "of_char c" "map of_char cs" r w]
    by (auto simp: runes_def isIdentStart_def isDigit_def)
qed

lemma comment_step: "DecodeRune (runes (c # cs)) = (35, w) \<Longrightarrow> c \<noteq> CHR 0x0A"
  by (auto simp: runes_def)

function lex_from :: "string \<Rightarrow> nat \<Rightarrow> nat \<Rightarrow> string \<Rightarrow> Error + token list" where
  "lex_from path line col src = (let pos = \<lparr>Line = line, Col = col\<rparr> in
    case src of
      [] \<Rightarrow> Inr [\<lparr>tk_kind = tEOF, tk_text = [], tk_pos = pos\<rparr>]
    | c # cs \<Rightarrow> (case DecodeRune (runes src) of (r, w) \<Rightarrow>
        if r = 10 then
          push \<lparr>tk_kind = tNewline, tk_text = [CHR 0x0A], tk_pos = pos\<rparr> (lex_from path (line + 1) 1 cs)
        else if r = 32 \<or> r = 9 \<or> r = 13 then lex_from path line (col + 1) cs
        else if r = 35 then lex_from path line col (skip_comment src)
        else if isIdentStart r \<or> isDigit r then
          (let word = takeWhile wordByte src;
               k = (if isDigit r then tNumber else tIdent)
           in push \<lparr>tk_kind = k, tk_text = word, tk_pos = pos\<rparr>
                (lex_from path line (col + length word) (dropWhile wordByte src)))
        else case punct r of
            None \<Rightarrow> Inl \<lparr>e_File = path, e_Pos = pos, e_Msg = UnexpectedChar r\<rparr>
          | Some k \<Rightarrow> push \<lparr>tk_kind = k, tk_text = [c], tk_pos = pos\<rparr>
                (lex_from path line (col + 1) (drop (w - 1) cs))))"
  by pat_completeness auto
termination
proof (relation "measure (\<lambda>(path, line, col, src). length src)", goal_cases)
  case (4 path line col src pos c cs r w)
  then show ?case
    using comment_step [of c cs w] length_dropWhile_le [of "\<lambda>c. c \<noteq> CHR 0x0A" cs]
    by (auto simp: skip_comment_eq)
next
  case (5 path line col src pos c cs r w word k)
  then show ?case
    using word_step [of c cs r w] length_dropWhile_le [of wordByte cs] by auto
qed auto

declare lex_from.simps [simp del]

definition lex :: "string \<Rightarrow> string \<Rightarrow> Error + token list" where
  "lex path src = lex_from path 1 1 src"

section \<open>The parser\<close>

definition eof_token :: token where
  "eof_token = \<lparr>tk_kind = tEOF, tk_text = [], tk_pos = \<lparr>Line = 0, Col = 0\<rparr>\<rparr>"

definition peek :: "token list \<Rightarrow> token" where
  "peek ts = (case ts of [] \<Rightarrow> eof_token | t # _ \<Rightarrow> t)"

definition next_tok :: "token list \<Rightarrow> token \<times> token list" where
  "next_tok ts = (let t = peek ts in (t, if tk_kind t \<noteq> tEOF then tl ts else ts))"

definition errorf :: "string \<Rightarrow> Pos \<Rightarrow> problem \<Rightarrow> Error" where
  "errorf path pos p = \<lparr>e_File = path, e_Pos = pos, e_Msg = p\<rparr>"

definition expect :: "string \<Rightarrow> token list \<Rightarrow> tokKind \<Rightarrow> string \<Rightarrow> Error + token \<times> token list" where
  "expect path ts k what = (case next_tok ts of (t, ts') \<Rightarrow>
     if tk_kind t \<noteq> k then Inl (errorf path (tk_pos t) (Expected what (describe t))) else Inr (t, ts'))"

fun skipNewlines :: "token list \<Rightarrow> token list" where
  "skipNewlines [] = []"
| "skipNewlines (t # ts) = (if tk_kind t = tNewline then skipNewlines ts else t # ts)"

definition endLine :: "string \<Rightarrow> token list \<Rightarrow> string \<Rightarrow> Error + token list" where
  "endLine path ts after = (let t = peek ts in
     if tk_kind t = tNewline \<or> tk_kind t = tEOF then Inr (snd (next_tok ts))
     else Inl (errorf path (tk_pos t) (ExpectedNewline after (describe t))))"

definition parseNum :: "string \<Rightarrow> nat \<Rightarrow> nat option" where
  "parseNum text bits =
    (if length text > 2 \<and> (take 2 text = ''0x'' \<or> take 2 text = ''0X'')
     then ParseUint (drop 2 text) 16 bits else ParseUint text 10 bits)"

definition named_type :: "string \<Rightarrow> Pos \<Rightarrow> Type" where
  "named_type text pos = (case map_of scalarNames text of
       Some k \<Rightarrow> Plain k pos
     | None \<Rightarrow> if text = ''string'' then Plain String pos
               else if text = ''bytes'' then Plain Bytes pos
               else RefTo text None pos)"

lemma next_tok_length: "next_tok ts = (t, ts') \<Longrightarrow> length ts' \<le> length ts \<and> (tk_kind t \<noteq> tEOF \<longrightarrow> length ts' < length ts)"
  by (cases ts) (auto simp: next_tok_def peek_def eof_token_def Let_def split: if_splits)

lemma expect_length: "expect path ts k what = Inr (t, ts') \<Longrightarrow> length ts' \<le> length ts"
  using next_tok_length [of ts] by (auto simp: expect_def split: prod.splits if_splits)

lemma length_skipNewlines: "length (skipNewlines ts) \<le> length ts"
  by (induction ts) auto

lemma endLine_length: "endLine path ts after = Inr ts' \<Longrightarrow> length ts' \<le> length ts"
  using next_tok_length [of ts "fst (next_tok ts)" "snd (next_tok ts)"] by (auto simp: endLine_def Let_def split: if_splits)

function p_typ :: "string \<Rightarrow> token list \<Rightarrow> Error + Type \<times> token list" where
  "p_typ path ts = (case next_tok ts of (t, ts1) \<Rightarrow>
     if tk_kind t = tIdent then Inr (named_type (tk_text t) (tk_pos t), ts1)
     else if tk_kind t = tLBrack then
       (case expect path ts1 tNumber ''array length'' of Inl e \<Rightarrow> Inl e | Inr (n, ts2) \<Rightarrow>
        case parseNum (tk_text n) 31 of
          None \<Rightarrow> Inl (errorf path (tk_pos n) (LengthTooLarge (tk_text n)))
        | Some len \<Rightarrow>
        case expect path ts2 tRBrack (quoted (CHR '']'')) of Inl e \<Rightarrow> Inl e | Inr (_, ts3) \<Rightarrow>
        case p_typ path ts3 of Inl e \<Rightarrow> Inl e | Inr (elem, ts4) \<Rightarrow>
          Inr (ArrayOf len elem (tk_pos t), ts4))
     else Inl (errorf path (tk_pos t) (Expected ''type'' (describe t))))"
  by pat_completeness auto
termination
  by (relation "measure (\<lambda>(path, ts). length ts)")
    (auto dest!: expect_length next_tok_length [OF sym])

declare p_typ.simps [simp del]

lemma p_typ_length: "p_typ path ts = Inr (t, ts') \<Longrightarrow> length ts' < length ts"
proof (induction path ts arbitrary: t ts' rule: p_typ.induct)
  case (1 path ts)
  obtain t0 ts1 where n: "next_tok ts = (t0, ts1)" by fastforce
  show ?case
    using 1 n next_tok_length [OF n]
    by (subst (asm) (2) p_typ.simps)
      (fastforce split: if_splits sum.splits option.splits prod.splits dest: expect_length)
qed

definition new_field :: "token \<Rightarrow> Type \<Rightarrow> Field" where
  "new_field t ty = \<lparr>f_Name = tk_text t, f_Type = ty, f_Pos = tk_pos t, f_Offset = 0\<rparr>"

function p_fields :: "string \<Rightarrow> Message \<Rightarrow> token list \<Rightarrow> Error + Message \<times> token list" where
  "p_fields path m ts = (case next_tok (skipNewlines ts) of (t, ts1) \<Rightarrow>
     if tk_kind t = tRBrace then
       (case endLine path ts1 (quoted (CHR ''}'')) of Inl e \<Rightarrow> Inl e | Inr ts2 \<Rightarrow> Inr (m, ts2))
     else if tk_kind t \<noteq> tIdent then
       Inl (errorf path (tk_pos t) (Expected (''field name or '' @ quoted (CHR ''}'')) (describe t)))
     else (case p_typ path ts1 of Inl e \<Rightarrow> Inl e | Inr (ty, ts2) \<Rightarrow>
       case endLine path ts2 ''field'' of Inl e \<Rightarrow> Inl e | Inr ts3 \<Rightarrow>
         p_fields path (m\<lparr>m_Fields := m_Fields m @ [new_field t ty]\<rparr>) ts3))"
  by pat_completeness auto
termination
proof (relation "measure (\<lambda>(path, m, ts). length ts)", goal_cases)
  case (2 path m ts t ts1 b ty ts2 ts3)
  then show ?case
    using next_tok_length [of "skipNewlines ts" t ts1] length_skipNewlines [of ts]
      p_typ_length [of path ts1 ty ts2] endLine_length [of path ts2 "''field''" ts3]
    by auto
qed auto

declare p_fields.simps [simp del]

definition p_message :: "string \<Rightarrow> token list \<Rightarrow> Error + Message \<times> token list" where
  "p_message path ts =
    (case expect path ts tIdent ''message name'' of Inl e \<Rightarrow> Inl e | Inr (name, ts1) \<Rightarrow>
     case expect path ts1 tEq (quoted (CHR ''='')) of Inl e \<Rightarrow> Inl e | Inr (_, ts2) \<Rightarrow>
     case expect path ts2 tNumber ''type ID'' of Inl e \<Rightarrow> Inl e | Inr (idTok, ts3) \<Rightarrow>
     case parseNum (tk_text idTok) 32 of
       None \<Rightarrow> Inl (errorf path (tk_pos idTok) (NotU32 (tk_text idTok)))
     | Some n \<Rightarrow>
     case expect path ts3 tLBrace (quoted (CHR ''{'')) of Inl e \<Rightarrow> Inl e | Inr (_, ts4) \<Rightarrow>
       p_fields path \<lparr>m_Name = tk_text name, m_ID = word_of_nat n, m_Fields = [], m_Pos = tk_pos name,
         m_IDPos = tk_pos idTok, m_FixedSize = 0, m_Align = 0\<rparr> ts4)"

lemma p_fields_length: "p_fields path m ts = Inr (m', ts') \<Longrightarrow> length ts' \<le> length ts"
proof (induction path m ts arbitrary: m' ts' rule: p_fields.induct)
  case (1 path m ts)
  obtain t0 ts1 where n: "next_tok (skipNewlines ts) = (t0, ts1)" by fastforce
  have le: "length ts1 \<le> length ts" using next_tok_length [OF n] length_skipNewlines [of ts] by linarith
  from 1(2) show ?case
    by (subst (asm) p_fields.simps)
      (use 1(1) [OF n [symmetric]] n le in
        \<open>fastforce split: if_splits sum.splits prod.splits dest: endLine_length p_typ_length\<close>)
qed

lemma p_message_length: "p_message path ts = Inr (m, ts') \<Longrightarrow> length ts' \<le> length ts"
  by (fastforce simp: p_message_def split: sum.splits prod.splits option.splits
      dest: expect_length p_fields_length)

function p_messages :: "string \<Rightarrow> Schema \<Rightarrow> token list \<Rightarrow> Error + Schema" where
  "p_messages path s ts = (case next_tok (skipNewlines ts) of (t, ts1) \<Rightarrow>
     if tk_kind t = tEOF then Inr s
     else if tk_kind t = tIdent \<and> tk_text t = ''package'' then Inl (errorf path (tk_pos t) PackageDeclared)
     else if tk_kind t \<noteq> tIdent \<or> tk_text t \<noteq> ''message'' then
       Inl (errorf path (tk_pos t) (Expected (CHR 0x27 # ''message'' @ [CHR 0x27]) (describe t)))
     else (case p_message path ts1 of Inl e \<Rightarrow> Inl e | Inr (m, ts2) \<Rightarrow>
       p_messages path (s\<lparr>s_Messages := s_Messages s @ [m]\<rparr>) ts2))"
  by pat_completeness auto
termination
proof (relation "measure (\<lambda>(path, s, ts). length ts)", goal_cases)
  case (2 path s ts t ts1 b m ts2)
  then show ?case
    using next_tok_length [of "skipNewlines ts" t ts1] length_skipNewlines [of ts]
      p_message_length [of path ts1 m ts2] by auto
qed auto

declare p_messages.simps [simp del]

definition Parse :: "string \<Rightarrow> string \<Rightarrow> Error + Schema" where
  "Parse path src =
    (case lex path src of Inl e \<Rightarrow> Inl e | Inr toks \<Rightarrow>
     case next_tok (skipNewlines toks) of (t, ts1) \<Rightarrow>
     if tk_kind t \<noteq> tIdent \<or> tk_text t \<noteq> ''package'' then
       Inl (errorf path (tk_pos t) (Expected (CHR 0x27 # ''package'' @ [CHR 0x27]) (describe t)))
     else case expect path ts1 tIdent ''package name'' of Inl e \<Rightarrow> Inl e | Inr (name, ts2) \<Rightarrow>
     case endLine path ts2 ''package name'' of Inl e \<Rightarrow> Inl e | Inr ts3 \<Rightarrow>
       p_messages path \<lparr>s_File = path, s_Package = tk_text name, s_PkgPos = tk_pos name,
         s_Messages = [], s_Sorted = [], s_byName = Map.empty\<rparr> ts3)"

section \<open>Printing a type and parsing it again\<close>

definition no_pos :: Pos where
  "no_pos = \<lparr>Line = 0, Col = 0\<rparr>"

text \<open>A type without the positions and the references that the parser and the checker add.\<close>

fun strip :: "Type \<Rightarrow> Type" where
  "strip (Plain k _) = Plain k no_pos"
| "strip (ArrayOf n e _) = ArrayOf n (strip e) no_pos"
| "strip (RefTo n _ _) = RefTo n None no_pos"

definition ident_name :: "string \<Rightarrow> bool" where
  "ident_name n \<longleftrightarrow> n \<noteq> [] \<and> list_all wordByte n \<and> \<not> isDigit (of_char (hd n))"

fun printable :: "Type \<Rightarrow> bool" where
  "printable (Plain k _) \<longleftrightarrow> IsScalar k \<or> IsVar k"
| "printable (ArrayOf n e _) \<longleftrightarrow> n < 2 ^ 31 \<and> printable e"
| "printable (RefTo n _ _) \<longleftrightarrow> ident_name n \<and> n \<notin> fst ` set scalarNames \<and> n \<noteq> ''string'' \<and> n \<noteq> ''bytes''"

abbreviation tok :: "tokKind \<Rightarrow> string \<Rightarrow> nat \<Rightarrow> nat \<Rightarrow> token" where
  "tok k w line col \<equiv> \<lparr>tk_kind = k, tk_text = w, tk_pos = \<lparr>Line = line, Col = col\<rparr>\<rparr>"

lemma wordByte_ascii: "wordByte c \<Longrightarrow> of_char c < (0x80 :: nat)"
  by (auto simp: wordByte_def isIdentStart_def isDigit_def)

lemma lex_word:
  assumes "w \<noteq> []" "list_all wordByte w" "s = [] \<or> \<not> wordByte (hd s)"
  shows "lex_from path line col (w @ s) =
    push (tok (if isDigit (of_char (hd w)) then tNumber else tIdent) w line col)
      (lex_from path line (col + length w) s)"
proof -
  obtain c cs where w: "w = c # cs" using assms(1) by (cases w) auto
  have c: "wordByte c" using assms(2) w by simp
  have run: "takeWhile wordByte (w @ s) = w" "dropWhile wordByte (w @ s) = s"
    using assms(2,3) by (auto simp: list_all_iff takeWhile_append dropWhile_append)
      (metis dropWhile_eq_Cons_conv list.sel(1) neq_Nil_conv takeWhile_eq_Nil_iff dropWhile.simps)+
  have r: "of_char c \<noteq> (10 :: nat)" "of_char c \<noteq> (32 :: nat)" "of_char c \<noteq> (9 :: nat)"
      "of_char c \<noteq> (13 :: nat)" "of_char c \<noteq> (35 :: nat)" "isIdentStart (of_char c) \<or> isDigit (of_char c)"
    using c by (auto simp: wordByte_def isIdentStart_def isDigit_def)
  show ?thesis
    using wordByte_ascii [OF c] r run w
    by (subst lex_from.simps) (simp add: runes_def Let_def)
qed

lemma lex_brackets:
  "lex_from path line col (CHR ''['' # s) = push (tok tLBrack ''['' line col) (lex_from path line (col + 1) s)"
  "lex_from path line col (CHR '']'' # s) = push (tok tRBrack '']'' line col) (lex_from path line (col + 1) s)"
  using lex_from.simps [of path line col "CHR ''['' # s"] lex_from.simps [of path line col "CHR '']'' # s"]
  by (simp_all add: runes_def isIdentStart_def isDigit_def punct_def)

lemma lex_end: "lex_from path line col [] = Inr [tok tEOF [] line col]"
  by (subst lex_from.simps) simp

lemma digit_word: "d < 10 \<Longrightarrow> isDigit (of_char (digit d))" "d < 10 \<Longrightarrow> wordByte (digit d)"
  by (simp_all add: of_char_digit isDigit_def wordByte_def)

lemma dec_word: "list_all wordByte (dec n)" "isDigit (of_char (hd (dec n)))"
  using set_dec [of _ n] digit_word by (auto simp: list_all_iff) (metis dec_not_Nil list.set_sel(1))

lemma parseNum_dec: "n < 2 ^ bits \<Longrightarrow> parseNum (dec n) bits = Some n"
proof -
  assume n: "n < 2 ^ bits"
  have "take 2 (dec n) \<noteq> [a, x]" if "x \<in> {CHR ''x'', CHR ''X''}" for a x
  proof
    assume "take 2 (dec n) = [a, x]"
    then have "x \<in> set (dec n)" by (metis in_set_takeD list.set_intros)
    then have "isDigit (of_char x)" using set_dec [of x n] digit_word(1) by auto
    then show False using that by (auto simp: isDigit_def)
  qed
  then show ?thesis by (simp add: parseNum_def ParseUint_dec n)
qed

lemma kind_word:
  assumes "IsScalar k \<or> IsVar k"
  shows "ident_name (Kind_String k)" "named_type (Kind_String k) p = Plain k p"
  using assms
  by (cases k; simp add: ident_name_def wordByte_def isIdentStart_def isDigit_def scalarNames_def IsScalar_def IsVar_def named_type_def)+

lemma next_tok_Cons: "next_tok (t # ts) = (t, if tk_kind t \<noteq> tEOF then ts else t # ts)"
  by (simp add: next_tok_def peek_def Let_def)

lemma p_typ_ident:
  "p_typ path (tok tIdent n line col # ts) = Inr (named_type n \<lparr>Line = line, Col = col\<rparr>, ts)"
  by (subst p_typ.simps) (simp add: next_tok_Cons)

lemma p_typ_array:
  assumes "parseNum w 31 = Some n" "p_typ path ts = Inr (e, ts')"
  shows "p_typ path (tok tLBrack ''['' l c # tok tNumber w l2 c2 # tok tRBrack '']'' l3 c3 # ts) =
    Inr (ArrayOf n e \<lparr>Line = l, Col = c\<rparr>, ts')"
  using assms by (subst p_typ.simps) (simp add: next_tok_Cons expect_def)

lemma lex_ident:
  "ident_name n \<Longrightarrow> lex_from path line col n = Inr [tok tIdent n line col, tok tEOF [] line (col + length n)]"
  using lex_word [of n "[]" path line col] by (simp add: ident_name_def lex_end push_def)

lemma parse_printed_type:
  "printable t \<Longrightarrow> \<exists>ts t' l c. lex_from path line col (Type_String t) = Inr ts
    \<and> p_typ path ts = Inr (t', [tok tEOF [] l c]) \<and> strip t' = strip t"
proof (induction t arbitrary: line col)
  case (Plain k p)
  then show ?case
    using lex_ident [OF kind_word(1), of k path line col]
    by (simp add: p_typ_ident kind_word(2))
next
  case (RefTo n r p)
  then have "named_type n q = RefTo n None q" for q
    by (simp add: named_type_def map_of_eq_None_iff [THEN iffD2])
  with RefTo show ?case
    using lex_ident [of n path line col] by (simp add: p_typ_ident)
next
  case (ArrayOf n e p)
  let ?c = "col + 1 + length (dec n)"
  obtain ts e' l c where ih: "lex_from path line (?c + 1) (Type_String e) = Inr ts"
    "p_typ path ts = Inr (e', [tok tEOF [] l c])" "strip e' = strip e"
    using ArrayOf.IH [of line "?c + 1"] ArrayOf.prems by auto
  have "lex_from path line col (Type_String (ArrayOf n e p)) =
      Inr (tok tLBrack ''['' line col # tok tNumber (dec n) line (col + 1) # tok tRBrack '']'' line ?c # ts)"
    using lex_word [of "dec n" "CHR '']'' # Type_String e" path line "col + 1"] dec_word [of n] ih(1)
    by (simp add: lex_brackets push_def wordByte_def isIdentStart_def isDigit_def)
  moreover have "parseNum (dec n) 31 = Some n" using ArrayOf.prems by (simp add: parseNum_dec)
  ultimately show ?case using p_typ_array [OF _ ih(2)] ih(3) by fastforce
qed

section \<open>What the parser returns\<close>

fun type_ok :: "Type \<Rightarrow> bool" where
  "type_ok (Plain k _) \<longleftrightarrow> IsScalar k \<or> IsVar k"
| "type_ok (ArrayOf n e _) \<longleftrightarrow> n < 2 ^ 31 \<and> type_ok e"
| "type_ok (RefTo _ r _) \<longleftrightarrow> True"

definition msg_ok :: "Message \<Rightarrow> bool" where
  "msg_ok m \<longleftrightarrow> (\<forall>f \<in> set (m_Fields m). type_ok (f_Type f))"

lemma parseNum_less: "parseNum text bits = Some n \<Longrightarrow> n < 2 ^ bits"
  by (auto simp: parseNum_def dest: ParseUint_less split: if_splits)

lemma named_type_ok: "type_ok (named_type text pos)"
proof -
  have "IsScalar k" if "map_of scalarNames text = Some k" for k
    using map_of_SomeD [OF that] by (auto simp: scalarNames_def IsScalar_def)
  then show ?thesis by (auto simp: named_type_def IsVar_def split: option.split)
qed

lemma p_typ_ok: "p_typ path ts = Inr (t, ts') \<Longrightarrow> type_ok t"
proof (induction path ts arbitrary: t ts' rule: p_typ.induct)
  case (1 path ts)
  from 1(2) show ?case
    by (subst (asm) p_typ.simps)
      (use 1(1) parseNum_less [of _ 31] in
        \<open>fastforce simp: named_type_ok split: if_splits sum.splits option.splits prod.splits\<close>)
qed

lemma p_fields_ok: "p_fields path m ts = Inr (m', ts') \<Longrightarrow> msg_ok m \<Longrightarrow> msg_ok m'"
proof (induction path m ts arbitrary: m' ts' rule: p_fields.induct)
  case (1 path m ts)
  have "msg_ok (m\<lparr>m_Fields := m_Fields m @ [new_field t ty]\<rparr>)" if "type_ok ty" for t ty
    using 1(3) that by (auto simp: msg_ok_def new_field_def)
  with 1 show ?case
    by (subst (asm) (2) p_fields.simps)
      (fastforce split: if_splits sum.splits prod.splits dest: p_typ_ok)
qed

lemma p_message_ok: "p_message path ts = Inr (m, ts') \<Longrightarrow> msg_ok m"
  by (fastforce simp: p_message_def msg_ok_def split: sum.splits prod.splits option.splits
      dest: p_fields_ok [unfolded msg_ok_def] parseNum_less)

lemma p_messages_ok:
  "p_messages path s ts = Inr s' \<Longrightarrow> \<forall>m \<in> set (s_Messages s). msg_ok m
    \<Longrightarrow> \<forall>m \<in> set (s_Messages s'). msg_ok m"
proof (induction path s ts arbitrary: s' rule: p_messages.induct)
  case (1 path s ts)
  then show ?case
    by (subst (asm) (2) p_messages.simps)
      (fastforce split: if_splits sum.splits prod.splits dest: p_message_ok)
qed

lemma Parse_ok: "Parse path src = Inr s \<Longrightarrow> \<forall>m \<in> set (s_Messages s). msg_ok m"
  by (auto simp: Parse_def split: sum.splits prod.splits if_splits dest: p_messages_ok)

end
