(* ===== verification/Schema_Check.thy ===== *)
theory Schema_Check
  imports Schema_Parse
begin

text \<open>
  The checker of \<^verbatim>\<open>src/ipcgen/internal/schema/check.go\<close>: name rules, resolution of references,
  the search for messages that contain themselves, and the layout of the fixed sections. The
  checker's error list is passed along and extended. The depth-first search of \<open>cycles\<close> takes
  fuel; \<open>cycles_total\<close> shows that one more than the number of messages is always enough.
\<close>

definition maxFixedSize :: nat where
  "maxFixedSize = 2 ^ 31 - 1"

definition too_large :: "nat \<Rightarrow> bool" where
  "too_large n \<longleftrightarrow> n > maxFixedSize"

lemma too_large_code [code]: "too_large n \<longleftrightarrow> int n > 2147483647"
  by (auto simp: too_large_def maxFixedSize_def)

definition has_prefix :: "string \<Rightarrow> string \<Rightarrow> bool" where
  "has_prefix p s \<longleftrightarrow> take (length p) s = p"

section \<open>Names\<close>

record name_tables =
  t_byName :: "string \<rightharpoonup> nat"
  t_snakes :: "string \<rightharpoonup> nat"
  t_ids :: "u32 \<rightharpoonup> nat"
  t_errs :: "Error list"

definition package_errors :: "Schema \<Rightarrow> Error list" where
  "package_errors s =
    (if \<not> snakeName (s_Package s) \<or> s_Package s \<in> set reservedWords \<or> has_prefix ''ipcgen'' (s_Package s)
     then [errorf (s_File s) (s_PkgPos s) (BadPackage (s_Package s))] else [])"

fun field_names :: "string \<Rightarrow> string \<Rightarrow> (string \<rightharpoonup> Field) \<Rightarrow> (string \<rightharpoonup> Field) \<Rightarrow> Field list \<Rightarrow> Error list" where
  "field_names path mname seen gon [] = []"
| "field_names path mname seen gon (f # fs) =
    (let goName = Camel (f_Name f) in
     (if \<not> snakeName (f_Name f) then [errorf path (f_Pos f) (NotLowerSnake (f_Name f))]
      else if f_Name f \<in> set reservedWords \<or> has_prefix ''ipcgen'' (f_Name f) \<or> goName \<in> set goMethods
        then [errorf path (f_Pos f) (FieldReserved (f_Name f))]
      else if seen (f_Name f) \<noteq> None then [errorf path (f_Pos f) (FieldDeclared (f_Name f) mname)]
      else (case gon goName of
          Some g \<Rightarrow> [errorf path (f_Pos f) (SameGoName (f_Name g) (f_Name f) goName)]
        | None \<Rightarrow> []))
     @ field_names path mname (seen(f_Name f \<mapsto> f)) (gon(goName \<mapsto> f)) fs)"

definition fieldNames :: "string \<Rightarrow> Message \<Rightarrow> Error list" where
  "fieldNames path m = field_names path (m_Name m) Map.empty Map.empty (m_Fields m)"

definition name_errors :: "string \<Rightarrow> Message list \<Rightarrow> name_tables \<Rightarrow> Message \<Rightarrow> Error list" where
  "name_errors path ms t m =
    (if \<not> messageName (m_Name m) then [errorf path (m_Pos m) (NotUpperCamel (m_Name m))]
     else if m_Name m \<in> set pyNames \<or> m_Name m \<in> set goNames \<or> has_prefix ''ipcgen'' (Message_Snake m)
       then [errorf path (m_Pos m) (MessageReserved (m_Name m))]
     else case t_byName t (m_Name m) of
       Some j \<Rightarrow> [errorf path (m_Pos m) (MessageDeclared (m_Name m) (Line (m_Pos (ms ! j))))]
     | None \<Rightarrow> (case t_snakes t (Message_Snake m) of
         Some j \<Rightarrow> [errorf path (m_Pos m) (SameCName (m_Name (ms ! j)) (m_Name m) (Message_Snake m))]
       | None \<Rightarrow> []))"

definition id_errors :: "string \<Rightarrow> Message list \<Rightarrow> name_tables \<Rightarrow> Message \<Rightarrow> Error list" where
  "id_errors path ms t m =
    (if m_ID m = 0xFFFFFFFF then [errorf path (m_IDPos m) IDReserved]
     else case t_ids t (m_ID m) of
       Some j \<Rightarrow> [errorf path (m_IDPos m) (IDUsed (m_ID m) (m_Name (ms ! j)))]
     | None \<Rightarrow> [])"

definition names_step :: "string \<Rightarrow> Message list \<Rightarrow> nat \<Rightarrow> name_tables \<Rightarrow> name_tables" where
  "names_step path ms i t = (let m = ms ! i in
     \<lparr>t_byName = (if t_byName t (m_Name m) = None then (t_byName t)(m_Name m \<mapsto> i) else t_byName t),
      t_snakes = (t_snakes t)(Message_Snake m \<mapsto> i),
      t_ids = (if m_ID m \<noteq> 0xFFFFFFFF \<and> t_ids t (m_ID m) = None then (t_ids t)(m_ID m \<mapsto> i) else t_ids t),
      t_errs = t_errs t @ name_errors path ms t m @ id_errors path ms t m @ fieldNames path m\<rparr>)"

definition const_errors :: "string \<Rightarrow> Message list \<Rightarrow> (string \<rightharpoonup> nat) \<Rightarrow> Error list" where
  "const_errors path ms by = concat (map (\<lambda>m. case by (m_Name m @ ''Type'') of
       Some j \<Rightarrow> [errorf path (m_Pos (ms ! j)) (GoConstClash (m_Name (ms ! j)) (m_Name m))]
     | None \<Rightarrow> []) ms)"

definition names :: "Schema \<Rightarrow> Schema \<times> Error list" where
  "names s =
    (let ms = s_Messages s;
         t = fold (names_step (s_File s) ms) [0..<length ms]
           \<lparr>t_byName = Map.empty, t_snakes = Map.empty, t_ids = Map.empty, t_errs = package_errors s\<rparr>
     in (s\<lparr>s_byName := t_byName t\<rparr>, t_errs t @ const_errors (s_File s) ms (t_byName t)))"

section \<open>References\<close>

fun resolve :: "string \<Rightarrow> Message list \<Rightarrow> (string \<rightharpoonup> nat) \<Rightarrow> Type \<Rightarrow> Type \<times> Error list" where
  "resolve path ms by (Plain k p) = (Plain k p, [])"
| "resolve path ms by (RefTo n r p) =
    (RefTo n (by n) p, if by n = None then [errorf path p (UnknownType n)] else [])"
| "resolve path ms by (ArrayOf n e p) =
    (let short = (if n < 1 then [errorf path p LengthZero] else []) in
     if IsVar (kind e) \<or> kind e = Array
     then (ArrayOf n e p, short @ [errorf path (type_pos e) (BadElem (Type_String e))])
     else case e of
       RefTo en r ep \<Rightarrow>
         (ArrayOf n (RefTo en (by en) ep) p,
          short @ (case by en of None \<Rightarrow> [errorf path ep (UnknownType en)]
            | Some j \<Rightarrow> if \<not> Fixed (ms ! j) then [errorf path ep (VarMessageElem en)] else []))
     | _ \<Rightarrow> (ArrayOf n e p, short))"

definition field_type :: "string \<Rightarrow> Message list \<Rightarrow> (string \<rightharpoonup> nat) \<Rightarrow> Field \<Rightarrow> Field \<times> Error list" where
  "field_type path ms by f = (case resolve path ms by (f_Type f) of (t, es) \<Rightarrow>
     (f\<lparr>f_Type := t\<rparr>, es @ (case t of
        RefTo n (Some j) p \<Rightarrow> if \<not> Fixed (ms ! j) then [errorf path p (VarMessageField (f_Name f) n)] else []
      | _ \<Rightarrow> [])))"

definition types :: "Schema \<Rightarrow> Schema \<times> Error list" where
  "types s = (let ft = field_type (s_File s) (s_Messages s) (s_byName s) in
     (s\<lparr>s_Messages := map (\<lambda>m. m\<lparr>m_Fields := map (fst \<circ> ft) (m_Fields m)\<rparr>) (s_Messages s)\<rparr>,
      concat (map (\<lambda>m. concat (map (snd \<circ> ft) (m_Fields m))) (s_Messages s))))"

section \<open>Messages that contain themselves\<close>

fun refOf :: "Type \<Rightarrow> nat option" where
  "refOf (Plain _ _) = None"
| "refOf (RefTo _ r _) = r"
| "refOf (ArrayOf _ e _) = (case e of RefTo _ r _ \<Rightarrow> r | _ \<Rightarrow> None)"

definition refs :: "Message list \<Rightarrow> nat \<Rightarrow> nat list" where
  "refs ms i = List.map_filter (\<lambda>f. refOf (f_Type f)) (m_Fields (ms ! i))"

datatype visit_state = Unseen | Active | Done

record cyc =
  c_state :: "nat \<Rightarrow> visit_state"
  c_stack :: "nat list"
  c_sorted :: "nat list"
  c_errs :: "Error list"

definition cycle_path :: "nat \<Rightarrow> nat list \<Rightarrow> nat list" where
  "cycle_path m stack = dropWhile (\<lambda>i. i \<noteq> m) stack"

fun fold_opt :: "('a \<Rightarrow> 'b \<Rightarrow> 'b option) \<Rightarrow> 'a list \<Rightarrow> 'b \<Rightarrow> 'b option" where
  "fold_opt f [] c = Some c"
| "fold_opt f (x # xs) c = (case f x c of None \<Rightarrow> None | Some c' \<Rightarrow> fold_opt f xs c')"

primrec visit :: "nat \<Rightarrow> string \<Rightarrow> Message list \<Rightarrow> nat \<Rightarrow> cyc \<Rightarrow> cyc option" where
  "visit 0 path ms m c = None"
| "visit (Suc n) path ms m c = (case c_state c m of
      Active \<Rightarrow> Some (c\<lparr>c_errs := c_errs c @ [errorf path (m_Pos (ms ! m))
        (ContainsItself (m_Name (ms ! m)) (map (\<lambda>i. m_Name (ms ! i)) (cycle_path m (c_stack c)) @ [m_Name (ms ! m)]))]\<rparr>)
    | Done \<Rightarrow> Some c
    | Unseen \<Rightarrow> (case fold_opt (visit n path ms) (refs ms m)
          (c\<lparr>c_state := (c_state c)(m := Active), c_stack := c_stack c @ [m]\<rparr>) of
        None \<Rightarrow> None
      | Some c' \<Rightarrow> Some (c'\<lparr>c_stack := butlast (c_stack c'), c_state := (c_state c')(m := Done),
          c_sorted := c_sorted c' @ [m]\<rparr>)))"

definition cycles :: "string \<Rightarrow> Message list \<Rightarrow> cyc option" where
  "cycles path ms = fold_opt (visit (Suc (length ms)) path ms) [0..<length ms]
     \<lparr>c_state = (\<lambda>_. Unseen), c_stack = [], c_sorted = [], c_errs = []\<rparr>"

section \<open>Layout\<close>

definition roundUp :: "nat \<Rightarrow> nat \<Rightarrow> nat" where
  "roundUp n a = (n + a - 1) div a * a"

fun fieldSize :: "Message list \<Rightarrow> Type \<Rightarrow> nat" where
  "fieldSize ms (ArrayOf n e _) = n * fieldSize ms e"
| "fieldSize ms t = Type_Size ms t"

text \<open>The loop over the fixed fields of one message; other fields are passed over.\<close>

fun lay_fields :: "string \<Rightarrow> Message list \<Rightarrow> string \<Rightarrow> nat \<Rightarrow> nat \<Rightarrow> Field list \<Rightarrow> Error + Field list \<times> nat \<times> nat" where
  "lay_fields path ms mname off align [] = Inr ([], off, align)"
| "lay_fields path ms mname off align (f # fs) =
    (if Field_IsVar f then
       (case lay_fields path ms mname off align fs of Inl e \<Rightarrow> Inl e
        | Inr (fs', off', align') \<Rightarrow> Inr (f # fs', off', align'))
     else (let a = Type_Align ms (f_Type f); at = roundUp off a; end = at + fieldSize ms (f_Type f) in
       if too_large end then Inl (errorf path (f_Pos f) (SectionTooLarge mname))
       else (case lay_fields path ms mname end (if a > align then a else align) fs of Inl e \<Rightarrow> Inl e
        | Inr (fs', off', align') \<Rightarrow> Inr (f\<lparr>f_Offset := at\<rparr> # fs', off', align'))))"

definition lay_message :: "string \<Rightarrow> Message list \<Rightarrow> nat \<Rightarrow> Error + Message list" where
  "lay_message path ms i = (let m = ms ! i in
     case lay_fields path ms (m_Name m) 0 1 (m_Fields m) of Inl e \<Rightarrow> Inl e
     | Inr (fs, off, align) \<Rightarrow>
         Inr (ms[i := m\<lparr>m_Fields := fs, m_FixedSize := roundUp off align, m_Align := align\<rparr>]))"

fun layout_all :: "string \<Rightarrow> Message list \<Rightarrow> nat list \<Rightarrow> Error + Message list" where
  "layout_all path ms [] = Inr ms"
| "layout_all path ms (i # is) =
    (case lay_message path ms i of Inl e \<Rightarrow> Inl e | Inr ms' \<Rightarrow> layout_all path ms' is)"

definition Check :: "Schema \<Rightarrow> (Error list + Schema) option" where
  "Check s =
    (case names s of (s1, errs1) \<Rightarrow>
     case types s1 of (s2, errs2) \<Rightarrow>
     if errs1 @ errs2 \<noteq> [] then Some (Inl (sort_errors (errs1 @ errs2)))
     else case cycles (s_File s) (s_Messages s2) of
       None \<Rightarrow> None
     | Some c \<Rightarrow>
        if c_errs c \<noteq> [] then Some (Inl (sort_errors (c_errs c)))
        else (case layout_all (s_File s) (s_Messages s2) (c_sorted c) of
            Inl e \<Rightarrow> Some (Inl [e])
          | Inr ms \<Rightarrow> Some (Inr (s2\<lparr>s_Messages := ms, s_Sorted := c_sorted c\<rparr>))))"

definition Load :: "(string \<Rightarrow> ipc_error + string) \<Rightarrow> string \<Rightarrow> ((ipc_error + Error list) + Schema) option" where
  "Load readFile path =
    (case readFile path of Inl e \<Rightarrow> Some (Inl (Inl e)) | Inr src \<Rightarrow>
     case Parse path src of Inl e \<Rightarrow> Some (Inl (Inr [e])) | Inr s \<Rightarrow>
     case Check s of None \<Rightarrow> None | Some (Inl es) \<Rightarrow> Some (Inl (Inr es)) | Some (Inr s') \<Rightarrow> Some (Inr s'))"

end
