(* ===== verification/Schema_Cycles.thy ===== *)
theory Schema_Cycles
  imports Schema_Check
begin

text \<open>
  The depth-first search of \<open>cycles\<close>: its fuel is enough, it reports an error exactly when a
  message contains itself, and without an error \<open>Sorted\<close> holds every message once, after the
  messages it contains.
\<close>

definition contains :: "Message list \<Rightarrow> (nat \<times> nat) set" where
  "contains ms = {(i, r). i < length ms \<and> r \<in> set (refs ms i)}"

definition refs_in :: "Message list \<Rightarrow> bool" where
  "refs_in ms \<longleftrightarrow> (\<forall>i < length ms. \<forall>r \<in> set (refs ms i). r < length ms)"

definition topo :: "Message list \<Rightarrow> nat list \<Rightarrow> bool" where
  "topo ms xs \<longleftrightarrow> (\<forall>i < length xs. set (refs ms (xs ! i)) \<subseteq> set (take i xs))"

definition unseen :: "Message list \<Rightarrow> cyc \<Rightarrow> nat set" where
  "unseen ms c = {i. i < length ms \<and> c_state c i = Unseen}"

lemma finite_unseen [simp]: "finite (unseen ms c)"
  by (simp add: unseen_def)

section \<open>Termination\<close>

lemma fold_opt_total:
  assumes "\<And>x c. x \<in> set xs \<Longrightarrow> P c \<Longrightarrow> \<exists>c'. f x c = Some c' \<and> P c'" "P c"
  shows "\<exists>c'. fold_opt f xs c = Some c' \<and> P c'"
  using assms
proof (induction xs arbitrary: c)
  case (Cons x xs)
  then obtain c' where "f x c = Some c'" "P c'" by (meson list.set_intros(1))
  with Cons show ?case by simp
qed simp

lemma visit_total:
  assumes "refs_in ms" "m < length ms" "card (unseen ms c) < n"
  shows "\<exists>c'. visit n path ms m c = Some c' \<and> unseen ms c' \<subseteq> unseen ms c"
  using assms
proof (induction n arbitrary: m c)
  case (Suc n)
  show ?case
  proof (cases "c_state c m")
    case Unseen
    let ?c = "c\<lparr>c_state := (c_state c)(m := Active), c_stack := c_stack c @ [m]\<rparr>"
    have u: "unseen ms ?c = unseen ms c - {m}" and "m \<in> unseen ms c"
      using Suc.prems Unseen by (auto simp: unseen_def)
    then have card: "card (unseen ms ?c) < n" using Suc.prems(3) card_Diff1_less [of "unseen ms c" m] by simp
    have "\<exists>d'. visit n path ms r d = Some d' \<and> unseen ms d' \<subseteq> unseen ms ?c"
      if "r \<in> set (refs ms m)" "unseen ms d \<subseteq> unseen ms ?c" for r d
    proof -
      have "r < length ms" using that Suc.prems by (auto simp: refs_in_def)
      moreover have "card (unseen ms d) < n"
        using card card_mono [OF _ that(2)] by simp
      ultimately show ?thesis using Suc.IH [OF Suc.prems(1), of r d] that by blast
    qed
    then obtain c' where "fold_opt (visit n path ms) (refs ms m) ?c = Some c'" "unseen ms c' \<subseteq> unseen ms ?c"
      using fold_opt_total [of "refs ms m" "\<lambda>d. unseen ms d \<subseteq> unseen ms ?c" "visit n path ms" ?c] by blast
    then show ?thesis using Unseen u by (auto simp: unseen_def)
  qed (auto simp: unseen_def)
qed simp

lemma cycles_total:
  assumes "refs_in ms"
  shows "\<exists>c. cycles path ms = Some c"
proof -
  have "card (unseen ms c) < Suc (length ms)" for c
    using card_mono [of "{..<length ms}" "unseen ms c"] by (fastforce simp: unseen_def)
  then have "\<exists>c'. visit (Suc (length ms)) path ms m c = Some c' \<and> True" if "m \<in> set [0..<length ms]" for m c
    using visit_total [OF assms, of m c] that by fastforce
  then show ?thesis
    unfolding cycles_def using fold_opt_total [of "[0..<length ms]" "\<lambda>_. True" "visit (Suc (length ms)) path ms"]
    by (simp del: visit.simps)
qed

section \<open>Soundness\<close>

definition dfs_inv :: "Message list \<Rightarrow> cyc \<Rightarrow> bool" where
  "dfs_inv ms c \<longleftrightarrow> distinct (c_sorted c) \<and> set (c_sorted c) \<subseteq> {..<length ms} \<and> topo ms (c_sorted c)
     \<and> (\<forall>i. c_state c i = Done \<longleftrightarrow> i \<in> set (c_sorted c)) \<and> (\<forall>i. c_state c i = Active \<longleftrightarrow> i \<in> set (c_stack c))
     \<and> distinct (c_stack c)"

text \<open>Either no error so far, with the search in order, or some message contains itself.\<close>

definition dfs_ok :: "Message list \<Rightarrow> nat list \<Rightarrow> cyc \<Rightarrow> bool" where
  "dfs_ok ms stk c \<longleftrightarrow> (if c_errs c = [] then dfs_inv ms c \<and> c_stack c = stk else \<not> acyclic (contains ms))"

lemma fold_opt_inv:
  assumes "fold_opt f xs c = Some c'" "I [] c"
    and "\<And>ys x c c'. I ys c \<Longrightarrow> x \<in> set xs \<Longrightarrow> f x c = Some c' \<Longrightarrow> I (ys @ [x]) c'"
  shows "I xs c'"
proof -
  have "fold_opt f zs c = Some c' \<Longrightarrow> I ys c \<Longrightarrow> set zs \<subseteq> set xs \<Longrightarrow> I (ys @ zs) c'" for ys zs c
  proof (induction zs arbitrary: ys c)
    case (Cons z zs)
    then obtain d where d: "f z c = Some d" "fold_opt f zs d = Some c'" by (auto split: option.splits)
    then have "I (ys @ [z]) d" using assms(3) Cons.prems by simp
    then show ?case using Cons.IH [OF d(2), of "ys @ [z]"] Cons.prems by simp
  qed simp
  then show ?thesis using assms(1,2) by (metis append_Nil order_refl)
qed

lemma successively_trancl:
  "successively (\<lambda>a b. (a, b) \<in> R) (a # zs @ [b]) \<Longrightarrow> (a, b) \<in> R\<^sup>+"
  by (induction zs arbitrary: a) (auto intro: trancl_into_trancl2)

lemma active_cycle:
  assumes "successively (\<lambda>a b. (a, b) \<in> R) (stk @ [m])" "m \<in> set stk"
  shows "\<not> acyclic R"
proof -
  obtain ys zs where "stk = ys @ m # zs" using assms(2) by (meson split_list)
  then have "successively (\<lambda>a b. (a, b) \<in> R) (m # zs @ [m])"
    using assms(1) by (simp add: successively_append_iff)
  then show ?thesis using successively_trancl by (metis acyclic_def)
qed

lemma fold_opt_errs:
  assumes "fold_opt f xs c = Some c'" "\<And>x c c'. f x c = Some c' \<Longrightarrow> c_errs c \<noteq> [] \<Longrightarrow> c_errs c' \<noteq> []"
    and "c_errs c \<noteq> []"
  shows "c_errs c' \<noteq> []"
  using fold_opt_inv [OF assms(1), of "\<lambda>_ c. c_errs c \<noteq> []"] assms(2,3) by blast

lemma visit_errs: "visit n path ms m c = Some c' \<Longrightarrow> c_errs c \<noteq> [] \<Longrightarrow> c_errs c' \<noteq> []"
proof (induction n arbitrary: m c c')
  case (Suc n)
  show ?case
  proof (cases "c_state c m")
    case Unseen
    then obtain d where d: "fold_opt (visit n path ms) (refs ms m)
        (c\<lparr>c_state := (c_state c)(m := Active), c_stack := c_stack c @ [m]\<rparr>) = Some d" and "c_errs c' = c_errs d"
      using Suc.prems by (auto split: option.splits)
    then show ?thesis using fold_opt_errs [OF d Suc.IH] Suc.prems by simp
  qed (use Suc.prems in auto)
qed simp

lemma topo_snoc: "topo ms xs \<Longrightarrow> set (refs ms m) \<subseteq> set xs \<Longrightarrow> topo ms (xs @ [m])"
  by (auto simp: topo_def nth_append less_Suc_eq)

lemma dfs_push:
  assumes "dfs_inv ms c" "c_state c m = Unseen"
  shows "dfs_inv ms (c\<lparr>c_state := (c_state c)(m := Active), c_stack := c_stack c @ [m]\<rparr>)"
proof -
  have "m \<notin> set (c_sorted c)" using assms by (metis dfs_inv_def visit_state.distinct(3))
  moreover have "m \<notin> set (c_stack c)" using assms by (metis dfs_inv_def visit_state.distinct(1))
  ultimately show ?thesis using assms unfolding dfs_inv_def by (auto split: if_splits)
qed

lemma dfs_pop:
  assumes "dfs_inv ms d" "c_stack d = stk @ [m]" "m < length ms" "set (refs ms m) \<subseteq> set (c_sorted d)"
  shows "dfs_inv ms (d\<lparr>c_stack := butlast (c_stack d), c_state := (c_state d)(m := Done), c_sorted := c_sorted d @ [m]\<rparr>)"
proof -
  have "c_state d m = Active" using assms(1,2) by (simp add: dfs_inv_def)
  then have "m \<notin> set (c_sorted d)" using assms(1) by (metis dfs_inv_def visit_state.distinct(5))
  then show ?thesis using assms topo_snoc unfolding dfs_inv_def by (auto split: if_splits)
qed

lemma visit_sound:
  assumes "dfs_ok ms stk c" "m < length ms" "refs_in ms"
    and "successively (\<lambda>a b. (a, b) \<in> contains ms) (stk @ [m])" "visit n path ms m c = Some c'"
  shows "dfs_ok ms stk c' \<and> (c_errs c' = [] \<longrightarrow> m \<in> set (c_sorted c') \<and> set (c_sorted c) \<subseteq> set (c_sorted c'))"
  using assms
proof (induction n arbitrary: m c c' stk)
  case (Suc n)
  consider "c_errs c \<noteq> []" | "c_errs c = []" "c_state c m = Active" | "c_errs c = []" "c_state c m = Done"
    | "c_errs c = []" "c_state c m = Unseen" by (cases "c_state c m") auto
  then show ?case
  proof cases
    case 1
    then show ?thesis using Suc.prems visit_errs [OF Suc.prems(5)] by (simp add: dfs_ok_def)
  next
    case 2
    then have "m \<in> set stk" using Suc.prems(1) by (auto simp: dfs_ok_def dfs_inv_def)
    then show ?thesis using 2 Suc.prems active_cycle [OF Suc.prems(4)] by (auto simp: dfs_ok_def)
  next
    case 3
    then show ?thesis using Suc.prems by (auto simp: dfs_ok_def dfs_inv_def)
  next
    case 4
    let ?c = "c\<lparr>c_state := (c_state c)(m := Active), c_stack := c_stack c @ [m]\<rparr>"
    obtain d where d: "fold_opt (visit n path ms) (refs ms m) ?c = Some d"
      and c': "c' = d\<lparr>c_stack := butlast (c_stack d), c_state := (c_state d)(m := Done), c_sorted := c_sorted d @ [m]\<rparr>"
      using Suc.prems(5) 4 by (auto split: option.splits)
    let ?I = "\<lambda>ys d. dfs_ok ms (stk @ [m]) d \<and> (c_errs d = [] \<longrightarrow> set ys \<subseteq> set (c_sorted d) \<and> set (c_sorted c) \<subseteq> set (c_sorted d))"
    have "?I (refs ms m) d"
    proof (rule fold_opt_inv [OF d, where I = ?I], goal_cases)
      case 1
      then show ?case using Suc.prems(1) 4 dfs_push [of ms c m] by (auto simp: dfs_ok_def)
    next
      case (2 ys r e e')
      then have "r < length ms" "successively (\<lambda>a b. (a, b) \<in> contains ms) ((stk @ [m]) @ [r])"
        using Suc.prems(2,3,4) by (auto simp: refs_in_def contains_def successively_append_iff)
      then have r: "dfs_ok ms (stk @ [m]) e' \<and> (c_errs e' = [] \<longrightarrow> r \<in> set (c_sorted e') \<and> set (c_sorted e) \<subseteq> set (c_sorted e'))"
        using Suc.IH [of "stk @ [m]" e r e'] 2 Suc.prems(3) by blast
      moreover have "c_errs e' = [] \<Longrightarrow> c_errs e = []" using visit_errs 2(3) by blast
      ultimately show ?case using 2 by auto
    qed
    then show ?thesis
      using dfs_pop [of ms d stk m] Suc.prems(2) c' by (auto simp: dfs_ok_def)
  qed
qed simp

lemma topo_acyclic:
  assumes "topo ms xs" "distinct xs" "set xs = {..<length ms}"
  shows "acyclic (contains ms)"
proof -
  have one: "\<exists>j < i. b = xs ! j" if "(xs ! i, b) \<in> contains ms" "i < length xs" for b i
  proof -
    have "b \<in> set (take i xs)" using that assms(1) by (auto simp: topo_def contains_def)
    then show ?thesis using that(2) by (auto simp: in_set_conv_nth)
  qed
  have down: "\<exists>j < i. b = xs ! j" if "(a, b) \<in> (contains ms)\<^sup>+" "i < length xs" "a = xs ! i" for a b i
    using that
  proof (induction rule: trancl_induct)
    case (base b)
    then show ?case using one by blast
  next
    case (step b b')
    then obtain j where j: "j < i" "b = xs ! j" by blast
    then show ?case using one [of j b'] step(2,4) by (metis order.strict_trans)
  qed
  show ?thesis
  proof (rule acyclicI, intro allI notI)
    fix a assume "(a, a) \<in> (contains ms)\<^sup>+"
    moreover from this have "a \<in> set xs"
      using assms(3) by (auto simp: contains_def elim: converse_tranclE)
    ultimately obtain i j where "i < length xs" "a = xs ! i" "j < i" "a = xs ! j"
      using down by (metis in_set_conv_nth)
    then show False using assms(2) by (simp add: nth_eq_iff_index_eq)
  qed
qed

lemma cycles_sound:
  assumes "refs_in ms" "cycles path ms = Some c"
  shows "if c_errs c = [] then distinct (c_sorted c) \<and> set (c_sorted c) = {..<length ms} \<and> topo ms (c_sorted c)
    else \<not> acyclic (contains ms)"
proof -
  let ?I = "\<lambda>ys d. dfs_ok ms [] d \<and> (c_errs d = [] \<longrightarrow> set ys \<subseteq> set (c_sorted d))"
  have "?I [0..<length ms] c"
  proof (rule fold_opt_inv [OF assms(2) [unfolded cycles_def], where I = ?I], goal_cases)
    case 1
    then show ?case by (simp add: dfs_ok_def dfs_inv_def topo_def)
  next
    case (2 ys m d d')
    have "c_errs d' = [] \<Longrightarrow> c_errs d = []" using visit_errs 2(3) by blast
    then show ?case using visit_sound [OF _ _ assms(1), of "[]" d m _ path d'] 2
      by (simp del: visit.simps) blast
  qed
  then show ?thesis by (auto simp: dfs_ok_def dfs_inv_def)
qed

lemma cycles_iff:
  assumes "refs_in ms" "cycles path ms = Some c"
  shows "c_errs c = [] \<longleftrightarrow> acyclic (contains ms)"
  using cycles_sound [OF assms] topo_acyclic by (auto split: if_splits)

end
