(* ===== verification/Schema_Layout.thy ===== *)
theory Schema_Layout
  imports Schema_Cycles
begin

text \<open>
  The layout of the fixed sections: with the messages in the order that \<open>cycles\<close> gives, every
  fixed field is aligned, lies behind the field before it and inside its section, and nothing
  that was laid out before is moved by a later message.
\<close>

section \<open>Arithmetic\<close>

lemma roundUp_ge: "0 < a \<Longrightarrow> n \<le> roundUp n a"
proof -
  assume a: "0 < a"
  have "n + a - 1 = (n + a - 1) div a * a + (n + a - 1) mod a" by simp
  moreover have "(n + a - 1) mod a \<le> a - 1" using mod_less_divisor [OF a, of "n + a - 1"] by linarith
  ultimately show ?thesis using a unfolding roundUp_def by linarith
qed

lemma roundUp_less: "0 < a \<Longrightarrow> roundUp n a < n + a"
  using div_times_less_eq_dividend [of "n + a - 1" a] unfolding roundUp_def by linarith

lemma roundUp_dvd: "a dvd roundUp n a"
  by (simp add: roundUp_def)

lemma fieldSize_eq: "fieldSize ms t = Type_Size ms t"
  by (induction t) auto

section \<open>Checked types\<close>

definition fixed_ref :: "Message list \<Rightarrow> nat option \<Rightarrow> bool" where
  "fixed_ref ms r = (case r of Some j \<Rightarrow> j < length ms \<and> Fixed (ms ! j) | None \<Rightarrow> False)"

fun elem_type :: "Message list \<Rightarrow> Type \<Rightarrow> bool" where
  "elem_type ms (Plain k _) \<longleftrightarrow> IsScalar k"
| "elem_type ms (RefTo _ r _) \<longleftrightarrow> fixed_ref ms r"
| "elem_type ms (ArrayOf _ _ _) \<longleftrightarrow> False"

fun checked_type :: "Message list \<Rightarrow> Type \<Rightarrow> bool" where
  "checked_type ms (Plain k _) \<longleftrightarrow> IsScalar k \<or> IsVar k"
| "checked_type ms (RefTo _ r _) \<longleftrightarrow> fixed_ref ms r"
| "checked_type ms (ArrayOf n e _) \<longleftrightarrow> 1 \<le> n \<and> n < 2 ^ 31 \<and> elem_type ms e"

definition checked_msg :: "Message list \<Rightarrow> Message \<Rightarrow> bool" where
  "checked_msg ms m \<longleftrightarrow> (\<forall>f \<in> set (m_Fields m). checked_type ms (f_Type f))"

definition msg_refs :: "Message \<Rightarrow> nat set" where
  "msg_refs m = {r. \<exists>f \<in> set (m_Fields m). refOf (f_Type f) = Some r}"

lemma set_refs: "set (refs ms i) = msg_refs (ms ! i)"
  by (force simp: refs_def msg_refs_def List.map_filter_def)

lemma size_align_cong:
  assumes "checked_type ms t" "\<And>r. refOf t = Some r \<Longrightarrow> ms ! r = ms' ! r"
  shows "Type_Size ms t = Type_Size ms' t" "Type_Align ms t = Type_Align ms' t"
  using assms by (cases t; cases "case t of ArrayOf _ e _ \<Rightarrow> e | _ \<Rightarrow> t"; auto simp: fixed_ref_def split: option.splits)+

section \<open>Placed fields\<close>

fun placed :: "Message list \<Rightarrow> nat \<Rightarrow> Field list \<Rightarrow> nat \<Rightarrow> bool" where
  "placed ms off [] end \<longleftrightarrow> end = off"
| "placed ms off (f # fs) end \<longleftrightarrow>
    (if Field_IsVar f then placed ms off fs end
     else f_Offset f = roundUp off (Type_Align ms (f_Type f))
       \<and> placed ms (f_Offset f + Type_Size ms (f_Type f)) fs end)"

definition alignment :: "nat \<Rightarrow> bool" where
  "alignment a \<longleftrightarrow> a \<in> {1, 2, 4, 8}"

definition laid :: "Message list \<Rightarrow> Message \<Rightarrow> bool" where
  "laid ms m \<longleftrightarrow> (\<exists>off. placed ms 0 (m_Fields m) off \<and> off \<le> maxFixedSize \<and> m_FixedSize m = roundUp off (m_Align m))
     \<and> alignment (m_Align m)
     \<and> (\<forall>f \<in> set (m_Fields m). \<not> Field_IsVar f \<longrightarrow>
          alignment (Type_Align ms (f_Type f)) \<and> Type_Align ms (f_Type f) dvd m_Align m)"

lemma placed_cong:
  assumes "\<And>f. f \<in> set fs \<Longrightarrow> Type_Size ms (f_Type f) = Type_Size ms' (f_Type f) \<and> Type_Align ms (f_Type f) = Type_Align ms' (f_Type f)"
  shows "placed ms off fs end = placed ms' off fs end"
  using assms by (induction fs arbitrary: off) auto

lemma laid_cong:
  assumes "checked_msg ms m" "\<And>r. r \<in> msg_refs m \<Longrightarrow> ms ! r = ms' ! r"
  shows "laid ms m = laid ms' m"
proof -
  have eq: "Type_Size ms (f_Type f) = Type_Size ms' (f_Type f) \<and> Type_Align ms (f_Type f) = Type_Align ms' (f_Type f)"
    if "f \<in> set (m_Fields m)" for f
    using size_align_cong [of ms "f_Type f" ms'] assms that by (auto simp: checked_msg_def msg_refs_def)
  have "placed ms 0 (m_Fields m) e = placed ms' 0 (m_Fields m) e" for e
    by (rule placed_cong) (rule eq)
  then show ?thesis unfolding laid_def using eq by (simp cong: ball_cong)
qed

lemma alignment_mono: "alignment a \<Longrightarrow> alignment b \<Longrightarrow> a \<le> b \<Longrightarrow> a dvd b"
  by (auto simp: alignment_def)

lemma alignment_pos: "alignment a \<Longrightarrow> 0 < a \<and> a \<le> 8"
  by (auto simp: alignment_def)

definition erase_field :: "Field \<Rightarrow> Field" where
  "erase_field f = f\<lparr>f_Offset := 0\<rparr>"

lemma lay_fields_spec:
  assumes "lay_fields path ms mname off align fs = Inr (fs', off', align')"
    and "off \<le> maxFixedSize" "alignment align"
    and "\<And>f. f \<in> set fs \<Longrightarrow> \<not> Field_IsVar f \<Longrightarrow> alignment (Type_Align ms (f_Type f))"
  shows "map erase_field fs' = map erase_field fs \<and> placed ms off fs' off' \<and> off' \<le> maxFixedSize \<and> alignment align'
    \<and> align \<le> align' \<and> (\<forall>f \<in> set fs'. \<not> Field_IsVar f \<longrightarrow> Type_Align ms (f_Type f) \<le> align')"
  using assms
proof (induction fs arbitrary: off align fs')
  case (Cons f fs)
  show ?case
  proof (cases "Field_IsVar f")
    case True
    then obtain gs where "lay_fields path ms mname off align fs = Inr (gs, off', align')" "fs' = f # gs"
      using Cons.prems(1) by (auto split: sum.splits prod.splits)
    then show ?thesis using Cons.IH [of off align gs] Cons.prems True by auto
  next
    case False
    let ?a = "Type_Align ms (f_Type f)" and ?at = "roundUp off (Type_Align ms (f_Type f))"
    have a: "alignment ?a" using Cons.prems(4) False by simp
    obtain gs where gs: "lay_fields path ms mname (?at + fieldSize ms (f_Type f)) (if ?a > align then ?a else align) fs = Inr (gs, off', align')"
      and fs': "fs' = f\<lparr>f_Offset := ?at\<rparr> # gs" and le: "?at + fieldSize ms (f_Type f) \<le> maxFixedSize"
      using Cons.prems(1) False by (auto simp: Let_def too_large_def split: if_splits sum.splits prod.splits)
    have al: "alignment (if ?a > align then ?a else align)" using a Cons.prems(3) by auto
    have "align \<le> (if ?a > align then ?a else align)" "?a \<le> (if ?a > align then ?a else align)" by auto
    moreover note Cons.IH [OF gs le al Cons.prems(4)]
    moreover have "\<not> Field_IsVar (f\<lparr>f_Offset := ?at\<rparr>)" using False by (simp add: Field_IsVar_def)
    ultimately show ?thesis using fs' by (auto simp: erase_field_def fieldSize_eq)
  qed
qed auto

lemma erase_field_simps [simp]:
  "f_Type (erase_field f) = f_Type f" "f_Name (erase_field f) = f_Name f" "f_Pos (erase_field f) = f_Pos f"
  by (simp_all add: erase_field_def)

lemma map_erase_fields:
  assumes "map erase_field fs' = map erase_field fs"
  shows "map f_Type fs' = map f_Type fs" "map f_Name fs' = map f_Name fs"
  using arg_cong [OF assms, of "map f_Type"] arg_cong [OF assms, of "map f_Name"] by (simp_all add: comp_def)

section \<open>Laying out every message\<close>

definition erase :: "Message \<Rightarrow> Message" where
  "erase m = m\<lparr>m_Fields := map erase_field (m_Fields m), m_FixedSize := 0, m_Align := 0\<rparr>"

lemma erase_eqD:
  assumes "erase m' = erase m"
  shows "map f_Type (m_Fields m') = map f_Type (m_Fields m)" "map f_Name (m_Fields m') = map f_Name (m_Fields m)"
    "m_Name m' = m_Name m" "m_ID m' = m_ID m"
proof -
  have "m_Fields (erase m') = m_Fields (erase m)" "m_Name (erase m') = m_Name (erase m)" "m_ID (erase m') = m_ID (erase m)"
    using assms by simp_all
  then show "map f_Type (m_Fields m') = map f_Type (m_Fields m)" "map f_Name (m_Fields m') = map f_Name (m_Fields m)"
    "m_Name m' = m_Name m" "m_ID m' = m_ID m"
    using map_erase_fields [of "m_Fields m'" "m_Fields m"] by (simp_all add: erase_def)
qed


lemma set_map_types: "map f_Type fs' = map f_Type fs \<Longrightarrow> (\<exists>f \<in> set fs'. P (f_Type f)) = (\<exists>f \<in> set fs. P (f_Type f))"
  by (metis (mono_tags, lifting) image_iff list.set_map)

lemma erase_msg_refs: "erase m' = erase m \<Longrightarrow> msg_refs m' = msg_refs m"
  using set_map_types [OF erase_eqD(1), of m' m "\<lambda>t. refOf t = Some r" for r] by (simp add: msg_refs_def)

lemma Fixed_alt: "Fixed m \<longleftrightarrow> \<not> (\<exists>f \<in> set (m_Fields m). IsVar (kind (f_Type f)))"
  by (auto simp: Fixed_def VarFields_def Field_IsVar_def filter_empty_conv)

lemma erase_Fixed: "erase m' = erase m \<Longrightarrow> Fixed m' = Fixed m"
  using set_map_types [OF erase_eqD(1), of m' m "\<lambda>t. IsVar (kind t)"] by (simp add: Fixed_alt)

lemma erase_nth: "map erase ms' = map erase ms \<Longrightarrow> i < length ms \<Longrightarrow> erase (ms' ! i) = erase (ms ! i)"
  by (metis length_map nth_map)

lemma erase_fixed_ref: "map erase ms' = map erase ms \<Longrightarrow> fixed_ref ms' r = fixed_ref ms r"
  using erase_Fixed [OF erase_nth, of ms' ms] by (auto simp: fixed_ref_def dest: map_eq_imp_length_eq split: option.splits)

lemma erase_checked_type: "map erase ms' = map erase ms \<Longrightarrow> checked_type ms' t = checked_type ms t"
proof -
  assume e: "map erase ms' = map erase ms"
  have "elem_type ms' u = elem_type ms u" for u using erase_fixed_ref [OF e] by (cases u) auto
  then show ?thesis using erase_fixed_ref [OF e] by (cases t) auto
qed

lemma erase_checked_msg:
  assumes "map erase ms' = map erase ms" "erase m' = erase m"
  shows "checked_msg ms' m' = checked_msg ms m"
  unfolding checked_msg_def erase_checked_type [OF assms(1)]
  using set_map_types [OF erase_eqD(1) [OF assms(2)], of "\<lambda>t. \<not> checked_type ms t"] by blast

lemma erase_topo:
  assumes "map erase ms' = map erase ms" "topo ms xs" "set xs \<subseteq> {..<length ms}"
  shows "topo ms' xs"
proof -
  have "msg_refs (ms' ! (xs ! i)) = msg_refs (ms ! (xs ! i))" if "i < length xs" for i
    using erase_msg_refs [OF erase_nth [OF assms(1)]] assms(3) nth_mem [OF that] by auto
  then show ?thesis using assms(2) by (simp add: topo_def set_refs)
qed

lemma scalar_alignment: "alignment (ScalarSize k)"
  by (cases k) (simp_all add: alignment_def)

lemma type_alignment:
  assumes "checked_type ms t" "\<And>r. refOf t = Some r \<Longrightarrow> alignment (m_Align (ms ! r))"
  shows "alignment (Type_Align ms t)"
  using assms scalar_alignment
  by (cases t; cases "case t of ArrayOf _ e _ \<Rightarrow> e | _ \<Rightarrow> t") (auto simp: fixed_ref_def split: option.splits)

lemma lay_message_spec:
  assumes "lay_message path ms i = Inr ms'" "i < length ms" "checked_msg ms (ms ! i)"
    and "i \<notin> msg_refs (ms ! i)" "\<And>r. r \<in> msg_refs (ms ! i) \<Longrightarrow> alignment (m_Align (ms ! r))"
  shows "map erase ms' = map erase ms \<and> (\<forall>j. j \<noteq> i \<longrightarrow> ms' ! j = ms ! j) \<and> laid ms' (ms' ! i)"
proof -
  let ?m = "ms ! i"
  obtain fs off al where l: "lay_fields path ms (m_Name ?m) 0 1 (m_Fields ?m) = Inr (fs, off, al)"
    and ms': "ms' = ms[i := ?m\<lparr>m_Fields := fs, m_FixedSize := roundUp off al, m_Align := al\<rparr>]"
    using assms(1) by (auto simp: lay_message_def Let_def split: sum.splits prod.splits)
  have al: "alignment (Type_Align ms (f_Type f))" if "f \<in> set (m_Fields ?m)" for f
    using type_alignment [of ms "f_Type f"] assms(3,5) that by (auto simp: checked_msg_def msg_refs_def)
  have spec: "map erase_field fs = map erase_field (m_Fields ?m)" "placed ms 0 fs off" "off \<le> maxFixedSize" "alignment al"
      "\<forall>f \<in> set fs. \<not> Field_IsVar f \<longrightarrow> Type_Align ms (f_Type f) \<le> al"
    using lay_fields_spec [OF l _ _ al] by (auto simp: maxFixedSize_def alignment_def)
  have er: "erase (ms' ! i) = erase ?m" using ms' assms(2) spec(1) by (simp add: erase_def)
  then have ers: "map erase ms' = map erase ms"
    using ms' assms(2) by (simp add: map_update list_update_same_conv)
  have "alignment (Type_Align ms (f_Type f))" if "f \<in> set fs" for f
    using al that set_map_types [OF map_erase_fields(1) [OF spec(1)], of "\<lambda>t. \<not> alignment (Type_Align ms t)"] by blast
  then have "laid ms (ms' ! i)"
    using spec ms' assms(2) alignment_mono by (auto simp: laid_def)
  moreover have "laid ms (ms' ! i) = laid ms' (ms' ! i)"
  proof (rule laid_cong)
    show "checked_msg ms (ms' ! i)" using erase_checked_msg [OF refl er] assms(3) by simp
    show "ms ! r = ms' ! r" if "r \<in> msg_refs (ms' ! i)" for r
      using that erase_msg_refs [OF er] assms(4) ms' by (metis nth_list_update_neq)
  qed
  ultimately show ?thesis using ers ms' by simp
qed

lemma laid_alignment: "laid ms m \<Longrightarrow> alignment (m_Align m)"
  by (simp add: laid_def)

lemma topo_mid: "topo ms (ys @ z # zs) \<Longrightarrow> msg_refs (ms ! z) \<subseteq> set ys"
  unfolding topo_def by (drule spec [of _ "length ys"]) (simp add: set_refs)

lemma topo_prefix: "topo ms (ys @ zs) \<Longrightarrow> i \<in> set ys \<Longrightarrow> msg_refs (ms ! i) \<subseteq> set ys"
proof -
  assume t: "topo ms (ys @ zs)" and "i \<in> set ys"
  then obtain us vs where "ys = us @ i # vs" by (meson split_list)
  then show ?thesis using topo_mid [of ms us i "vs @ zs"] t by auto
qed

text \<open>Laying out the rest \<open>zs\<close> of the order, after \<open>ys\<close>.\<close>

lemma layout_all_spec:
  assumes "layout_all path ms zs = Inr ms'" "distinct (ys @ zs)" "topo ms (ys @ zs)" "set (ys @ zs) \<subseteq> {..<length ms}"
    and "\<forall>m \<in> set ms. checked_msg ms m" "\<forall>i \<in> set ys. laid ms (ms ! i)"
  shows "map erase ms' = map erase ms \<and> (\<forall>i \<in> set (ys @ zs). laid ms' (ms' ! i))"
  using assms
proof (induction zs arbitrary: ms ys)
  case (Cons z zs)
  obtain ms1 where ms1: "lay_message path ms z = Inr ms1" and rest: "layout_all path ms1 zs = Inr ms'"
    using Cons.prems(1) by (auto split: sum.splits)
  have z: "z < length ms" "z \<notin> set ys" and refs: "msg_refs (ms ! z) \<subseteq> set ys"
    using Cons.prems(2,4) topo_mid [OF Cons.prems(3)] by auto
  have not_self: "z \<notin> msg_refs (ms ! z)" using refs z(2) by auto
  have al: "alignment (m_Align (ms ! r))" if "r \<in> msg_refs (ms ! z)" for r
    using Cons.prems(6) refs that laid_alignment by blast
  have step: "map erase ms1 = map erase ms" "\<forall>j. j \<noteq> z \<longrightarrow> ms1 ! j = ms ! j" "laid ms1 (ms1 ! z)"
    using lay_message_spec [OF ms1 z(1) _ not_self al] Cons.prems(5) z(1) by simp_all
  have "laid ms1 (ms1 ! i)" if i: "i \<in> set ys" for i
  proof -
    have "laid ms (ms ! i) = laid ms1 (ms ! i)"
    proof (rule laid_cong)
      show "checked_msg ms (ms ! i)" using Cons.prems(4,5) i by auto
      show "ms ! r = ms1 ! r" if "r \<in> msg_refs (ms ! i)" for r
        using topo_prefix [OF Cons.prems(3) i] that step(2) z(2) by (metis subsetD)
    qed
    then show ?thesis using Cons.prems(6) i step(2) z(2) by metis
  qed
  then have "\<forall>i \<in> set (ys @ [z]). laid ms1 (ms1 ! i)" using step(3) by simp
  moreover have "topo ms1 ((ys @ [z]) @ zs)" "\<forall>m \<in> set ms1. checked_msg ms1 m"
    using erase_topo [OF step(1) Cons.prems(3,4)] Cons.prems(5) erase_checked_msg [OF step(1) erase_nth [OF step(1)]]
      map_eq_imp_length_eq [OF step(1)] by (simp_all add: all_set_conv_all_nth)
  ultimately show ?case
    using Cons.IH [OF rest, of "ys @ [z]"] Cons.prems(2,4) step(1) map_eq_imp_length_eq [OF step(1)] by simp
qed auto

end
