(* ===== verification/Schema_Props.thy ===== *)
theory Schema_Props
  imports Schema_Layout
begin

text \<open>
  What a schema that \<open>Check\<close> accepts promises to the code generators and the codec: names and
  type IDs are unique, references point at fixed messages, no message contains itself, and
  every fixed section is laid out without overlap.
\<close>

section \<open>Names\<close>

definition fields_named :: "Message \<Rightarrow> bool" where
  "fields_named m \<longleftrightarrow> distinct (map f_Name (m_Fields m)) \<and> distinct (map (Camel \<circ> f_Name) (m_Fields m))
     \<and> (\<forall>f \<in> set (m_Fields m). snakeName (f_Name f))"

lemma field_names_ok:
  assumes "field_names path mn seen gon fs = []"
  shows "distinct (map f_Name fs) \<and> distinct (map (Camel \<circ> f_Name) fs)
    \<and> (\<forall>f \<in> set fs. snakeName (f_Name f) \<and> seen (f_Name f) = None \<and> gon (Camel (f_Name f)) = None)"
  using assms
proof (induction fs arbitrary: seen gon)
  case (Cons f fs)
  then have f: "snakeName (f_Name f)" "seen (f_Name f) = None" "gon (Camel (f_Name f)) = None"
    and rest: "field_names path mn (seen(f_Name f \<mapsto> f)) (gon(Camel (f_Name f) \<mapsto> f)) fs = []"
    by (auto simp: Let_def split: if_splits option.splits)
  show ?case using Cons.IH [OF rest] f by (auto split: if_splits)
qed simp

text \<open>The three tables hold exactly the messages seen so far, as long as there is no error.\<close>

definition tables_ok :: "Message list \<Rightarrow> nat \<Rightarrow> name_tables \<Rightarrow> bool" where
  "tables_ok ms k t \<longleftrightarrow> t_errs t = [] \<longrightarrow>
     (\<forall>n j. t_byName t n = Some j \<longleftrightarrow> j < k \<and> m_Name (ms ! j) = n)
     \<and> (\<forall>n j. t_snakes t n = Some j \<longleftrightarrow> j < k \<and> Message_Snake (ms ! j) = n)
     \<and> (\<forall>x j. t_ids t x = Some j \<longleftrightarrow> j < k \<and> m_ID (ms ! j) = x)
     \<and> (\<forall>j < k. m_ID (ms ! j) \<noteq> 0xFFFFFFFF \<and> messageName (m_Name (ms ! j)) \<and> fields_named (ms ! j))"

lemma table_step:
  assumes "\<forall>n j. T n = Some j \<longleftrightarrow> j < k \<and> f (ms ! j) = n" "T (f (ms ! k)) = None"
  shows "\<forall>n j. (T(f (ms ! k) \<mapsto> k)) n = Some j \<longleftrightarrow> j < Suc k \<and> f (ms ! j) = n"
proof (intro allI)
  fix n j
  have "f (ms ! i) \<noteq> f (ms ! k)" if "i < k" for i using assms that by (metis option.distinct(1))
  then show "(T(f (ms ! k) \<mapsto> k)) n = Some j \<longleftrightarrow> j < Suc k \<and> f (ms ! j) = n"
    using assms(1) by (cases "n = f (ms ! k)") (auto simp: less_Suc_eq)
qed

lemma names_step_ok:
  assumes "tables_ok ms k t"
  shows "tables_ok ms (Suc k) (names_step path ms k t)"
  unfolding tables_ok_def
proof
  let ?m = "ms ! k"
  assume "t_errs (names_step path ms k t) = []"
  then have none: "t_errs t = []" "name_errors path ms t ?m = []" "id_errors path ms t ?m = []" "fieldNames path ?m = []"
    by (auto simp: names_step_def Let_def)
  have name: "messageName (m_Name ?m)" "t_byName t (m_Name ?m) = None" "t_snakes t (Message_Snake ?m) = None"
    using none(2) by (auto simp: name_errors_def split: if_splits option.splits)
  have ids: "m_ID ?m \<noteq> 0xFFFFFFFF" "t_ids t (m_ID ?m) = None"
    using none(3) by (auto simp: id_errors_def split: if_splits option.splits)
  have new: "fields_named ?m" using field_names_ok none(4) by (auto simp: fieldNames_def fields_named_def)
  note inv = assms [unfolded tables_ok_def, rule_format, OF none(1)]
  have step: "t_byName (names_step path ms k t) = (t_byName t)(m_Name ?m \<mapsto> k)"
    "t_snakes (names_step path ms k t) = (t_snakes t)(Message_Snake ?m \<mapsto> k)"
    "t_ids (names_step path ms k t) = (t_ids t)(m_ID ?m \<mapsto> k)"
    using name ids by (simp_all add: names_step_def Let_def)
  show "(\<forall>n j. t_byName (names_step path ms k t) n = Some j \<longleftrightarrow> j < Suc k \<and> m_Name (ms ! j) = n)
     \<and> (\<forall>n j. t_snakes (names_step path ms k t) n = Some j \<longleftrightarrow> j < Suc k \<and> Message_Snake (ms ! j) = n)
     \<and> (\<forall>x j. t_ids (names_step path ms k t) x = Some j \<longleftrightarrow> j < Suc k \<and> m_ID (ms ! j) = x)
     \<and> (\<forall>j < Suc k. m_ID (ms ! j) \<noteq> 0xFFFFFFFF \<and> messageName (m_Name (ms ! j)) \<and> fields_named (ms ! j))"
    unfolding step
    by (intro conjI table_step) (use inv name ids new in \<open>simp_all add: less_Suc_eq\<close>)
qed

lemma names_fold_ok:
  assumes "tables_ok ms 0 t"
  shows "tables_ok ms k (fold (names_step path ms) [0..<k] t)"
  by (induction k) (simp_all add: assms names_step_ok)

definition names_unique :: "Message list \<Rightarrow> bool" where
  "names_unique ms \<longleftrightarrow> distinct (map m_Name ms) \<and> distinct (map Message_Snake ms) \<and> distinct (map m_ID ms)
     \<and> (\<forall>m \<in> set ms. m_ID m \<noteq> 0xFFFFFFFF \<and> messageName (m_Name m) \<and> fields_named m)"

lemma table_distinct:
  assumes "\<forall>n j. T n = Some j \<longleftrightarrow> j < length ms \<and> f (ms ! j) = n"
  shows "distinct (map f ms)"
proof -
  have "T (f (ms ! a)) = Some a" if "a < length ms" for a using assms that by simp
  then show ?thesis unfolding distinct_conv_nth by (metis length_map nth_map option.inject)
qed

lemma names_ok:
  assumes "names s = (s1, [])"
  shows "names_unique (s_Messages s)" and "s_Messages s1 = s_Messages s" and "s_File s1 = s_File s"
    and "s_byName s1 n = Some j \<longleftrightarrow> j < length (s_Messages s) \<and> m_Name (s_Messages s ! j) = n"
proof -
  let ?ms = "s_Messages s"
  define t where "t = fold (names_step (s_File s) ?ms) [0..<length ?ms]
    \<lparr>t_byName = Map.empty, t_snakes = Map.empty, t_ids = Map.empty, t_errs = package_errors s\<rparr>"
  have s1: "s1 = s\<lparr>s_byName := t_byName t\<rparr>" and "t_errs t = []"
    using assms by (auto simp: names_def Let_def t_def)
  then have none: "t_errs t = []" by simp
  have "tables_ok ?ms (length ?ms) t" unfolding t_def by (rule names_fold_ok) (simp add: tables_ok_def)
  note i = this [unfolded tables_ok_def, rule_format, OF none]
  show "names_unique ?ms"
    using i table_distinct [of "t_byName t" ?ms m_Name] table_distinct [of "t_snakes t" ?ms Message_Snake]
      table_distinct [of "t_ids t" ?ms m_ID] by (simp add: names_unique_def all_set_conv_all_nth)
  show "s_Messages s1 = ?ms" "s_File s1 = s_File s" using s1 by simp_all
  show "s_byName s1 n = Some j \<longleftrightarrow> j < length ?ms \<and> m_Name (?ms ! j) = n" using s1 i by simp
qed

section \<open>References\<close>

lemma resolve_kind: "kind (fst (resolve path ms by t)) = kind t"
  by (cases t) (auto simp: Let_def split: Type.splits)

lemma resolve_ok:
  assumes "resolve path ms by t = (t', [])" "type_ok t" "\<And>n j. by n = Some j \<Longrightarrow> j < length ms"
    and "\<And>n j p. t' = RefTo n (Some j) p \<Longrightarrow> Fixed (ms ! j)"
  shows "checked_type ms t'"
proof (cases t)
  case (ArrayOf n e p)
  then show ?thesis using assms
    by (cases e) (auto simp: Let_def fixed_ref_def split: if_splits option.splits)
next
  case (RefTo n r p)
  then show ?thesis using assms by (auto simp: fixed_ref_def split: if_splits option.splits)
qed (use assms in auto)

definition resolved :: "string \<Rightarrow> Message list \<Rightarrow> (string \<rightharpoonup> nat) \<Rightarrow> Message \<Rightarrow> Message" where
  "resolved path ms by m = m\<lparr>m_Fields := map (fst \<circ> field_type path ms by) (m_Fields m)\<rparr>"

lemma field_type_simps:
  "kind (f_Type (fst (field_type path ms by f))) = kind (f_Type f)"
  "f_Name (fst (field_type path ms by f)) = f_Name f"
  by (simp_all add: field_type_def resolve_kind split: prod.splits) (metis fst_conv resolve_kind)

lemma resolved_simps [simp]:
  "m_Name (resolved path ms by m) = m_Name m" "m_ID (resolved path ms by m) = m_ID m"
  "Message_Snake (resolved path ms by m) = Message_Snake m"
  "Fixed (resolved path ms by m) = Fixed m" "fields_named (resolved path ms by m) = fields_named m"
  by (simp_all add: resolved_def Fixed_alt Message_Snake_def fields_named_def comp_def field_type_simps)

lemma types_ok:
  assumes "types s = (s2, [])" "\<forall>m \<in> set (s_Messages s). msg_ok m"
    and "\<And>n j. s_byName s n = Some j \<Longrightarrow> j < length (s_Messages s)"
  shows "s_Messages s2 = map (resolved (s_File s) (s_Messages s) (s_byName s)) (s_Messages s)" (is "_ = map ?res ?ms")
    and "\<forall>m \<in> set (s_Messages s2). checked_msg (s_Messages s2) m"
proof -
  show ms2: "s_Messages s2 = map ?res ?ms" using assms(1) by (auto simp: types_def Let_def resolved_def)
  have ref: "fixed_ref (map ?res ?ms) r = fixed_ref ?ms r" for r by (auto simp: fixed_ref_def split: option.split)
  have elem: "elem_type (map ?res ?ms) u = elem_type ?ms u" for u by (cases u) (auto simp: ref)
  have same: "checked_type (map ?res ?ms) t = checked_type ?ms t" for t by (cases t) (auto simp: ref elem)
  have "checked_type ?ms (f_Type (fst (field_type (s_File s) ?ms (s_byName s) f)))"
    if "m \<in> set ?ms" "f \<in> set (m_Fields m)" for m f
  proof -
    obtain t es where t: "resolve (s_File s) ?ms (s_byName s) (f_Type f) = (t, es)" by fastforce
    have "snd (field_type (s_File s) ?ms (s_byName s) f) = []"
      using assms(1) that by (auto simp: types_def Let_def)
    then have "es = []" "\<And>n j p. t = RefTo n (Some j) p \<Longrightarrow> Fixed (?ms ! j)"
      using t by (auto simp: field_type_def split: if_splits)
    moreover have "type_ok (f_Type f)" using assms(2) that by (auto simp: msg_ok_def)
    ultimately have "checked_type ?ms t" using resolve_ok [of "s_File s" ?ms "s_byName s" "f_Type f" t] t assms(3) by metis
    then show ?thesis using t by (simp add: field_type_def)
  qed
  then show "\<forall>m \<in> set (s_Messages s2). checked_msg (s_Messages s2) m"
    by (auto simp: ms2 same checked_msg_def resolved_def)
qed

lemma refOf_checked: "checked_type ms t \<Longrightarrow> refOf t = Some r \<Longrightarrow> r < length ms \<and> Fixed (ms ! r)"
  by (cases t; cases "case t of ArrayOf _ e _ \<Rightarrow> e | _ \<Rightarrow> t") (auto simp: fixed_ref_def split: option.splits)

lemma checked_refs_in: "\<forall>m \<in> set ms. checked_msg ms m \<Longrightarrow> refs_in ms"
  by (fastforce simp: refs_in_def set_refs msg_refs_def checked_msg_def dest: refOf_checked)

section \<open>Accepted schemas\<close>

definition checked_schema :: "Schema \<Rightarrow> bool" where
  "checked_schema s \<longleftrightarrow> (let ms = s_Messages s in
     names_unique ms \<and> distinct (s_Sorted s) \<and> set (s_Sorted s) = {..<length ms} \<and> topo ms (s_Sorted s)
     \<and> (\<forall>m \<in> set ms. checked_msg ms m \<and> laid ms m))"

lemma erase_fields_named: "erase m' = erase m \<Longrightarrow> fields_named m' = fields_named m"
proof -
  assume e: "erase m' = erase m"
  note n = erase_eqD(2) [OF e]
  have "map (Camel \<circ> f_Name) (m_Fields m') = map (Camel \<circ> f_Name) (m_Fields m)"
    using arg_cong [OF n, of "map Camel"] by simp
  moreover have "f_Name ` set (m_Fields m') = f_Name ` set (m_Fields m)" using n by (metis list.set_map)
  then have "(\<forall>f \<in> set (m_Fields m'). snakeName (f_Name f)) = (\<forall>f \<in> set (m_Fields m). snakeName (f_Name f))"
    by (metis (no_types, lifting) imageE imageI)
  ultimately show ?thesis using n by (simp add: fields_named_def)
qed

lemma map_via_erase:
  assumes "map erase ms' = map erase ms" "\<And>m' m. erase m' = erase m \<Longrightarrow> g m' = g m"
  shows "map g ms' = map g ms"
proof (rule nth_equalityI)
  show len: "length (map g ms') = length (map g ms)" using map_eq_imp_length_eq [OF assms(1)] by simp
  show "map g ms' ! i = map g ms ! i" if "i < length (map g ms')" for i
    using assms(2) [OF erase_nth [OF assms(1), of i]] that len by simp
qed

lemma erase_names_unique: "map erase ms' = map erase ms \<Longrightarrow> names_unique ms' = names_unique ms"
proof -
  assume e: "map erase ms' = map erase ms"
  define ok where "ok = (\<lambda>m. m_ID m \<noteq> 0xFFFFFFFF \<and> messageName (m_Name m) \<and> fields_named m)"
  have "ok m' = ok m" if "erase m' = erase m" for m' m
    unfolding ok_def erase_eqD(3,4) [OF that] erase_fields_named [OF that] by (rule refl)
  then have "map ok ms' = map ok ms" by (rule map_via_erase [OF e])
  moreover have all: "(\<forall>m \<in> set xs. ok m) = list_all id (map ok xs)" for xs by (simp add: list_all_iff)
  ultimately have "(\<forall>m \<in> set ms'. ok m) = (\<forall>m \<in> set ms. ok m)" by (simp only: all)
  moreover have "Message_Snake m' = Message_Snake m" if "erase m' = erase m" for m' m
    unfolding Message_Snake_def erase_eqD(3) [OF that] by (rule refl)
  then have "map Message_Snake ms' = map Message_Snake ms" by (rule map_via_erase [OF e])
  moreover have "map m_Name ms' = map m_Name ms" by (rule map_via_erase [OF e]) (rule erase_eqD(3))
  moreover have "map m_ID ms' = map m_ID ms" by (rule map_via_erase [OF e]) (rule erase_eqD(4))
  ultimately show ?thesis by (simp add: names_unique_def ok_def)
qed

text \<open>The schema after names and types are found to be in order.\<close>

lemma names_types_ok:
  assumes "names s = (s1, [])" "types s1 = (s2, [])" "\<forall>m \<in> set (s_Messages s). msg_ok m"
  shows "names_unique (s_Messages s2)" "\<forall>m \<in> set (s_Messages s2). checked_msg (s_Messages s2) m"
proof -
  note n = names_ok [OF assms(1)]
  have t: "s_Messages s2 = map (resolved (s_File s1) (s_Messages s1) (s_byName s1)) (s_Messages s1)"
    "\<forall>m \<in> set (s_Messages s2). checked_msg (s_Messages s2) m"
    using types_ok [OF assms(2)] assms(3) n by simp_all
  show "names_unique (s_Messages s2)"
    using n(1,2) t(1) by (simp add: names_unique_def comp_def)
  show "\<forall>m \<in> set (s_Messages s2). checked_msg (s_Messages s2) m" by (rule t(2))
qed

lemma Check_checked:
  assumes "Check s = Some (Inr s')" "\<forall>m \<in> set (s_Messages s). msg_ok m"
  shows "checked_schema s'"
proof -
  obtain s1 s2 c ms where n: "names s = (s1, [])" and t: "types s1 = (s2, [])"
    and c: "cycles (s_File s) (s_Messages s2) = Some c" "c_errs c = []"
    and l: "layout_all (s_File s) (s_Messages s2) (c_sorted c) = Inr ms"
    and s': "s' = s2\<lparr>s_Messages := ms, s_Sorted := c_sorted c\<rparr>"
    using assms(1) by (auto simp: Check_def split: prod.splits if_splits option.splits sum.splits)
  note ok = names_types_ok [OF n t assms(2)]
  have sorted: "distinct (c_sorted c)" "set (c_sorted c) = {..<length (s_Messages s2)}" "topo (s_Messages s2) (c_sorted c)"
    using cycles_sound [OF checked_refs_in [OF ok(2)] c(1)] c(2) by auto
  have ms: "map erase ms = map erase (s_Messages s2)" "\<forall>i \<in> set (c_sorted c). laid ms (ms ! i)"
    using layout_all_spec [OF l, of "[]"] sorted ok(2) by simp_all
  note len = map_eq_imp_length_eq [OF ms(1)]
  have "checked_msg ms (ms ! i)" if "i < length ms" for i
    using erase_checked_msg [OF ms(1) erase_nth [OF ms(1)]] ok(2) that len by simp
  moreover have "topo ms (c_sorted c)" using erase_topo [OF ms(1) sorted(3)] sorted(2) by simp
  ultimately show ?thesis
    using sorted ms(2) ok(1) erase_names_unique [OF ms(1)] len s'
    by (simp add: checked_schema_def Let_def all_set_conv_all_nth)
qed

lemma Check_total:
  assumes "\<forall>m \<in> set (s_Messages s). msg_ok m"
  shows "\<exists>r. Check s = Some r"
proof -
  obtain s1 errs1 s2 errs2 where n: "names s = (s1, errs1)" "types s1 = (s2, errs2)" by fastforce
  show ?thesis
  proof (cases "errs1 @ errs2 = []")
    case True
    then have "refs_in (s_Messages s2)" using names_types_ok [of s s1 s2] n assms checked_refs_in by auto
    then show ?thesis using n cycles_total [of "s_Messages s2" "s_File s"]
      by (auto simp: Check_def split: sum.splits)
  qed (use n in \<open>auto simp: Check_def\<close>)
qed

lemma Load_checked: "Load readFile path = Some (Inr s) \<Longrightarrow> checked_schema s"
  by (auto simp: Load_def split: sum.splits option.splits dest: Check_checked [OF _ Parse_ok])

lemma placed_bounds:
  assumes "placed ms off fs end" "\<And>f. f \<in> set fs \<Longrightarrow> \<not> Field_IsVar f \<Longrightarrow> 0 < Type_Align ms (f_Type f)"
  shows "off \<le> end \<and> (\<forall>f \<in> set (filter (\<lambda>f. \<not> Field_IsVar f) fs).
      off \<le> f_Offset f \<and> f_Offset f + Type_Size ms (f_Type f) \<le> end \<and> Type_Align ms (f_Type f) dvd f_Offset f)
    \<and> sorted_wrt (\<lambda>f g. f_Offset f + Type_Size ms (f_Type f) \<le> f_Offset g) (filter (\<lambda>f. \<not> Field_IsVar f) fs)"
  using assms
proof (induction fs arbitrary: off)
  case (Cons f fs)
  show ?case
  proof (cases "Field_IsVar f")
    case False
    then have f: "f_Offset f = roundUp off (Type_Align ms (f_Type f))" "placed ms (f_Offset f + Type_Size ms (f_Type f)) fs end"
      using Cons.prems(1) by auto
    have "off \<le> f_Offset f" "Type_Align ms (f_Type f) dvd f_Offset f"
      using f(1) Cons.prems(2) False roundUp_ge roundUp_dvd by simp_all
    then show ?thesis using Cons.IH [OF f(2)] Cons.prems(2) False by auto
  qed (use Cons in auto)
qed simp

definition section_ok :: "Message list \<Rightarrow> Message \<Rightarrow> bool" where
  "section_ok ms m \<longleftrightarrow>
     (\<forall>f \<in> set (FixedFields m). Type_Align ms (f_Type f) dvd f_Offset f
        \<and> f_Offset f + Type_Size ms (f_Type f) \<le> m_FixedSize m \<and> f_Offset f + Type_Size ms (f_Type f) < 2 ^ 31)
     \<and> sorted_wrt (\<lambda>f g. f_Offset f + Type_Size ms (f_Type f) \<le> f_Offset g) (FixedFields m)
     \<and> m_Align m dvd m_FixedSize m \<and> m_FixedSize m \<le> 2 ^ 31"

lemma laid_section_ok:
  assumes "laid ms m"
  shows "section_ok ms m"
proof -
  obtain off where off: "placed ms 0 (m_Fields m) off" "off \<le> maxFixedSize" "m_FixedSize m = roundUp off (m_Align m)"
    and al: "alignment (m_Align m)" "\<And>f. f \<in> set (m_Fields m) \<Longrightarrow> \<not> Field_IsVar f \<Longrightarrow> 0 < Type_Align ms (f_Type f)"
    using assms alignment_pos by (fastforce simp: laid_def)
  have "off \<le> m_FixedSize m" using off(3) roundUp_ge al(1) alignment_pos by simp
  moreover have "m_FixedSize m \<le> 2 ^ 31"
  proof -
    have "m_Align m dvd 2 ^ 31" using al(1) by (auto simp: alignment_def)
    then obtain q where q: "2 ^ 31 = m_Align m * q" by blast
    obtain r where r: "m_FixedSize m = m_Align m * r" using off(3) roundUp_dvd [of "m_Align m" off] by auto
    have "m_FixedSize m < 2 ^ 31 + m_Align m"
      using roundUp_less [of "m_Align m" off] off(2,3) al(1) alignment_pos by (fastforce simp: maxFixedSize_def)
    then have "m_Align m * r < m_Align m * Suc q" using q r by simp
    then have "r \<le> q" by (metis less_Suc_eq_le nat_mult_less_cancel1 not_gr_zero mult_0 not_less_zero)
    then have "m_Align m * r \<le> m_Align m * q" by (rule mult_le_mono2)
    then show ?thesis using q r by metis
  qed
  ultimately show ?thesis
    using placed_bounds [OF off(1) al(2)] off(2,3) roundUp_dvd by (fastforce simp: section_ok_def FixedFields_def maxFixedSize_def)
qed

text \<open>The layout computes in \<open>int64\<close>; no step of it leaves that range.\<close>

lemma field_end_bound:
  assumes "checked_type ms t" "\<And>r. refOf t = Some r \<Longrightarrow> m_FixedSize (ms ! r) \<le> 2 ^ 31"
    and "off \<le> maxFixedSize" "alignment a"
  shows "roundUp off a + fieldSize ms t < 2 ^ 63"
proof -
  have scalar: "ScalarSize k \<le> 2 ^ 31" "ScalarSize k \<le> 2 ^ 31 * 2 ^ 31" for k by (cases k; simp)+
  have elem: "Type_Size ms e \<le> 2 ^ 31" if "elem_type ms e" "\<And>n r p. e = RefTo n (Some r) p \<Longrightarrow> m_FixedSize (ms ! r) \<le> 2 ^ 31" for e
    using that scalar(1) by (cases e) (auto split: option.splits)
  have "Type_Size ms t \<le> 2 ^ 31 * 2 ^ 31"
  proof (cases t)
    case (ArrayOf n e p)
    have "Type_Size ms e \<le> 2 ^ 31" using assms(1,2) ArrayOf by (intro elem) auto
    then show ?thesis using assms(1) ArrayOf mult_le_mono [of n "2 ^ 31" "Type_Size ms e" "2 ^ 31"] by simp
  next
    case (RefTo n r p)
    then show ?thesis using assms(1,2) order_trans [of _ "2 ^ 31 :: nat"] by (auto split: option.splits)
  qed (use scalar(2) in simp)
  moreover have "roundUp off a < off + a" using roundUp_less alignment_pos [OF assms(4)] by simp
  moreover have "off + a \<le> 2 ^ 32" using assms(3) alignment_pos [OF assms(4)] by (simp add: maxFixedSize_def)
  ultimately show ?thesis by (simp add: fieldSize_eq)
qed

section \<open>Properties\<close>

text \<open>
  C34: A type that \<open>Type.String\<close> prints is read back by the lexer and the parser as the same
  type, up to positions, and nothing of the text is left over.
\<close>

theorem type_roundtrip:
  assumes "printable t"
  shows "\<exists>ts t' rest. lex path (Type_String t) = Inr ts \<and> p_typ path ts = Inr (t', rest)
    \<and> map tk_kind rest = [tEOF] \<and> strip t' = strip t"
  using parse_printed_type [OF assms, of path 1 1] by (fastforce simp: lex_def)

theorem type_roundtrip_witness:
  "printable (ArrayOf 3 (RefTo ''Point'' (Some 0) no_pos) no_pos) \<and>
   (\<exists>ts t' rest. lex ''f'' (Type_String (ArrayOf 3 (RefTo ''Point'' (Some 0) no_pos) no_pos)) = Inr ts
     \<and> p_typ ''f'' ts = Inr (t', rest) \<and> map tk_kind rest = [tEOF]
     \<and> strip t' = ArrayOf 3 (RefTo ''Point'' None no_pos) no_pos)"
proof -
  have p: "printable (ArrayOf 3 (RefTo ''Point'' (Some 0) no_pos) no_pos)"
    by (simp add: ident_name_def wordByte_def isIdentStart_def isDigit_def scalarNames_def)
  then show ?thesis using type_roundtrip [OF p, of "''f''"] by simp
qed

text \<open>
  C35: \<open>Load\<close> returns for every file: whatever the text, lexer, parser and the search for
  cycles come to an end, with an error or with a checked schema.
\<close>

theorem Load_returns: "\<exists>r. Load readFile path = Some r"
proof -
  have "\<exists>r. Check s = Some r" if "Parse path src = Inr s" for src s
    using Check_total Parse_ok [OF that] by blast
  then show ?thesis by (fastforce simp: Load_def split: sum.split option.split)
qed

definition demo_src :: string where
  "demo_src = ''package p'' @ [CHR 0x0A] @ ''message A = 7 {'' @ [CHR 0x0A] @ '' f bool'' @ [CHR 0x0A] @ '' n u32'' @ [CHR 0x0A] @
     ''}'' @ [CHR 0x0A] @ ''message B = 1 {'' @ [CHR 0x0A] @ '' x u8'' @ [CHR 0x0A] @ '' ps [2]A'' @ [CHR 0x0A] @ '' s string'' @ [CHR 0x0A] @ ''}''"

definition demo_messages :: "Message list" where
  "demo_messages =
    [\<lparr>m_Name = ''A'', m_ID = 7,
       m_Fields = [\<lparr>f_Name = ''f'', f_Type = Plain Bool \<lparr>Line = 3, Col = 4\<rparr>, f_Pos = \<lparr>Line = 3, Col = 2\<rparr>, f_Offset = 0\<rparr>,
         \<lparr>f_Name = ''n'', f_Type = Plain U32 \<lparr>Line = 4, Col = 4\<rparr>, f_Pos = \<lparr>Line = 4, Col = 2\<rparr>, f_Offset = 4\<rparr>],
       m_Pos = \<lparr>Line = 2, Col = 9\<rparr>, m_IDPos = \<lparr>Line = 2, Col = 13\<rparr>, m_FixedSize = 8, m_Align = 4\<rparr>,
     \<lparr>m_Name = ''B'', m_ID = 1,
       m_Fields = [\<lparr>f_Name = ''x'', f_Type = Plain U8 \<lparr>Line = 7, Col = 4\<rparr>, f_Pos = \<lparr>Line = 7, Col = 2\<rparr>, f_Offset = 0\<rparr>,
         \<lparr>f_Name = ''ps'', f_Type = ArrayOf 2 (RefTo ''A'' (Some 0) \<lparr>Line = 8, Col = 8\<rparr>) \<lparr>Line = 8, Col = 5\<rparr>,
           f_Pos = \<lparr>Line = 8, Col = 2\<rparr>, f_Offset = 4\<rparr>,
         \<lparr>f_Name = ''s'', f_Type = Plain String \<lparr>Line = 9, Col = 4\<rparr>, f_Pos = \<lparr>Line = 9, Col = 2\<rparr>, f_Offset = 0\<rparr>],
       m_Pos = \<lparr>Line = 6, Col = 9\<rparr>, m_IDPos = \<lparr>Line = 6, Col = 13\<rparr>, m_FixedSize = 20, m_Align = 4\<rparr>]"

lemma demo_load:
  "case Load (\<lambda>_. Inr demo_src) ''f'' of Some (Inr s) \<Rightarrow> s_Messages s = demo_messages | _ \<Rightarrow> False"
  by code_simp

lemma demo_loaded:
  obtains s where "Load (\<lambda>_. Inr demo_src) ''f'' = Some (Inr s)" "s_Messages s = demo_messages"
  using demo_load by (auto split: option.splits sum.splits)

text \<open>
  C33: In a schema that \<open>Load\<close> accepts, message names, their C names, type IDs and the Go names of
  the fields of a message are unique, no type ID is the padding type of the ring, and the
  names that code is generated from are legal identifiers.
\<close>

theorem Load_unique:
  assumes "Load readFile path = Some (Inr s)"
  shows "distinct (map m_Name (s_Messages s)) \<and> distinct (map Message_Snake (s_Messages s)) \<and> distinct (map m_ID (s_Messages s))
    \<and> (\<forall>m \<in> set (s_Messages s). m_ID m \<noteq> 0xFFFFFFFF \<and> snakeName (Message_Snake m)
        \<and> distinct (map (Camel \<circ> f_Name) (m_Fields m)) \<and> (\<forall>f \<in> set (m_Fields m). messageName (Camel (f_Name f))))"
  using Load_checked [OF assms] snakeName_Snake messageName_Camel
  by (auto simp: checked_schema_def Let_def names_unique_def fields_named_def Message_Snake_def)

theorem Load_unique_witness:
  "\<exists>s. Load (\<lambda>_. Inr demo_src) ''f'' = Some (Inr s) \<and> map m_ID (s_Messages s) = [7, 1] \<and> distinct (map m_ID (s_Messages s))"
proof -
  obtain s where s: "Load (\<lambda>_. Inr demo_src) ''f'' = Some (Inr s)" "s_Messages s = demo_messages"
    by (rule demo_loaded)
  then show ?thesis using Load_unique [OF s(1)] by (auto simp: demo_messages_def)
qed

text \<open>
  C29: In a schema that \<open>Load\<close> accepts, every fixed field is aligned to its type, lies inside the
  fixed section and behind the field before it, and the section is a multiple of its
  alignment. No offset leaves the range of an \<open>int32\<close>.
\<close>

theorem Load_layout:
  assumes "Load readFile path = Some (Inr s)" "m \<in> set (s_Messages s)"
  shows "(\<forall>f \<in> set (FixedFields m). Type_Align (s_Messages s) (f_Type f) dvd f_Offset f
        \<and> f_Offset f + Type_Size (s_Messages s) (f_Type f) \<le> m_FixedSize m
        \<and> f_Offset f + Type_Size (s_Messages s) (f_Type f) < 2 ^ 31)
    \<and> sorted_wrt (\<lambda>f g. f_Offset f + Type_Size (s_Messages s) (f_Type f) \<le> f_Offset g) (FixedFields m)
    \<and> m_Align m dvd m_FixedSize m"
  using laid_section_ok [of "s_Messages s" m] Load_checked [OF assms(1)] assms(2)
  by (simp add: checked_schema_def Let_def section_ok_def)

theorem Load_layout_witness:
  "\<exists>s m. Load (\<lambda>_. Inr demo_src) ''f'' = Some (Inr s) \<and> m \<in> set (s_Messages s) \<and> m_FixedSize m = 20
     \<and> map f_Offset (FixedFields m) = [0, 4] \<and> m_Align m dvd 20"
proof -
  obtain s where s: "Load (\<lambda>_. Inr demo_src) ''f'' = Some (Inr s)" "s_Messages s = demo_messages"
    by (rule demo_loaded)
  then have m: "demo_messages ! 1 \<in> set (s_Messages s)" by (simp add: demo_messages_def)
  have "m_Align (demo_messages ! 1) dvd m_FixedSize (demo_messages ! 1)" using Load_layout [OF s(1) m] by blast
  then show ?thesis using s(1) m
    by (intro exI [of _ s] exI [of _ "demo_messages ! 1"]) (simp add: demo_messages_def FixedFields_def Field_IsVar_def IsVar_def)
qed

text \<open>
  C31: The search for messages that contain themselves is exact. For a schema with names and
  references in order it returns, it reports an error if and only if the containment of
  messages has a cycle, and otherwise \<open>Sorted\<close> holds every message once, each after the
  messages it contains.
\<close>

theorem cycles_exact:
  assumes "names s = (s1, [])" "types s1 = (s2, [])" "\<forall>m \<in> set (s_Messages s). msg_ok m"
  shows "\<exists>c. cycles path (s_Messages s2) = Some c \<and> (c_errs c = [] \<longleftrightarrow> acyclic (contains (s_Messages s2)))
    \<and> (c_errs c = [] \<longrightarrow> distinct (c_sorted c) \<and> set (c_sorted c) = {..<length (s_Messages s2)} \<and> topo (s_Messages s2) (c_sorted c))"
proof -
  have refs: "refs_in (s_Messages s2)" using names_types_ok [OF assms] checked_refs_in by blast
  then obtain c where "cycles path (s_Messages s2) = Some c" using cycles_total by blast
  then show ?thesis using cycles_iff [OF refs] cycles_sound [OF refs] by (metis (full_types))
qed

definition plain_message :: "string \<Rightarrow> u32 \<Rightarrow> Field list \<Rightarrow> Message" where
  "plain_message n x fs = \<lparr>m_Name = n, m_ID = x, m_Fields = fs, m_Pos = no_pos, m_IDPos = no_pos, m_FixedSize = 0, m_Align = 0\<rparr>"

definition plain_field :: "string \<Rightarrow> Type \<Rightarrow> Field" where
  "plain_field n t = \<lparr>f_Name = n, f_Type = t, f_Pos = no_pos, f_Offset = 0\<rparr>"

definition plain_schema :: "Message list \<Rightarrow> Schema" where
  "plain_schema ms = \<lparr>s_File = ''f'', s_Package = ''p'', s_PkgPos = no_pos, s_Messages = ms, s_Sorted = [], s_byName = Map.empty\<rparr>"

definition knot :: Schema where
  "knot = plain_schema [plain_message ''A'' 1 [plain_field ''b'' (RefTo ''B'' None no_pos)],
     plain_message ''B'' 2 [plain_field ''a'' (ArrayOf 2 (RefTo ''A'' None no_pos) no_pos)]]"

theorem cycles_exact_witness:
  "\<exists>s1 s2 c. names knot = (s1, []) \<and> types s1 = (s2, []) \<and> cycles ''f'' (s_Messages s2) = Some c
    \<and> c_errs c \<noteq> [] \<and> \<not> acyclic (contains (s_Messages s2))"
proof -
  obtain s1 errs1 where n: "names knot = (s1, errs1)" by fastforce
  obtain s2 errs2 where t: "types s1 = (s2, errs2)" by fastforce
  have "snd (names knot) = []" by code_simp
  then have e1: "errs1 = []" using n by simp
  have "snd (types (fst (names knot))) = []" by code_simp
  then have e2: "errs2 = []" using n t by simp
  have "case cycles ''f'' (s_Messages (fst (types (fst (names knot))))) of Some c \<Rightarrow> c_errs c \<noteq> [] | None \<Rightarrow> False"
    by code_simp
  then have found: "case cycles ''f'' (s_Messages s2) of Some c \<Rightarrow> c_errs c \<noteq> [] | None \<Rightarrow> False" using n t by simp
  have "\<forall>m \<in> set (s_Messages knot). msg_ok m"
    by (simp add: knot_def plain_schema_def plain_message_def plain_field_def msg_ok_def)
  then show ?thesis using cycles_exact [of knot s1 s2 "''f''"] n t e1 e2 found by (fastforce split: option.splits)
qed

text \<open>
  C36: The bound on a fixed section is not kept. It is checked before the section is rounded up
  to its alignment, so a message whose last field ends at the bound gets a size of \<open>2^31\<close>,
  which is no \<open>int32\<close>.
\<close>

definition wide_schema :: "nat \<Rightarrow> Schema" where
  "wide_schema n = plain_schema [plain_message ''M'' 1
     [plain_field ''a'' (Plain U64 no_pos), plain_field ''b'' (ArrayOf n (Plain U8 no_pos) no_pos)]]"

theorem fixed_size_beyond_bound:
  "\<exists>s. Check (wide_schema 2147483639) = Some (Inr s) \<and> m_FixedSize (s_Messages s ! 0) = 2 ^ 31
     \<and> maxFixedSize < m_FixedSize (s_Messages s ! 0)"
proof -
  let ?m = "plain_message ''M'' 1 [plain_field ''a'' (Plain U64 no_pos), plain_field ''b'' (ArrayOf 2147483639 (Plain U8 no_pos) no_pos)]"
  obtain s1 errs1 where n: "names (wide_schema 2147483639) = (s1, errs1)" by fastforce
  obtain s2 errs2 where t: "types s1 = (s2, errs2)" by fastforce
  have "snd (names (wide_schema k)) = []" for k by code_simp
  then have e1: "errs1 = []" using n by (metis snd_conv)
  have s1: "s_Messages s1 = [?m]" using names_ok(2) [OF n [unfolded e1]] by (simp add: wide_schema_def plain_schema_def)
  have s2: "s_Messages s2 = [?m] \<and> errs2 = []"
    using t s1 by (auto simp: types_def Let_def field_type_def plain_message_def plain_field_def IsVar_def)
  have c: "cycles path [?m] = Some \<lparr>c_state = (\<lambda>_. Unseen)(0 := Done), c_stack = [], c_sorted = [0], c_errs = []\<rparr>" for path
    by (simp add: cycles_def refs_def plain_message_def plain_field_def List.map_filter_def)
  have l: "\<exists>ms. layout_all path [?m] [0] = Inr ms \<and> m_FixedSize (ms ! 0) = 2 ^ 31" for path
    by (simp add: lay_message_def plain_message_def plain_field_def Field_IsVar_def IsVar_def Let_def roundUp_def too_large_def maxFixedSize_def)
  then obtain ms where ms: "layout_all (s_File (wide_schema 2147483639)) [?m] [0] = Inr ms" "m_FixedSize (ms ! 0) = 2 ^ 31" by blast
  have "Check (wide_schema 2147483639) = Some (Inr (s2\<lparr>s_Messages := ms, s_Sorted := [0]\<rparr>))"
    unfolding Check_def n prod.case t using e1 s2 c ms(1) by simp
  then show ?thesis using ms(2) by (simp add: maxFixedSize_def)
qed

end
