(* ===== verification/Refcodec.thy ===== *)
theory Refcodec
  imports Schema_Props
begin

text \<open>
  The reference codec of \<^verbatim>\<open>src/ipcgen/internal/refcodec/refcodec.go\<close>. A byte slice that Go narrows
  with \<open>b[off:]\<close> is the whole buffer and the offset of the view; a slice or index out of range
  is the error \<open>Panic\<close>. Recursion through message references takes fuel, and \<open>put_total\<close> and
  \<open>check_total\<close> show that the fuel \<open>Encode\<close> and \<open>Decode\<close> start with is enough for every checked
  schema. Reading a decimal as a float is a parameter, \<open>floats\<close>: no property depends on the bits
  it gives.
\<close>

section \<open>Values\<close>

datatype json =
    JNull
  | JBool bool
  | JNumber string
  | JString string
  | JArray "json list"
  | JObject "(string \<times> json) list"

datatype encode_problem =
    NotObject
  | FieldMissing string
  | NoField string string
  | WantArray nat
  | WantObject
  | WantBool
  | WantNumber Kind
  | WantDecimal Kind
  | WantKind Kind
  | NotA string Kind
  | WantString
  | NotUTF8
  | WantHex

datatype DecodeKind = ErrShort | ErrLength | ErrTrailing | ErrBool | ErrUTF8

datatype codec_error = EncodeError string encode_problem | DecodeError DecodeKind | Panic

record 'f floats =
  ParseFloat :: "string \<Rightarrow> 'f option"
  exact32 :: "'f \<Rightarrow> bool"
  Float32bits :: "'f \<Rightarrow> nat"
  Float64bits :: "'f \<Rightarrow> nat"

definition obj_get :: "(string \<times> json) list \<Rightarrow> string \<Rightarrow> json" where
  "obj_get obj k = (case map_of obj k of Some v \<Rightarrow> v | None \<Rightarrow> JNull)"

definition obj_len :: "(string \<times> json) list \<Rightarrow> nat" where
  "obj_len obj = length (remdups (map fst obj))"

section \<open>Encoding\<close>

definition checkKeys :: "Message \<Rightarrow> (string \<times> json) list \<Rightarrow> string \<Rightarrow> codec_error option" where
  "checkKeys m obj path =
    (case find (\<lambda>f. map_of obj (f_Name f) = None) (m_Fields m) of
       Some f \<Rightarrow> Some (EncodeError path (FieldMissing (f_Name f)))
     | None \<Rightarrow>
        if obj_len obj \<noteq> length (m_Fields m) then
          (case find (\<lambda>k. k \<notin> f_Name ` set (m_Fields m)) (map fst obj) of
             Some k \<Rightarrow> Some (EncodeError path (NoField (m_Name m) k))
           | None \<Rightarrow> None)
        else None)"

definition scalarText :: "Kind \<Rightarrow> json \<Rightarrow> encode_problem + string" where
  "scalarText k v = (case v of
      JString x \<Rightarrow> if k \<noteq> U64 \<and> k \<noteq> I64 then Inl (WantNumber k) else Inr x
    | JNumber x \<Rightarrow> if k = U64 \<or> k = I64 then Inl (WantDecimal k) else Inr x
    | _ \<Rightarrow> Inl (WantKind k))"

definition scalarBits :: "'f floats \<Rightarrow> Kind \<Rightarrow> json \<Rightarrow> encode_problem + nat" where
  "scalarBits fl k v = (case scalarText k v of Inl e \<Rightarrow> Inl e | Inr text \<Rightarrow>
     let size = ScalarSize k * 8 in
     if k = F32 then
       (case ParseFloat fl text of None \<Rightarrow> Inl (NotA text k)
        | Some f \<Rightarrow> if \<not> exact32 fl f then Inl (NotA text k) else Inr (Float32bits fl f))
     else if k = F64 then
       (case ParseFloat fl text of None \<Rightarrow> Inl (NotA text k) | Some f \<Rightarrow> Inr (Float64bits fl f))
     else if IsSigned k then
       (case ParseInt text 10 size of None \<Rightarrow> Inl (NotA text k) | Some n \<Rightarrow> Inr (nat (n mod 2 ^ 64)))
     else (case ParseUint text 10 size of None \<Rightarrow> Inl (NotA text k) | Some n \<Rightarrow> Inr n))"

definition store_at :: "bytes \<Rightarrow> nat \<Rightarrow> bytes \<Rightarrow> bytes" where
  "store_at b at x = take at b @ x @ drop (at + length x) b"

text \<open>
  The items that one level of a value writes: where each goes, its type, its value and its
  path. A field of a message and an element of an array are written by the same loop.
\<close>

type_synonym item = "nat \<times> Type \<times> json \<times> string"

fun put_items :: "(bytes \<Rightarrow> item \<Rightarrow> (codec_error + bytes) option) \<Rightarrow> bytes \<Rightarrow> item list \<Rightarrow> (codec_error + bytes) option" where
  "put_items p b [] = Some (Inr b)"
| "put_items p b (x # xs) =
    (if fst x > length b then Some (Inl Panic) else
     case p b x of None \<Rightarrow> None | Some (Inl e) \<Rightarrow> Some (Inl e) | Some (Inr b') \<Rightarrow> put_items p b' xs)"

definition field_items :: "nat \<Rightarrow> Message \<Rightarrow> (string \<times> json) list \<Rightarrow> string \<Rightarrow> item list" where
  "field_items at m obj path =
    map (\<lambda>f. (at + f_Offset f, f_Type f, obj_get obj (f_Name f), path @ ''.'' @ f_Name f)) (FixedFields m)"

definition elem_items :: "nat \<Rightarrow> nat \<Rightarrow> Type \<Rightarrow> json list \<Rightarrow> string \<Rightarrow> item list" where
  "elem_items at sz e arr path =
    map (\<lambda>(i, v). (at + i * sz, e, v, path @ ''['' @ dec i @ '']'')) (enumerate 0 arr)"

definition putFixed :: "(bytes \<Rightarrow> item \<Rightarrow> (codec_error + bytes) option) \<Rightarrow> bytes \<Rightarrow> nat \<Rightarrow> Message \<Rightarrow>
    (string \<times> json) list \<Rightarrow> string \<Rightarrow> (codec_error + bytes) option" where
  "putFixed p b at m obj path = (case checkKeys m obj path of
      Some e \<Rightarrow> Some (Inl e)
    | None \<Rightarrow> put_items p b (field_items at m obj path))"

definition put_scalar :: "'f floats \<Rightarrow> bytes \<Rightarrow> nat \<Rightarrow> Kind \<Rightarrow> json \<Rightarrow> string \<Rightarrow> codec_error + bytes" where
  "put_scalar fl b at k v path =
    (if k = Bool then
       (case v of
          JBool x \<Rightarrow> if x then (if at < length b then Inr (b[at := 1]) else Inl Panic) else Inr b
        | _ \<Rightarrow> Inl (EncodeError path WantBool))
     else (case scalarBits fl k v of
          Inl e \<Rightarrow> Inl (EncodeError path e)
        | Inr bits \<Rightarrow> if at + ScalarSize k \<le> length b then Inr (store_at b at (le_bytes (ScalarSize k) bits)) else Inl Panic))"

primrec put :: "nat \<Rightarrow> 'f floats \<Rightarrow> Message list \<Rightarrow> bytes \<Rightarrow> item \<Rightarrow> (codec_error + bytes) option" where
  "put 0 fl ms b x = None"
| "put (Suc n) fl ms b x = (case x of (at, t, v, path) \<Rightarrow>
    (case t of
      ArrayOf len e _ \<Rightarrow> (case v of
          JArray arr \<Rightarrow> if length arr \<noteq> len then Some (Inl (EncodeError path (WantArray len)))
            else put_items (put n fl ms) b (elem_items at (Type_Size ms e) e arr path)
        | _ \<Rightarrow> Some (Inl (EncodeError path (WantArray len))))
    | RefTo _ r _ \<Rightarrow> (case v of
          JObject obj \<Rightarrow> (case r of Some j \<Rightarrow> putFixed (put n fl ms) b at (ms ! j) obj path | None \<Rightarrow> Some (Inl Panic))
        | _ \<Rightarrow> Some (Inl (EncodeError path WantObject)))
    | Plain k _ \<Rightarrow> Some (put_scalar fl b at k v path)))"

definition string_bytes :: "string \<Rightarrow> bytes" where
  "string_bytes s = map (\<lambda>c. word_of_nat (of_char c)) s"

definition varBytes :: "Field \<Rightarrow> json \<Rightarrow> string \<Rightarrow> codec_error + bytes" where
  "varBytes f v path = (case v of
      JString s \<Rightarrow>
        if kind (f_Type f) = String then
          (if \<not> utf8_Valid (runes s) then Inl (EncodeError path NotUTF8) else Inr (string_bytes s))
        else (case hex_decode s of
            None \<Rightarrow> Inl (EncodeError path WantHex)
          | Some raw \<Rightarrow> if hex_encode raw \<noteq> s then Inl (EncodeError path WantHex) else Inr raw)
    | _ \<Rightarrow> Inl (EncodeError path WantString))"

text \<open>\<open>uint32(len(raw))\<close> is truncated to the four bytes that \<open>le_bytes 4\<close> keeps.\<close>

fun put_vars :: "string \<Rightarrow> (string \<times> json) list \<Rightarrow> bytes \<Rightarrow> Field list \<Rightarrow> codec_error + bytes" where
  "put_vars mname obj b [] = Inr b"
| "put_vars mname obj b (f # fs) =
    (case varBytes f (obj_get obj (f_Name f)) (mname @ ''.'' @ f_Name f) of
       Inl e \<Rightarrow> Inl e
     | Inr raw \<Rightarrow> put_vars mname obj (b @ le_bytes 4 (length raw) @ raw) fs)"

definition codec_fuel :: "Message list \<Rightarrow> nat" where
  "codec_fuel ms = 2 * length ms + 3"

definition Encode :: "'f floats \<Rightarrow> Message list \<Rightarrow> Message \<Rightarrow> json \<Rightarrow> (codec_error + bytes) option" where
  "Encode fl ms m v = (case v of
      JObject obj \<Rightarrow>
        (case putFixed (put (codec_fuel ms) fl ms) (replicate (m_FixedSize m) 0) 0 m obj (m_Name m) of
           None \<Rightarrow> None
         | Some (Inl e) \<Rightarrow> Some (Inl e)
         | Some (Inr b) \<Rightarrow> Some (put_vars (m_Name m) obj b (VarFields m)))
    | _ \<Rightarrow> Some (Inl (EncodeError (m_Name m) NotObject)))"

section \<open>Decoding\<close>

fun check_items :: "(nat \<times> Type \<Rightarrow> (codec_error + unit) option) \<Rightarrow> bytes \<Rightarrow> (nat \<times> Type) list \<Rightarrow> (codec_error + unit) option" where
  "check_items p b [] = Some (Inr ())"
| "check_items p b (x # xs) =
    (if fst x > length b then Some (Inl Panic) else
     case p x of None \<Rightarrow> None | Some (Inl e) \<Rightarrow> Some (Inl e) | Some (Inr _) \<Rightarrow> check_items p b xs)"

definition checkFixed :: "(nat \<times> Type \<Rightarrow> (codec_error + unit) option) \<Rightarrow> bytes \<Rightarrow> nat \<Rightarrow> Message \<Rightarrow> (codec_error + unit) option" where
  "checkFixed p b at m = check_items p b (map (\<lambda>f. (at + f_Offset f, f_Type f)) (FixedFields m))"

primrec checkType :: "nat \<Rightarrow> Message list \<Rightarrow> bytes \<Rightarrow> nat \<times> Type \<Rightarrow> (codec_error + unit) option" where
  "checkType 0 ms b x = None"
| "checkType (Suc n) ms b x = (case x of (at, t) \<Rightarrow>
    (case t of
      Plain k _ \<Rightarrow>
        if k = Bool then
          (if length b \<le> at then Some (Inl Panic)
           else if unat (b ! at) > 1 then Some (Inl (DecodeError ErrBool)) else Some (Inr ()))
        else Some (Inr ())
    | RefTo _ r _ \<Rightarrow> (case r of Some j \<Rightarrow> checkFixed (checkType n ms b) b at (ms ! j) | None \<Rightarrow> Some (Inl Panic))
    | ArrayOf len e _ \<Rightarrow> check_items (checkType n ms b) b (map (\<lambda>i. (at + i * Type_Size ms e, e)) [0..<len])))"

text \<open>
  Go's slices: \<open>b[lo:hi]\<close> panics unless \<open>lo \<le> hi \<le> len(b)\<close> (the buffer is taken to end where its
  capacity ends), and \<open>binary.LittleEndian.Uint32\<close> panics on fewer than four bytes.
  \<open>len(b)-off\<close> is a signed difference, which the second test of the loop converts to \<open>uint64\<close>.
\<close>

definition go_slice :: "bytes \<Rightarrow> nat \<Rightarrow> nat \<Rightarrow> bytes option" where
  "go_slice b lo hi = (if lo \<le> hi \<and> hi \<le> length b then Some (take (hi - lo) (drop lo b)) else None)"

definition Uint32 :: "bytes \<Rightarrow> nat option" where
  "Uint32 b = (if length b < 4 then None else Some (le_val (take 4 b)))"

definition to_uint64 :: "int \<Rightarrow> nat" where
  "to_uint64 n = nat (n mod 2 ^ 64)"

fun decode_vars :: "bytes \<Rightarrow> nat \<Rightarrow> Field list \<Rightarrow> codec_error + unit" where
  "decode_vars b off [] = (if off \<noteq> length b then Inl (DecodeError ErrTrailing) else Inr ())"
| "decode_vars b off (f # fs) =
    (if int (length b) - int off < 4 then Inl (DecodeError ErrLength) else
     case Option.bind (go_slice b off (length b)) Uint32 of
       None \<Rightarrow> Inl Panic
     | Some n \<Rightarrow>
         let off = off + 4 in
         if n > to_uint64 (int (length b) - int off) then Inl (DecodeError ErrLength)
         else if kind (f_Type f) = String then
           (case go_slice b off (off + n) of
              None \<Rightarrow> Inl Panic
            | Some text \<Rightarrow> if \<not> utf8_Valid (map unat text) then Inl (DecodeError ErrUTF8) else decode_vars b (off + n) fs)
         else decode_vars b (off + n) fs)"

definition Decode :: "Message list \<Rightarrow> Message \<Rightarrow> bytes \<Rightarrow> (codec_error + unit) option" where
  "Decode ms m b =
    (if length b < m_FixedSize m then Some (Inl (DecodeError ErrShort)) else
     case checkFixed (checkType (codec_fuel ms) ms b) b 0 m of
       None \<Rightarrow> None
     | Some (Inl e) \<Rightarrow> Some (Inl e)
     | Some (Inr _) \<Rightarrow> Some (decode_vars b (m_FixedSize m) (VarFields m)))"

end
