(* ===== verification/Refcodec_Props.thy ===== *)
theory Refcodec_Props
  imports Refcodec
begin

text \<open>
  The codec on a checked schema: neither direction panics or runs out of fuel, whatever the
  input, and every encoding is accepted by the decoder. The latter rests on the layout: a
  value is written into its own region of the fixed section, and no later field touches it.
\<close>

section \<open>Regions\<close>

text \<open>The schema that the codec works from, with an order in which messages contain each other.\<close>

definition codec_ready :: "Message list \<Rightarrow> nat list \<Rightarrow> bool" where
  "codec_ready ms xs \<longleftrightarrow> distinct xs \<and> set xs = {..<length ms} \<and> topo ms xs
     \<and> (\<forall>m \<in> set ms. checked_msg ms m \<and> laid ms m)"

lemma checked_ready: "checked_schema s \<Longrightarrow> codec_ready (s_Messages s) (s_Sorted s)"
  by (simp add: checked_schema_def codec_ready_def Let_def)

definition fixed_type :: "Message list \<Rightarrow> Type \<Rightarrow> bool" where
  "fixed_type ms t \<longleftrightarrow> checked_type ms t \<and> \<not> IsVar (kind t)"

text \<open>The items lie one behind the other between \<open>lo\<close> and \<open>hi\<close>.\<close>

fun in_order :: "Message list \<Rightarrow> nat \<Rightarrow> nat \<Rightarrow> (nat \<times> Type) list \<Rightarrow> bool" where
  "in_order ms lo hi [] \<longleftrightarrow> lo \<le> hi"
| "in_order ms lo hi ((at, t) # xs) \<longleftrightarrow>
    lo \<le> at \<and> at + Type_Size ms t \<le> hi \<and> fixed_type ms t \<and> in_order ms (at + Type_Size ms t) hi xs"

definition where_what :: "item \<Rightarrow> nat \<times> Type" where
  "where_what x = (fst x, fst (snd x))"

lemma where_what_simp [simp]: "where_what (at, t, v, path) = (at, t)"
  by (simp add: where_what_def)

lemma in_order_le: "in_order ms lo hi xs \<Longrightarrow> lo \<le> hi"
  by (cases "(ms, lo, hi, xs)" rule: in_order.cases) auto

lemma in_order_widen: "in_order ms lo hi xs \<Longrightarrow> lo' \<le> lo \<Longrightarrow> hi \<le> hi' \<Longrightarrow> in_order ms lo' hi' xs"
  by (induction ms lo hi xs arbitrary: lo' rule: in_order.induct) auto

lemma fields_in_order:
  assumes "placed ms off fs end" "\<forall>f \<in> set fs. checked_type ms (f_Type f) \<and> (\<not> Field_IsVar f \<longrightarrow> 0 < Type_Align ms (f_Type f))"
  shows "in_order ms (at + off) (at + end) (map (\<lambda>f. (at + f_Offset f, f_Type f)) (filter (\<lambda>f. \<not> Field_IsVar f) fs))"
  using assms
proof (induction fs arbitrary: off)
  case (Cons f fs)
  show ?case
  proof (cases "Field_IsVar f")
    case False
    then have f: "f_Offset f = roundUp off (Type_Align ms (f_Type f))" "placed ms (f_Offset f + Type_Size ms (f_Type f)) fs end"
      using Cons.prems(1) by auto
    have ih: "in_order ms (at + (f_Offset f + Type_Size ms (f_Type f))) (at + end)
        (map (\<lambda>f. (at + f_Offset f, f_Type f)) (filter (\<lambda>f. \<not> Field_IsVar f) fs))"
      using Cons.IH [OF f(2)] Cons.prems(2) by simp
    have "off \<le> f_Offset f" using f(1) Cons.prems(2) False roundUp_ge by simp
    moreover have "fixed_type ms (f_Type f)" using Cons.prems(2) False by (simp add: fixed_type_def Field_IsVar_def)
    ultimately show ?thesis using ih in_order_le [OF ih] False by (simp add: add.assoc)
  qed (use Cons in auto)
qed simp

lemma message_in_order:
  assumes "laid ms m" "checked_msg ms m"
  shows "in_order ms at (at + m_FixedSize m) (map (\<lambda>f. (at + f_Offset f, f_Type f)) (FixedFields m))"
proof -
  obtain off where off: "placed ms 0 (m_Fields m) off" "m_FixedSize m = roundUp off (m_Align m)" and al: "0 < m_Align m"
    and fs: "\<forall>f \<in> set (m_Fields m). \<not> Field_IsVar f \<longrightarrow> 0 < Type_Align ms (f_Type f)"
    using assms(1) alignment_pos by (fastforce simp: laid_def)
  have "in_order ms (at + 0) (at + off) (map (\<lambda>f. (at + f_Offset f, f_Type f)) (FixedFields m))"
    unfolding FixedFields_def using fields_in_order [OF off(1)] fs assms(2) by (simp add: checked_msg_def)
  then show ?thesis using in_order_widen [of ms at "at + off"] roundUp_ge [OF al] off(2) by simp
qed

lemma elems_in_order:
  assumes "fixed_type ms e"
  shows "in_order ms (at + k * Type_Size ms e) (at + (k + n) * Type_Size ms e) (map (\<lambda>i. (at + i * Type_Size ms e, e)) [k..<k + n])"
  using assms
proof (induction n arbitrary: k)
  case (Suc n)
  have "[k..<k + Suc n] = k # [Suc k..<Suc k + n]" by (simp add: upt_conv_Cons)
  moreover have "in_order ms (at + k * Type_Size ms e + Type_Size ms e) (at + (k + Suc n) * Type_Size ms e)
      (map (\<lambda>i. (at + i * Type_Size ms e, e)) [Suc k..<Suc k + n])"
    using Suc.IH [OF Suc.prems, of "Suc k"] by (simp add: algebra_simps)
  ultimately show ?case using Suc.prems by (simp add: algebra_simps)
qed simp

lemma where_fields: "map where_what (field_items at m obj path) = map (\<lambda>f. (at + f_Offset f, f_Type f)) (FixedFields m)"
  by (simp add: field_items_def where_what_def comp_def)

lemma where_elems: "map where_what (elem_items at sz e arr path) = map (\<lambda>i. (at + i * sz, e)) [0..<length arr]"
  by (rule nth_equalityI) (auto simp: elem_items_def where_what_def nth_enumerate_eq split: prod.splits)

lemma elem_fixed: "checked_type ms (ArrayOf n e p) \<Longrightarrow> fixed_type ms e"
  by (cases e) (auto simp: fixed_type_def IsScalar_def IsVar_def)

lemma ready_message:
  assumes "codec_ready ms xs" "j < length ms"
  shows "laid ms (ms ! j)" "checked_msg ms (ms ! j)" "j < length ms"
  using assms by (auto simp: codec_ready_def)

section \<open>No panic, and fuel enough\<close>

definition pos_of :: "nat list \<Rightarrow> nat \<Rightarrow> nat" where
  "pos_of xs j = length (takeWhile (\<lambda>i. i \<noteq> j) xs)"

fun need :: "nat list \<Rightarrow> Type \<Rightarrow> nat" where
  "need xs (Plain _ _) = 1"
| "need xs (RefTo _ r _) = (case r of Some j \<Rightarrow> 2 * pos_of xs j + 3 | None \<Rightarrow> 1)"
| "need xs (ArrayOf _ e _) = Suc (need xs e)"

lemma pos_of_less: "j \<in> set xs \<Longrightarrow> pos_of xs j < length xs"
  unfolding pos_of_def by (induction xs) auto

lemma pos_of_take: "j \<in> set (take i xs) \<Longrightarrow> i \<le> length xs \<Longrightarrow> pos_of xs j < i"
proof -
  assume j: "j \<in> set (take i xs)" and "i \<le> length xs"
  have "takeWhile (\<lambda>i. i \<noteq> j) (take i xs @ drop i xs) = takeWhile (\<lambda>i. i \<noteq> j) (take i xs)"
    using j by (intro takeWhile_append1) auto
  then have "pos_of xs j = pos_of (take i xs) j" by (simp add: pos_of_def)
  then show ?thesis using pos_of_less [OF j] by simp
qed

lemma nth_pos_of: "j \<in> set xs \<Longrightarrow> xs ! pos_of xs j = j"
  unfolding pos_of_def by (induction xs) auto

lemma need_field:
  assumes "codec_ready ms xs" "j < length ms" "f \<in> set (m_Fields (ms ! j))"
  shows "need xs (f_Type f) \<le> 2 * pos_of xs j + 2"
proof -
  have j: "j \<in> set xs" and "topo ms xs" using assms(1,2) by (auto simp: codec_ready_def)
  then have sub: "msg_refs (ms ! j) \<subseteq> set (take (pos_of xs j) xs)"
    using pos_of_less [OF j] nth_pos_of [OF j] unfolding topo_def set_refs by metis
  have ref: "pos_of xs r < pos_of xs j" if "refOf (f_Type f) = Some r" for r
    using pos_of_take [of r "pos_of xs j" xs] sub that assms(3) pos_of_less [OF j] by (auto simp: msg_refs_def)
  have "checked_type ms (f_Type f)" using assms by (auto simp: codec_ready_def checked_msg_def)
  then show ?thesis
    using ref by (cases "f_Type f"; cases "case f_Type f of ArrayOf _ e _ \<Rightarrow> e | t \<Rightarrow> t") (fastforce split: option.splits)+
qed

lemma in_order_mem:
  "in_order ms lo hi xs \<Longrightarrow> (at, t) \<in> set xs \<Longrightarrow> lo \<le> at \<and> at + Type_Size ms t \<le> hi \<and> fixed_type ms t"
  by (induction ms lo hi xs rule: in_order.induct) auto

text \<open>A step that returns without panicking and keeps the length of the buffer.\<close>

definition settles :: "nat \<Rightarrow> (codec_error + bytes) option \<Rightarrow> bool" where
  "settles len r \<longleftrightarrow> (\<exists>x. r = Some x \<and> x \<noteq> Inl Panic \<and> (\<forall>b. x = Inr b \<longrightarrow> length b = len))"

lemma put_items_settles:
  assumes "in_order ms lo hi (map where_what xs)" "hi \<le> length b"
    and "\<And>b' x. x \<in> set xs \<Longrightarrow> length b' = length b \<Longrightarrow> settles (length b) (p b' x)"
  shows "settles (length b) (put_items p b xs)"
  using assms
proof (induction xs arbitrary: b lo)
  case (Cons x xs)
  obtain at t v path where x: "x = (at, t, v, path)" by (cases x) auto
  have at: "at \<le> length b" using Cons.prems(1,2) x by auto
  obtain r where r: "p b x = Some r" "r \<noteq> Inl Panic" "\<forall>b'. r = Inr b' \<longrightarrow> length b' = length b"
    using Cons.prems(3) [of x b] by (auto simp: settles_def)
  show ?case
  proof (cases r)
    case (Inr b')
    then have len: "length b' = length b" using r(3) by simp
    have "in_order ms (at + Type_Size ms t) hi (map where_what xs)" using Cons.prems(1) x by simp
    from Cons.IH [OF this, of b'] have "settles (length b') (put_items p b' xs)"
      using Cons.prems(2,3) len by simp
    then show ?thesis using Inr r(1) at x len by simp
  qed (use r at x in \<open>auto simp: settles_def\<close>)
qed (simp add: settles_def)

lemma message_items:
  assumes "codec_ready ms xs" "j < length ms" "x \<in> set (field_items at (ms ! j) obj path)"
  shows "\<exists>at' t v path'. x = (at', t, v, path') \<and> fixed_type ms t \<and> at' + Type_Size ms t \<le> at + m_FixedSize (ms ! j)
    \<and> need xs t \<le> 2 * pos_of xs j + 2"
proof -
  note j = ready_message [OF assms(1,2)]
  obtain f where f: "f \<in> set (FixedFields (ms ! j))" and x: "x = (at + f_Offset f, f_Type f, obj_get obj (f_Name f), path @ ''.'' @ f_Name f)"
    using assms(3) by (auto simp: field_items_def)
  moreover have "need xs (f_Type f) \<le> 2 * pos_of xs j + 2"
    using need_field [OF assms(1) j(3)] f by (simp add: FixedFields_def)
  moreover have "fixed_type ms (f_Type f) \<and> at + f_Offset f + Type_Size ms (f_Type f) \<le> at + m_FixedSize (ms ! j)"
    using in_order_mem [OF message_in_order [OF j(1,2)], of "at + f_Offset f" "f_Type f" at] f by auto
  ultimately show ?thesis by blast
qed

lemma elem_item:
  assumes "x \<in> set (elem_items at sz e arr path)"
  shows "\<exists>i v path'. x = (at + i * sz, e, v, path') \<and> i < length arr"
  using assms by (auto simp: elem_items_def in_set_enumerate_eq)

lemma elem_end: "i < n \<Longrightarrow> at + n * sz \<le> len \<Longrightarrow> at + i * sz + sz \<le> (len :: nat)"
proof -
  assume "i < n" "at + n * sz \<le> len"
  moreover from this have "Suc i * sz \<le> n * sz" by (intro mult_le_mono1) simp
  ultimately show ?thesis by simp
qed

lemma put_scalar_settles:
  assumes "at + ScalarSize k \<le> length b"
  shows "settles (length b) (Some (put_scalar fl b at k v path))"
proof -
  have "ScalarSize k > 0" by (cases k) simp_all
  then show ?thesis using assms
    by (auto simp: settles_def put_scalar_def store_at_def split: json.splits sum.splits)
qed

lemma putFixed_settles:
  assumes "codec_ready ms xs" "j < length ms" "at + m_FixedSize (ms ! j) \<le> length b"
    and "\<And>b' x at' t v path'. x = (at', t, v, path') \<Longrightarrow> fixed_type ms t \<Longrightarrow> at' + Type_Size ms t \<le> length b'
      \<Longrightarrow> need xs t \<le> 2 * pos_of xs j + 2 \<Longrightarrow> settles (length b') (p b' x)"
  shows "settles (length b) (putFixed p b at (ms ! j) obj path)"
proof (cases "checkKeys (ms ! j) obj path")
  case None
  note j = ready_message [OF assms(1,2)]
  have "settles (length b) (put_items p b (field_items at (ms ! j) obj path))"
  proof (rule put_items_settles)
    show "in_order ms at (at + m_FixedSize (ms ! j)) (map where_what (field_items at (ms ! j) obj path))"
      unfolding where_fields by (rule message_in_order [OF j(1,2)])
    show "settles (length b) (p b' x)" if x: "x \<in> set (field_items at (ms ! j) obj path)" "length b' = length b" for b' x
      using message_items [OF assms(1,2) x(1)] assms(3) assms(4) [of x _ _ _ _ b'] x(2) by fastforce
  qed (rule assms(3))
  then show ?thesis using None by (simp add: putFixed_def)
next
  case (Some e)
  then have "e \<noteq> Panic" by (auto simp: checkKeys_def split: option.splits if_splits)
  then show ?thesis using Some by (simp add: putFixed_def settles_def)
qed

lemma put_total:
  assumes "codec_ready ms xs" "fixed_type ms t" "at + Type_Size ms t \<le> length b" "need xs t \<le> n"
  shows "settles (length b) (put n fl ms b (at, t, v, path))"
  using assms(2-)
proof (induction n arbitrary: t at b v path)
  case 0
  then show ?case by (cases t) (auto split: option.splits)
next
  case (Suc n)
  show ?case
  proof (cases t)
    case (Plain k p)
    then show ?thesis using Suc.prems(2) put_scalar_settles by simp
  next
    case (RefTo nm r p)
    then obtain j where j: "r = Some j" "j < length ms"
      using Suc.prems(1) by (cases r) (auto simp: fixed_type_def fixed_ref_def)
    have "settles (length b) (putFixed (put n fl ms) b at (ms ! j) obj path)" for obj
      using Suc.prems(2,3) RefTo j Suc.IH by (intro putFixed_settles [OF assms(1) j(2)]) auto
    then show ?thesis using RefTo j by (auto simp: settles_def split: json.splits)
  next
    case (ArrayOf len e p)
    have e: "fixed_type ms e" using Suc.prems(1) ArrayOf elem_fixed by (auto simp: fixed_type_def)
    have "settles (length b) (put_items (put n fl ms) b (elem_items at (Type_Size ms e) e arr path))" if "length arr = len" for arr
    proof (rule put_items_settles)
      show "in_order ms at (at + len * Type_Size ms e) (map where_what (elem_items at (Type_Size ms e) e arr path))"
        unfolding where_elems using elems_in_order [OF e, of at 0 len] that by simp
      show "at + len * Type_Size ms e \<le> length b" using Suc.prems(2) ArrayOf by simp
      show "settles (length b) (put n fl ms b' x)" if "x \<in> set (elem_items at (Type_Size ms e) e arr path)" "length b' = length b" for b' x
        using elem_item [OF that(1)] that(2) \<open>length arr = len\<close> Suc.prems(2,3) ArrayOf Suc.IH [OF e, of _ b']
          elem_end [of _ len at "Type_Size ms e" "length b"] by fastforce
    qed
    then show ?thesis using ArrayOf by (auto simp: settles_def split: json.splits)
  qed
qed

definition steady :: "(codec_error + unit) option \<Rightarrow> bool" where
  "steady r \<longleftrightarrow> (\<exists>x. r = Some x \<and> x \<noteq> Inl Panic)"

lemma check_items_steady:
  assumes "in_order ms lo hi xs" "hi \<le> length b" "\<And>x. x \<in> set xs \<Longrightarrow> steady (p x)"
  shows "steady (check_items p b xs)"
  using assms
proof (induction ms lo hi xs rule: in_order.induct)
  case (2 ms lo hi at t xs)
  then have "steady (p (at, t))" "steady (check_items p b xs)" "at \<le> length b" by auto
  then show ?case by (auto simp: steady_def split: sum.splits)
qed (simp add: steady_def)

lemma checkFixed_steady:
  assumes "codec_ready ms xs" "j < length ms" "at + m_FixedSize (ms ! j) \<le> length b"
    and "\<And>at' t. fixed_type ms t \<Longrightarrow> at' + Type_Size ms t \<le> length b \<Longrightarrow> need xs t \<le> 2 * pos_of xs j + 2
      \<Longrightarrow> steady (p (at', t))"
  shows "steady (checkFixed p b at (ms ! j))"
  unfolding checkFixed_def
proof (rule check_items_steady)
  note j = ready_message [OF assms(1,2)]
  show ord: "in_order ms at (at + m_FixedSize (ms ! j)) (map (\<lambda>f. (at + f_Offset f, f_Type f)) (FixedFields (ms ! j)))"
    by (rule message_in_order [OF j(1,2)])
  show "steady (p x)" if x: "x \<in> set (map (\<lambda>f. (at + f_Offset f, f_Type f)) (FixedFields (ms ! j)))" for x
  proof -
    obtain f where f: "f \<in> set (FixedFields (ms ! j))" "x = (at + f_Offset f, f_Type f)" using x by auto
    have "need xs (f_Type f) \<le> 2 * pos_of xs j + 2" using need_field [OF assms(1) j(3)] f by (simp add: FixedFields_def)
    then show ?thesis using assms(3,4) in_order_mem [OF ord, of "at + f_Offset f" "f_Type f"] f by auto
  qed
qed (rule assms(3))

lemma check_total:
  assumes "codec_ready ms xs" "fixed_type ms t" "at + Type_Size ms t \<le> length b" "need xs t \<le> n"
  shows "steady (checkType n ms b (at, t))"
  using assms(2-)
proof (induction n arbitrary: t at)
  case 0
  then show ?case by (cases t) (auto split: option.splits)
next
  case (Suc n)
  show ?case
  proof (cases t)
    case (Plain k p)
    then show ?thesis using Suc.prems(2) by (auto simp: steady_def)
  next
    case (RefTo nm r p)
    then obtain j where j: "r = Some j" "j < length ms"
      using Suc.prems(1) by (cases r) (auto simp: fixed_type_def fixed_ref_def)
    then show ?thesis
      using Suc.prems(2,3) RefTo Suc.IH checkFixed_steady [OF assms(1) j(2), of at b "checkType n ms b"] by auto
  next
    case (ArrayOf len e p)
    have e: "fixed_type ms e" using Suc.prems(1) ArrayOf elem_fixed by (auto simp: fixed_type_def)
    have "steady (check_items (checkType n ms b) b (map (\<lambda>i. (at + i * Type_Size ms e, e)) [0..<len]))"
    proof (rule check_items_steady)
      show ord: "in_order ms at (at + len * Type_Size ms e) (map (\<lambda>i. (at + i * Type_Size ms e, e)) [0..<len])"
        using elems_in_order [OF e, of at 0 len] by simp
      show le: "at + len * Type_Size ms e \<le> length b" using Suc.prems(2) ArrayOf by simp
      show "steady (checkType n ms b x)" if "x \<in> set (map (\<lambda>i. (at + i * Type_Size ms e, e)) [0..<len])" for x
        using in_order_mem [OF ord, of "fst x" "snd x"] that le Suc.prems(3) ArrayOf by (auto intro!: Suc.IH [OF e])
    qed
    then show ?thesis using ArrayOf by simp
  qed
qed

section \<open>What is written can be read\<close>

definition zero :: "bytes \<Rightarrow> nat \<Rightarrow> nat \<Rightarrow> bool" where
  "zero b lo hi \<longleftrightarrow> (\<forall>i. lo \<le> i \<and> i < hi \<longrightarrow> b ! i = 0)"

definition same_on :: "bytes \<Rightarrow> bytes \<Rightarrow> nat \<Rightarrow> nat \<Rightarrow> bool" where
  "same_on b c lo hi \<longleftrightarrow> (\<forall>i. lo \<le> i \<and> i < hi \<longrightarrow> b ! i = c ! i)"

text \<open>
  From \<open>b\<close> to \<open>b'\<close> only the bytes between \<open>lo\<close> and \<open>hi\<close> changed, and every longer or equal
  buffer with these bytes passes the check.
\<close>

definition written :: "(bytes \<Rightarrow> (codec_error + unit) option) \<Rightarrow> nat \<Rightarrow> nat \<Rightarrow> bytes \<Rightarrow> bytes \<Rightarrow> bool" where
  "written chk lo hi b b' \<longleftrightarrow> length b' = length b \<and> (\<forall>i. i < lo \<or> hi \<le> i \<longrightarrow> b' ! i = b ! i)
     \<and> (\<forall>c. length b \<le> length c \<and> same_on b' c lo hi \<longrightarrow> chk c = Some (Inr ()))"

lemma put_items_written:
  assumes "in_order ms lo hi (map where_what xs)" "hi \<le> length b" "zero b lo hi" "put_items p b xs = Some (Inr b')"
    and "\<And>at t v path b b'. (at, t, v, path) \<in> set xs \<Longrightarrow> at + Type_Size ms t \<le> length b \<Longrightarrow> zero b at (at + Type_Size ms t)
      \<Longrightarrow> p b (at, t, v, path) = Some (Inr b') \<Longrightarrow> written (\<lambda>c. q c (at, t)) at (at + Type_Size ms t) b b'"
  shows "written (\<lambda>c. check_items (q c) c (map where_what xs)) lo hi b b'"
  using assms
proof (induction xs arbitrary: lo b)
  case (Cons x xs)
  obtain at t v path where x: "x = (at, t, v, path)" by (cases x) auto
  let ?mid = "at + Type_Size ms t"
  have ord: "lo \<le> at" "?mid \<le> hi" "in_order ms ?mid hi (map where_what xs)" using Cons.prems(1) x by simp_all
  obtain b1 where b1: "p b x = Some (Inr b1)" and rest: "put_items p b1 xs = Some (Inr b')"
    using Cons.prems(4) by (auto split: if_splits option.splits sum.splits)
  have w1: "written (\<lambda>c. q c (at, t)) at ?mid b b1"
    by (rule Cons.prems(5)) (use Cons.prems(2,3) b1 x ord in \<open>auto simp: zero_def\<close>)
  have w2: "written (\<lambda>c. check_items (q c) c (map where_what xs)) ?mid hi b1 b'"
  proof (rule Cons.IH [OF ord(3) _ _ rest])
    show "hi \<le> length b1" using w1 Cons.prems(2) by (simp add: written_def)
    show "zero b1 ?mid hi" using w1 Cons.prems(3) ord(1) by (auto simp: written_def zero_def)
  qed (rule Cons.prems(5), auto)
  have len: "length b1 = length b" "length b' = length b" using w1 w2 by (simp_all add: written_def)
  have keep: "b' ! i = b1 ! i" if "i < ?mid \<or> hi \<le> i" for i using w2 that by (auto simp: written_def)
  have "q c (at, t) = Some (Inr ())" if c: "length b \<le> length c" "same_on b' c lo hi" for c
  proof -
    have "same_on b1 c at ?mid" unfolding same_on_def
    proof (intro allI impI)
      fix i assume i: "at \<le> i \<and> i < ?mid"
      have "b' ! i = c ! i" using c(2) i ord by (simp add: same_on_def)
      then show "b1 ! i = c ! i" using keep [of i] i by simp
    qed
    then show ?thesis using w1 c(1) by (simp add: written_def)
  qed
  moreover have "check_items (q c) c (map where_what xs) = Some (Inr ())" if c: "length b \<le> length c" "same_on b' c lo hi" for c
  proof -
    have "same_on b' c ?mid hi" using c(2) ord by (auto simp: same_on_def)
    then show ?thesis using w2 c(1) len by (simp add: written_def)
  qed
  moreover have "b' ! i = b ! i" if "i < lo \<or> hi \<le> i" for i
    using keep [of i] w1 that ord by (auto simp: written_def)
  ultimately show ?case using x ord(1,2) Cons.prems(2) len by (auto simp: written_def)
qed (auto simp: written_def)

lemma nth_store_at: "at + length x \<le> length b \<Longrightarrow> i < at \<or> at + length x \<le> i \<Longrightarrow> store_at b at x ! i = b ! i"
  by (auto simp: store_at_def nth_append)

lemma put_scalar_written:
  assumes "put_scalar fl b at k v path = Inr b'" "at + ScalarSize k \<le> length b" "zero b at (at + ScalarSize k)"
  shows "written (\<lambda>c. checkType (Suc n) ms c (at, Plain k p)) at (at + ScalarSize k) b b'"
proof (cases "k = Bool")
  case True
  then obtain x where x: "v = JBool x" "b' = (if x then b[at := 1] else b)"
    using assms(1) by (auto simp: put_scalar_def split: json.splits if_splits)
  have "unat (b' ! at) \<le> 1" using x assms(2,3) True by (simp add: zero_def)
  then show ?thesis using x assms(2) True by (auto simp: written_def same_on_def)
next
  case False
  then obtain bits where "b' = store_at b at (le_bytes (ScalarSize k) bits)"
    using assms(1) by (auto simp: put_scalar_def split: sum.splits if_splits)
  then show ?thesis using assms(2) False nth_store_at [of at "le_bytes (ScalarSize k) bits" b]
    by (simp add: written_def) (simp add: store_at_def)
qed

lemma putFixed_written:
  assumes "laid ms m" "checked_msg ms m" "at + m_FixedSize m \<le> length b" "zero b at (at + m_FixedSize m)"
    and "putFixed p b at m obj path = Some (Inr b')"
    and "\<And>at t v path b b'. fixed_type ms t \<Longrightarrow> at + Type_Size ms t \<le> length b \<Longrightarrow> zero b at (at + Type_Size ms t)
      \<Longrightarrow> p b (at, t, v, path) = Some (Inr b') \<Longrightarrow> written (\<lambda>c. q c (at, t)) at (at + Type_Size ms t) b b'"
  shows "written (\<lambda>c. checkFixed (q c) c at m) at (at + m_FixedSize m) b b'"
proof -
  let ?xs = "field_items at m obj path"
  have ord: "in_order ms at (at + m_FixedSize m) (map where_what ?xs)"
    unfolding where_fields by (rule message_in_order [OF assms(1,2)])
  have "put_items p b ?xs = Some (Inr b')"
    using assms(5) by (auto simp: putFixed_def split: option.splits)
  then have "written (\<lambda>c. check_items (q c) c (map where_what ?xs)) at (at + m_FixedSize m) b b'"
  proof (rule put_items_written [OF ord assms(3,4)])
    fix at' t v path' d d' assume x: "(at', t, v, path') \<in> set ?xs"
    then have "(at', t) \<in> set (map where_what ?xs)" by force
    then have "fixed_type ms t" using in_order_mem [OF ord] by blast
    then show "at' + Type_Size ms t \<le> length d \<Longrightarrow> zero d at' (at' + Type_Size ms t) \<Longrightarrow> p d (at', t, v, path') = Some (Inr d')
      \<Longrightarrow> written (\<lambda>c. q c (at', t)) at' (at' + Type_Size ms t) d d'" by (rule assms(6))
  qed
  then show ?thesis by (simp add: checkFixed_def where_fields)
qed

lemma put_written:
  assumes "codec_ready ms xs" "fixed_type ms t" "at + Type_Size ms t \<le> length b" "zero b at (at + Type_Size ms t)"
    and "put n fl ms b (at, t, v, path) = Some (Inr b')"
  shows "written (\<lambda>c. checkType n ms c (at, t)) at (at + Type_Size ms t) b b'"
  using assms(2-)
proof (induction n arbitrary: t at b v path b')
  case (Suc n)
  show ?case
  proof (cases t)
    case (Plain k p)
    then show ?thesis using Suc.prems put_scalar_written [of fl b at k v path b' n ms p] by simp
  next
    case (RefTo nm r p)
    then obtain j obj where j: "r = Some j" "v = JObject obj" "putFixed (put n fl ms) b at (ms ! j) obj path = Some (Inr b')"
      using Suc.prems(4) by (auto split: json.splits option.splits)
    then have m: "laid ms (ms ! j)" "checked_msg ms (ms ! j)"
      using ready_message [OF assms(1), of j] Suc.prems(1) RefTo by (auto simp: fixed_type_def fixed_ref_def)
    have "written (\<lambda>c. checkFixed (checkType n ms c) c at (ms ! j)) at (at + m_FixedSize (ms ! j)) b b'"
      by (rule putFixed_written [OF m _ _ j(3) Suc.IH]) (use Suc.prems(2,3) RefTo j(1) in auto)
    then show ?thesis using RefTo j(1) by simp
  next
    case (ArrayOf len e p)
    then obtain arr where arr: "v = JArray arr" "length arr = len"
        "put_items (put n fl ms) b (elem_items at (Type_Size ms e) e arr path) = Some (Inr b')"
      using Suc.prems(4) by (auto split: json.splits if_splits)
    have e: "fixed_type ms e" using Suc.prems(1) ArrayOf elem_fixed by (auto simp: fixed_type_def)
    have ord: "in_order ms at (at + len * Type_Size ms e) (map where_what (elem_items at (Type_Size ms e) e arr path))"
      unfolding where_elems using elems_in_order [OF e, of at 0 len] arr(2) by simp
    have "written (\<lambda>c. check_items (checkType n ms c) c (map where_what (elem_items at (Type_Size ms e) e arr path)))
        at (at + len * Type_Size ms e) b b'"
      by (rule put_items_written [OF ord _ _ arr(3)])
        (use Suc.prems(2,3) ArrayOf Suc.IH e elem_item in \<open>fastforce+\<close>)
    then show ?thesis using ArrayOf arr(2) by (simp add: where_elems)
  qed
qed simp

lemma unat_string_bytes: "map unat (string_bytes s) = runes s"
proof -
  have "unat (word_of_nat (of_char c) :: byte) = of_char c" for c
    by (simp add: unat_of_nat)
  then show ?thesis by (simp add: string_bytes_def runes_def)
qed

lemma to_uint64_diff: "a \<le> b \<Longrightarrow> b < 2 ^ 64 \<Longrightarrow> to_uint64 (int b - int a) = b - a"
  by (simp add: to_uint64_def flip: of_nat_diff)

lemma to_uint64_le: "a \<le> b \<Longrightarrow> to_uint64 (int b - int a) \<le> b - a"
proof -
  assume "a \<le> b"
  moreover have "(int b - int a) mod 2 ^ 64 \<le> int b - int a" using \<open>a \<le> b\<close> by (intro zmod_le_nonneg_dividend) simp
  ultimately show ?thesis by (simp add: to_uint64_def nat_le_iff)
qed

lemma put_vars_decode:
  assumes "put_vars mn obj b fs = Inr b'"
  shows "\<exists>tail. b' = b @ tail" and "length b' < 2 ^ 32 \<Longrightarrow> decode_vars b' (length b) fs = Inr ()"
proof -
  have "(\<exists>tail. b' = b @ tail) \<and> (length b' < 2 ^ 32 \<longrightarrow> decode_vars b' (length b) fs = Inr ())"
    using assms
  proof (induction fs arbitrary: b)
    case (Cons f fs)
    then obtain raw where raw: "varBytes f (obj_get obj (f_Name f)) (mn @ ''.'' @ f_Name f) = Inr raw"
      and rest: "put_vars mn obj (b @ le_bytes 4 (length raw) @ raw) fs = Inr b'"
      by (auto split: sum.splits)
    obtain tail where b': "b' = (b @ le_bytes 4 (length raw) @ raw) @ tail" using Cons.IH [OF rest] by blast
    have utf: "kind (f_Type f) = String \<Longrightarrow> utf8_Valid (map unat raw)"
      using raw by (auto simp: varBytes_def unat_string_bytes split: json.splits if_splits)
    have "decode_vars b' (length b) (f # fs) = Inr ()" if "length b' < 2 ^ 32"
    proof -
      have "Option.bind (go_slice b' (length b) (length b')) Uint32 = Some (length raw)"
        using that b' by (simp add: go_slice_def Uint32_def le_val_le_bytes)
      moreover have "go_slice b' (length b + 4) (length b + 4 + length raw) = Some raw" using b' by (simp add: go_slice_def)
      moreover have "to_uint64 (int (length b') - int (length b + 4)) = length b' - (length b + 4)"
        using that b' by (intro to_uint64_diff) auto
      moreover have "decode_vars b' (length b + 4 + length raw) fs = Inr ()" using Cons.IH [OF rest] that by (simp add: add.assoc)
      ultimately show ?thesis using utf b' by (simp add: Let_def)
    qed
    then show ?case using b' by auto
  qed simp
  then show "\<exists>tail. b' = b @ tail" "length b' < 2 ^ 32 \<Longrightarrow> decode_vars b' (length b) fs = Inr ()" by blast+
qed

text \<open>
  The tests of \<open>Decode\<close> keep every slice of the variable section inside the input: the first
  makes room for the length, the second for the bytes it announces.
\<close>

lemma decode_vars_settles:
  "decode_vars b off fs \<noteq> Inl Panic"
proof (induction fs arbitrary: off)
  case (Cons f fs)
  show ?case
  proof (cases "int (length b) - int off < 4")
    case False
    then have off: "off + 4 \<le> length b" by simp
    then have "\<not> length b - off < 4" "off \<le> length b" by linarith+
    then obtain n where n: "Option.bind (go_slice b off (length b)) Uint32 = Some n" by (simp add: go_slice_def Uint32_def)
    have d: "to_uint64 (int (length b) - int (off + 4)) \<le> length b - (off + 4)" by (rule to_uint64_le [OF off])
    show ?thesis
    proof (cases "n > to_uint64 (int (length b) - int (off + 4))")
      case True
      then show ?thesis using False n by (simp add: Let_def)
    next
      case fits: False
      then have "go_slice b (off + 4) (off + 4 + n) \<noteq> None" using off d by (simp add: go_slice_def)
      then show ?thesis using False n fits Cons.IH [of "off + 4 + n"] by (auto simp: Let_def split: if_splits)
    qed
  qed simp
qed simp

section \<open>Properties\<close>

text \<open>
  C30: Every encoding is accepted. For a message of a schema that \<open>Load\<close> accepts, whatever JSON
  value \<open>Encode\<close> takes, \<open>Decode\<close> finds the bytes well formed, if they are fewer than \<open>2^32\<close>.
\<close>

theorem Encode_accepted:
  assumes "Load readFile path = Some (Inr s)" "m \<in> set (s_Messages s)"
    and "Encode fl (s_Messages s) m v = Some (Inr b)" "length b < 2 ^ 32"
  shows "Decode (s_Messages s) m b = Some (Inr ())"
proof -
  let ?ms = "s_Messages s"
  note ready = checked_ready [OF Load_checked [OF assms(1)]]
  have m: "laid ?ms m" "checked_msg ?ms m" using ready assms(2) by (auto simp: codec_ready_def)
  obtain obj b0 where b0: "putFixed (put (codec_fuel ?ms) fl ?ms) (replicate (m_FixedSize m) 0) 0 m obj (m_Name m) = Some (Inr b0)"
    and vars: "put_vars (m_Name m) obj b0 (VarFields m) = Inr b"
    using assms(3) by (auto simp: Encode_def split: json.splits option.splits sum.splits)
  have w: "written (\<lambda>c. checkFixed (checkType (codec_fuel ?ms) ?ms c) c 0 m) 0 (0 + m_FixedSize m) (replicate (m_FixedSize m) 0) b0"
    by (rule putFixed_written [OF m _ _ b0 put_written [OF ready]]) (auto simp: zero_def)
  then have len: "length b0 = m_FixedSize m" by (simp add: written_def)
  obtain tail where tail: "b = b0 @ tail" using put_vars_decode(1) [OF vars] by blast
  have "checkFixed (checkType (codec_fuel ?ms) ?ms b) b 0 m = Some (Inr ())"
    using w len tail by (simp add: written_def same_on_def nth_append)
  then show ?thesis using put_vars_decode(2) [OF vars assms(4)] len tail by (simp add: Decode_def)
qed

definition no_floats :: "unit floats" where
  "no_floats = \<lparr>ParseFloat = (\<lambda>_. None), exact32 = (\<lambda>_. False), Float32bits = (\<lambda>_. 0), Float64bits = (\<lambda>_. 0)\<rparr>"

definition demo_value :: json where
  "demo_value = JObject [(''x'', JNumber ''9''), (''s'', JString ''hi''),
     (''ps'', JArray [JObject [(''f'', JBool True), (''n'', JNumber ''258'')], JObject [(''f'', JBool False), (''n'', JNumber ''1'')]])]"

lemma demo_encode:
  "Encode no_floats demo_messages (demo_messages ! 1) demo_value =
     Some (Inr [9,0,0,0, 1,0,0,0,2,1,0,0, 0,0,0,0,1,0,0,0, 2,0,0,0,104,105])"
  by code_simp

theorem Encode_accepted_witness:
  "\<exists>s b. Load (\<lambda>_. Inr demo_src) ''f'' = Some (Inr s) \<and> s_Messages s = demo_messages
     \<and> Encode no_floats (s_Messages s) (s_Messages s ! 1) demo_value = Some (Inr b) \<and> length b = 26
     \<and> Decode (s_Messages s) (s_Messages s ! 1) b = Some (Inr ())"
proof -
  obtain s where s: "Load (\<lambda>_. Inr demo_src) ''f'' = Some (Inr s)" "s_Messages s = demo_messages"
    by (rule demo_loaded)
  then have m: "s_Messages s ! 1 \<in> set (s_Messages s)" by (simp add: demo_messages_def)
  note b = demo_encode [folded s(2)]
  show ?thesis using Encode_accepted [OF s(1) m b] s b by (intro exI [of _ s]) simp
qed

text \<open>
  C32: Neither direction of the codec panics. For a message of a schema that \<open>Load\<close> accepts,
  \<open>Encode\<close> returns bytes or an error for every JSON value, and \<open>Decode\<close> accepts or rejects every
  input without an index or a slice out of range, however short or malformed it is, and
  whatever lengths its variable section claims.
\<close>

theorem codec_never_panics:
  assumes "Load readFile path = Some (Inr s)" "m \<in> set (s_Messages s)"
  shows "(\<exists>r. Encode fl (s_Messages s) m v = Some r \<and> r \<noteq> Inl Panic) \<and> (\<exists>r. Decode (s_Messages s) m b = Some r \<and> r \<noteq> Inl Panic)"
proof
  let ?ms = "s_Messages s"
  note ready = checked_ready [OF Load_checked [OF assms(1)]]
  obtain j where j: "j < length ?ms" "m = ?ms ! j" using assms(2) by (auto simp: in_set_conv_nth)
  have "j \<in> set (s_Sorted s)" "length (s_Sorted s) = length ?ms"
    using ready j(1) distinct_card [of "s_Sorted s"] by (auto simp: codec_ready_def)
  then have fuel: "2 * pos_of (s_Sorted s) j + 2 \<le> codec_fuel ?ms"
    using pos_of_less [of j "s_Sorted s"] by (simp add: codec_fuel_def)
  have vars: "put_vars mn obj c fs \<noteq> Inl Panic" for mn obj c fs
    by (induction fs arbitrary: c) (auto simp: varBytes_def split: sum.splits json.splits if_splits option.splits)
  have dvars: "decode_vars b off fs \<noteq> Inl Panic" for off fs by (rule decode_vars_settles)
  show "\<exists>r. Encode fl ?ms m v = Some r \<and> r \<noteq> Inl Panic"
  proof (cases v)
    case (JObject obj)
    have "settles (length (replicate (m_FixedSize m) (0 :: byte)))
        (putFixed (put (codec_fuel ?ms) fl ?ms) (replicate (m_FixedSize m) 0) 0 m obj (m_Name m))"
      unfolding j(2) by (rule putFixed_settles) (use ready j fuel in \<open>auto intro!: put_total\<close>)
    then show ?thesis using JObject vars by (auto simp: Encode_def settles_def split: sum.splits)
  qed (auto simp: Encode_def)
  show "\<exists>r. Decode ?ms m b = Some r \<and> r \<noteq> Inl Panic"
  proof (cases "length b < m_FixedSize m")
    case False
    then have "steady (checkFixed (checkType (codec_fuel ?ms) ?ms b) b 0 m)"
      unfolding j(2) by (intro checkFixed_steady) (use ready j fuel in \<open>auto intro!: check_total\<close>)
    then show ?thesis using False dvars by (auto simp: Decode_def steady_def split: sum.splits)
  qed (simp add: Decode_def)
qed

text \<open>An input whose variable section announces more bytes than there are.\<close>

definition short_input :: bytes where
  "short_input = [9,0,0,0, 1,0,0,0,2,1,0,0, 0,0,0,0,1,0,0,0, 255,0,0,0,104,105]"

lemma short_input_rejected: "Decode demo_messages (demo_messages ! 1) short_input = Some (Inl (DecodeError ErrLength))"
  by code_simp

theorem codec_never_panics_witness:
  "\<exists>s m. Load (\<lambda>_. Inr demo_src) ''f'' = Some (Inr s) \<and> m \<in> set (s_Messages s) \<and>
     Decode (s_Messages s) m short_input = Some (Inl (DecodeError ErrLength)) \<and>
     (\<exists>r. Decode (s_Messages s) m short_input = Some r \<and> r \<noteq> Inl Panic)"
proof -
  obtain s where s: "Load (\<lambda>_. Inr demo_src) ''f'' = Some (Inr s)" "s_Messages s = demo_messages"
    by (rule demo_loaded)
  then have m: "s_Messages s ! 1 \<in> set (s_Messages s)" by (simp add: demo_messages_def)
  show ?thesis
    using codec_never_panics [OF s(1) m, of no_floats JNull short_input] s(1) m short_input_rejected [folded s(2)] by blast
qed

end
