(* ===== verification/Spec2Isabelle.thy ===== *)
theory Spec2Isabelle
  imports Ring_Props Gate Wakeup Conn_Props Endpoint_Props Service_Props Refcodec_Props
begin

text \<open>
  A verification development of go-ipc, interprocess communication over shared memory for Go.

  \<^bold>\<open>The program.\<close> A \<^emph>\<open>ring\<close> (\<^verbatim>\<open>src/ring.go\<close>) is a buffer in shared memory into which many
  producers claim, fill and commit records, and from which one consumer reads. A \<^emph>\<open>queue\<close>
  (\<^verbatim>\<open>src/queue.go\<close>, \<^verbatim>\<open>src/queue_peer.go\<close>) is a ring with two wake \<^emph>\<open>events\<close> (\<^verbatim>\<open>src/event.go\<close>,
  \<^verbatim>\<open>src/event_unix.go\<close>): it blocks senders and the receiver, watches the processes at the other
  end (\<^verbatim>\<open>src/identity.go\<close>) and takes the claims of dead producers out of the ring
  (\<^verbatim>\<open>src/recover.go\<close>). A \<^emph>\<open>channel\<close> (\<^verbatim>\<open>src/channel.go\<close>) is a queue for each direction, and a
  \<^emph>\<open>connection\<close> (\<^verbatim>\<open>src/conn.go\<close>, \<^verbatim>\<open>src/deadline.go\<close>) carries a byte stream over a channel. A
  \<^emph>\<open>service\<close> (\<^verbatim>\<open>src/service.go\<close>) answers calls, over one channel for each client. Queues and
  channels are found by \<^emph>\<open>names\<close> (\<^verbatim>\<open>src/name.go\<close>, \<^verbatim>\<open>src/name_unix.go\<close>), files that a process holds a
  lock on (\<^verbatim>\<open>src/filelock\<close>) while it lives. The schema compiler \<^verbatim>\<open>ipcgen\<close> reads message schemas (\<^verbatim>\<open>src/ipcgen/internal/schema\<close>); its
  reference codec (\<^verbatim>\<open>src/ipcgen/internal/refcodec\<close>) defines the bytes of a message.

  \<^bold>\<open>The model.\<close> A struct is a record, an operation a function that takes the state and returns
  it changed, an error a value of \<open>ipc_error\<close> in a sum type. Integers keep their width:
  \<open>uint64\<close> is a \<open>nat\<close> reduced by \<open>add64\<close> and \<open>sub64\<close>, \<open>int32\<close> an \<open>int\<close> reduced by \<open>i32\<close>,
  bytes and record types are words. The control block of a ring is a record of its fields, its
  data region a memory of bytes. What the kernel decides (the answer of a dial, a failed
  close or write, the random bytes of an identity) is an argument; the answers in \<open>env\<close> stay the
  same during one operation. The package \<^verbatim>\<open>go-shm\<close>, the handler of a service and the messages of
  a typed call are arguments as well. A wait is a list of rounds, each of
  which says what the world did meanwhile; an operation whose rounds run out is \<open>None\<close>.

  \<^item> \<open>Ipc_Prelude\<close>: bytes, little-endian numbers, fixed-width integers, errors.
    \<open>Go_Text\<close>: the text routines of Go's standard library that the program calls.
  \<^item> \<open>Ring\<close>: the operations of the ring. \<open>Ring_Layout\<close>: the meaning of its memory as a
    list of entries (\<open>ring_inv\<close>). \<open>Ring_Spec\<close>, \<open>Ring_Refine\<close>, \<open>Ring_Safety\<close>: what each operation
    does to the entries, and what a read does to arbitrary memory. \<open>Ring_Props\<close>: the
    properties of the ring (a write appends, a read takes a prefix, no message is lost or
    doubled, no memory makes a read panic).
  \<^item> \<open>Fifo\<close>: the locale of a bounded message queue, interpreted for the ring in
    \<open>Ring_Refine\<close> and for the queue in \<open>Queue_Props\<close>.
  \<^item> \<open>Recover\<close>, \<open>Identity\<close>, \<open>Event\<close>: claim slots, exit watches, FIFO events.
  \<^item> \<open>Queue\<close>: the operations of a handle. \<open>Queue_Spec\<close>, \<open>Queue_Recv\<close>, \<open>Park\<close>: their lemmas.
    \<open>Queue_Props\<close>: sending, receiving, recovery and closing. The handle is seen from one
    goroutine; two theories look at the interleavings that matter, with every atomic access a
    step: \<open>Gate\<close> (the segment stays mapped while operations use it) and \<open>Wakeup\<close> (no wakeup
    is lost, also when waits are cancelled). In \<open>Wakeup\<close> the ring is its claims in order, signals
    do not fail, and there are at most \<open>pipeBuf\<close> senders.
  \<^item> \<open>Channel\<close>, \<open>Deadline\<close>, \<open>Conn\<close>, \<open>Conn_Props\<close>: channels, deadlines and the byte stream.
  \<^item> \<open>Kernel_Files\<close>: files, locks and segments of a host. \<open>Names\<close>: locking, publishing, reading,
    removing and sweeping names; a sweep keeps what a living process holds. \<open>Endpoint\<close>: the
    constructors of events, queues, channels and connections, and \<open>Unlink\<close>. \<open>Endpoint_Props\<close>: what
    one process creates is what another one opens, on a host that serves the calls (\<open>host_serves\<close>)
    and whose segments behave as \<^verbatim>\<open>go-shm\<close> documents (\<open>shm_creates\<close>, \<open>shm_memory\<close>).
  \<^item> \<open>Service\<close>, \<open>Service_Props\<close>: servers, sessions and clients. A call that reaches the service
    returns what its handler answered, late replies to calls given up are passed over, and the
    numbers of the sessions are unique.
  \<^item> \<open>Schema\<close>, \<open>Schema_Parse\<close>, \<open>Schema_Check\<close>: the schema compiler. \<open>Schema_Cycles\<close>,
    \<open>Schema_Layout\<close>, \<open>Schema_Props\<close>: what an accepted schema promises. \<open>Refcodec\<close>,
    \<open>Refcodec_Props\<close>: the codec, which accepts what it encodes and never panics.

  \<^bold>\<open>Bounds and fuel.\<close> The loop of \<open>receive\<close> is a \<open>partial_function\<close>; \<open>receive_returns\<close> shows
  that it returns. The search of \<open>cycles\<close> takes one more than the number of messages as fuel,
  and \<open>cycles_total\<close> shows that this is enough; the recursion of the codec through message
  references takes the same fuel, and \<open>put_total\<close> and \<open>check_total\<close> show the same. Every other
  loop is a total function. The ring of the witnesses has the smallest capacity the code
  admits; the overflow at 4 GiB is proved on a ring of that size.

  \<^bold>\<open>Not modelled.\<close>
  \<^item> The code of other platforms (files named \<^verbatim>\<open>windows\<close>, \<^verbatim>\<open>darwin\<close>, \<^verbatim>\<open>cosmo\<close>) and the event over
    sockets that only such a host uses (\<^verbatim>\<open>src/event_sock.go\<close>).
  \<^item> \<open>Lock\<close> of \<^verbatim>\<open>src/filelock\<close>, whose goroutine waits in the kernel; \<open>Take\<close>, \<open>Release\<close> and \<open>TryLock\<close> are
    in \<open>Kernel_Files\<close>.
  \<^item> The interleaving of the goroutines of a service inside their turns, and of several producers
    inside one claim.
  \<^item> The generators (\<^verbatim>\<open>src/ipcgen/internal/gen\<close>) print program text in four languages through
    \<^verbatim>\<open>fmt\<close> and \<^verbatim>\<open>go/format\<close>; what that text means is not part of the repository. Their input is
    the schema whose guarantees \<open>Schema_Props\<close> proves.
  \<^item> The command line of \<^verbatim>\<open>ipcgen\<close>, which parses flags and writes files, and the ports to C, C++
    and Python.
\<close>

end
